(* ===== verification/Prelude.thy ===== *)
theory Prelude
  imports Main "HOL-Library.AList" "HOL-Library.Multiset" "HOL-Library.Word"
    "HOL-Library.Monad_Syntax"
begin

text \<open>
  Shared ground of the development.

  \<^item> A Go \<open>string\<close> and a Go \<open>[]byte\<close> are both lists of bytes: \<open>bytes\<close> is a list of
    \<open>char\<close>, and a \<open>char\<close> of Isabelle is exactly one byte.  The conversions between the
    two Go types are then the identity, as they are on the contents in Go.
  \<^item> A Go \<open>map\<close> is an association list with distinct keys; the order of the list stands
    for nothing.  A \<open>for range\<close> loop over a map visits the entries in an order the
    language leaves open: every such loop takes the visiting order as an argument
    \<open>ord\<close>, a function that permutes the list of entries (\<open>iter_ok\<close>).
  \<^item> A panic (nil dereference, index out of range, \<open>log.Panic\<close>) is the value \<open>None\<close>
    of an option type; \<open>do\<close> blocks sequence computations that may panic.
\<close>

type_synonym bytes = "char list"

type_synonym ('k, 'v) gomap = "('k \<times> 'v) list"

named_theorems go_simps "rewrite rules for the Go data types of the model"

subsection \<open>Maps\<close>

abbreviation mget :: "('k, 'v) gomap \<Rightarrow> 'k \<Rightarrow> 'v option" where
  "mget m k \<equiv> map_of m k"

abbreviation mput :: "'k \<Rightarrow> 'v \<Rightarrow> ('k, 'v) gomap \<Rightarrow> ('k, 'v) gomap" where
  "mput \<equiv> AList.update"

abbreviation mdel :: "'k \<Rightarrow> ('k, 'v) gomap \<Rightarrow> ('k, 'v) gomap" where
  "mdel \<equiv> AList.delete"

abbreviation mkeys :: "('k, 'v) gomap \<Rightarrow> 'k list" where
  "mkeys m \<equiv> map fst m"

abbreviation mvals :: "('k, 'v) gomap \<Rightarrow> 'v list" where
  "mvals m \<equiv> map snd m"

definition getOr :: "('k, 'v) gomap \<Rightarrow> 'k \<Rightarrow> 'v \<Rightarrow> 'v" where
  \<comment> \<open>reading a map, with the zero value for a missing key\<close>
  "getOr m k d = (case mget m k of Some v \<Rightarrow> v | None \<Rightarrow> d)"

definition mwf :: "('k, 'v) gomap \<Rightarrow> bool" where
  "mwf m \<longleftrightarrow> distinct (mkeys m)"

lemma mget_mput [simp, go_simps]:
  "mget (mput k v m) k' = (if k' = k then Some v else mget m k')"
  by (simp add: update_conv')

lemma mget_mdel [simp, go_simps]:
  "mget (mdel k m) k' = (if k' = k then None else mget m k')"
  by (simp add: delete_conv')

lemma mwf_Nil [simp, intro]: "mwf []"
  by (simp add: mwf_def)

lemma mwf_mput [simp, intro]: "mwf m \<Longrightarrow> mwf (mput k v m)"
  by (simp add: mwf_def distinct_update)

lemma mwf_mdel [simp, intro]: "mwf m \<Longrightarrow> mwf (mdel k m)"
  by (simp add: mwf_def distinct_delete)

lemma set_mkeys_mput: "set (mkeys (mput k v m)) = insert k (set (mkeys m))"
  using AList.dom_update[of k v m] by simp

lemma set_mwf_iff: "mwf m \<Longrightarrow> (k, v) \<in> set m \<longleftrightarrow> mget m k = Some v"
  by (auto simp: mwf_def dest: map_of_SomeD)

lemma length_mput:
  "length (mput k v m) = (if mget m k = None then Suc (length m) else length m)"
  by (induction m) auto

lemma length_mdel_Some:
  "mwf m \<Longrightarrow> mget m k = Some v \<Longrightarrow> Suc (length (mdel k m)) = length m"
proof (induction m)
  case (Cons a m)
  have "mget m (fst a) = None" "mwf m"
    using Cons.prems(1) by (auto simp: mwf_def map_of_eq_None_iff)
  then have "mdel (fst a) m = m"
    by (simp add: map_of_eq_None_iff delete_id)
  with Cons \<open>mwf m\<close> show ?case
    by (cases a) (auto split: if_splits)
qed simp

lemma mdel_absent: "mget m k = None \<Longrightarrow> mdel k m = m"
  by (simp add: map_of_eq_None_iff delete_id)

subsection \<open>Slices\<close>

text \<open>\<open>xs[i]\<close> and \<open>xs[i] = v\<close>, which panic out of range.\<close>

definition slot :: "'a list \<Rightarrow> nat \<Rightarrow> 'a option" where
  "slot xs i = (if i < length xs then Some (xs ! i) else None)"

definition setSlot :: "'a list \<Rightarrow> nat \<Rightarrow> 'a \<Rightarrow> 'a list option" where
  "setSlot xs i v = (if i < length xs then Some (xs[i := v]) else None)"

lemma slot_eq_Some: "slot xs i = Some x \<longleftrightarrow> i < length xs \<and> xs ! i = x"
  by (auto simp: slot_def)

lemma slot_less [simp]: "i < length xs \<Longrightarrow> slot xs i = Some (xs ! i)"
  by (simp add: slot_def)

fun mapM :: "('a \<Rightarrow> 'b option) \<Rightarrow> 'a list \<Rightarrow> 'b list option" where
  \<comment> \<open>a loop that appends one value per element, each of which may panic\<close>
  "mapM f [] = Some []"
| "mapM f (x # xs) = do { y \<leftarrow> f x; ys \<leftarrow> mapM f xs; Some (y # ys) }"

lemma mapM_eq_Some: "mapM f xs = Some ys \<longleftrightarrow> list_all2 (\<lambda>x y. f x = Some y) xs ys"
  by (induction xs arbitrary: ys) (auto simp: list_all2_Cons1 bind_eq_Some_conv)

lemma mapM_Some [simp]: "mapM (\<lambda>x. Some (f x)) xs = Some (map f xs)"
  by (induction xs) auto

fun allM :: "('a \<Rightarrow> bool option) \<Rightarrow> 'a list \<Rightarrow> bool option" where
  \<comment> \<open>a loop that returns \<open>false\<close> at the first element that fails a test, which may panic\<close>
  "allM f [] = Some True"
| "allM f (x # xs) = do { b \<leftarrow> f x; if b then allM f xs else Some False }"

lemma allM_True: "allM f xs = Some True \<longleftrightarrow> (\<forall>x\<in>set xs. f x = Some True)"
  by (induction xs) (auto split: Option.bind_split)

fun foldM :: "('a \<Rightarrow> 's \<Rightarrow> 's option) \<Rightarrow> 'a list \<Rightarrow> 's \<Rightarrow> 's option" where
  \<comment> \<open>a loop over a slice whose body may panic\<close>
  "foldM f [] s = Some s"
| "foldM f (x # xs) s = do { s' \<leftarrow> f x s; foldM f xs s' }"

lemma foldM_append: "foldM f (xs @ ys) s = do { s' \<leftarrow> foldM f xs s; foldM f ys s' }"
  by (induction xs arbitrary: s) (auto split: Option.bind_split)

lemma foldM_invariant:
  assumes "foldM f xs s = Some s'" "P s"
    and "\<And>x s s'. x \<in> set xs \<Longrightarrow> P s \<Longrightarrow> f x s = Some s' \<Longrightarrow> P s'"
  shows "P s'"
  using assms by (induction xs arbitrary: s) (auto simp: bind_eq_Some_conv)

text \<open>A component whose operations may panic and keep an invariant, and the sequences of operations
  a client runs on it.\<close>

locale machine =
  fixes step :: "'op \<Rightarrow> 's \<Rightarrow> 's option" and inv :: "'s \<Rightarrow> bool"
  assumes step_inv: "inv s \<Longrightarrow> step x s = Some s' \<Longrightarrow> inv s'"
begin

lemma run_inv: "inv s \<Longrightarrow> foldM step xs s = Some s' \<Longrightarrow> inv s'"
  using foldM_invariant[of step xs s s' inv] step_inv by blast

lemma run_prefix_inv: "inv s \<Longrightarrow> foldM step (xs @ ys) s = Some s' \<Longrightarrow> \<exists>s1. foldM step xs s = Some s1 \<and> inv s1"
  by (auto simp: foldM_append bind_eq_Some_conv intro: run_inv)

end

subsection \<open>Iteration order\<close>

definition iter_ok :: "('a list \<Rightarrow> 'a list) \<Rightarrow> bool" where
  "iter_ok ord \<longleftrightarrow> (\<forall>xs. mset (ord xs) = mset xs)"

lemma iter_ok_id [simp]: "iter_ok (\<lambda>xs. xs)"
  by (simp add: iter_ok_def)

lemma iter_ok_rev [simp]: "iter_ok rev"
  by (simp add: iter_ok_def)

lemma iter_ok_set: "iter_ok ord \<Longrightarrow> set (ord xs) = set xs"
  by (metis iter_ok_def set_mset_mset)

lemma iter_ok_length: "iter_ok ord \<Longrightarrow> length (ord xs) = length xs"
  by (metis iter_ok_def size_mset)

lemma iter_ok_distinct: "iter_ok ord \<Longrightarrow> distinct (ord xs) \<longleftrightarrow> distinct xs"
  by (metis iter_ok_def mset_eq_imp_distinct_iff)

subsection \<open>Decimal numerals\<close>

text \<open>\<open>strconv.Itoa\<close> on a number that is not negative, and \<open>strconv.Atoi\<close>, which
  answers the value together with whether the text was a numeral (the callers ignore
  the error and go on with the value; a number too large for the type is clamped).\<close>

fun natDec :: "nat \<Rightarrow> bytes" where
  "natDec n = (if n < 10 then [char_of (48 + n)] else natDec (n div 10) @ [char_of (48 + n mod 10)])"

declare natDec.simps [simp del]

definition digitVal :: "char \<Rightarrow> nat option" where
  "digitVal c = (let n = (of_char c :: nat) in if 48 \<le> n \<and> n \<le> 57 then Some (n - 48) else None)"

fun decVal :: "nat \<Rightarrow> bytes \<Rightarrow> nat option" where
  "decVal acc [] = Some acc"
| "decVal acc (c # cs) = (case digitVal c of None \<Rightarrow> None | Some d \<Rightarrow> decVal (10 * acc + d) cs)"

definition maxInt64 :: int where "maxInt64 = 2 ^ 63 - 1"
definition minInt64 :: int where "minInt64 = - (2 ^ 63)"

definition clampInt64 :: "int \<Rightarrow> int" where
  "clampInt64 x = max minInt64 (min maxInt64 x)"

definition Atoi :: "bytes \<Rightarrow> int" where
  "Atoi s =
     (let (neg, ds) = (case s of [] \<Rightarrow> (False, [])
                       | c # cs \<Rightarrow> if c = CHR ''-'' then (True, cs)
                                  else if c = CHR ''+'' then (False, cs) else (False, s))
      in if ds = [] then 0
         else case decVal 0 ds of None \<Rightarrow> 0
              | Some v \<Rightarrow> clampInt64 (if neg then - int v else int v))"

lemma digitVal_char_of: "d < 10 \<Longrightarrow> digitVal (char_of (48 + d)) = Some d"
  by (simp add: digitVal_def)

lemma decVal_append:
  "decVal acc (xs @ ys) = (case decVal acc xs of None \<Rightarrow> None | Some v \<Rightarrow> decVal v ys)"
  by (induction xs arbitrary: acc) (auto split: option.splits)

lemma decVal_natDec: "decVal 0 (natDec n) = Some n"
proof (induction n rule: natDec.induct)
  case (1 n)
  show ?case
  proof (cases "n < 10")
    case True
    then show ?thesis by (simp add: natDec.simps [of n] digitVal_char_of)
  next
    case False
    with 1 have "decVal 0 (natDec (n div 10)) = Some (n div 10)" by simp
    moreover have "digitVal (char_of (48 + n mod 10)) = Some (n mod 10)"
      by (rule digitVal_char_of) simp
    ultimately show ?thesis
      using False by (simp add: natDec.simps [of n] decVal_append)
  qed
qed

lemma natDec_not_Nil: "natDec n \<noteq> []"
  by (simp add: natDec.simps [of n])

lemma natDec_hd: "48 \<le> (of_char (hd (natDec n)) :: nat) \<and> (of_char (hd (natDec n)) :: nat) \<le> 57"
proof (induction n rule: natDec.induct)
  case (1 n)
  show ?case
  proof (cases "n < 10")
    case True
    then show ?thesis by (simp add: natDec.simps [of n])
  next
    case False
    with 1 show ?thesis
      by (simp add: natDec.simps [of n] natDec_not_Nil)
  qed
qed

lemma Atoi_natDec: "int n \<le> maxInt64 \<Longrightarrow> Atoi (natDec n) = int n"
proof -
  assume le: "int n \<le> maxInt64"
  obtain c cs where eq: "natDec n = c # cs"
    using natDec_not_Nil [of n] by (cases "natDec n") auto
  have "48 \<le> (of_char c :: nat)" using natDec_hd [of n] eq by simp
  then have "c \<noteq> CHR ''-''" "c \<noteq> CHR ''+''" by auto
  moreover have "decVal 0 (c # cs) = Some n" using decVal_natDec [of n] eq by simp
  moreover have "clampInt64 (int n) = int n"
    using le by (simp add: clampInt64_def minInt64_def)
  ultimately show ?thesis
    unfolding Atoi_def eq by (simp del: decVal.simps)
qed

subsection \<open>Go integer division\<close>

text \<open>\<open>/\<close> and \<open>%\<close> on Go integers truncate towards zero and panic on a zero divisor.\<close>

definition goDiv :: "int \<Rightarrow> int \<Rightarrow> int option" where
  "goDiv a b = (if b = 0 then None else Some (sgn a * sgn b * (\<bar>a\<bar> div \<bar>b\<bar>)))"

definition goMod :: "int \<Rightarrow> int \<Rightarrow> int option" where
  "goMod a b = (if b = 0 then None else Some (sgn a * (\<bar>a\<bar> mod \<bar>b\<bar>)))"

lemma goMod_nonneg: "0 \<le> a \<Longrightarrow> 0 < b \<Longrightarrow> goMod a b = Some (a mod b)"
  by (cases "a = 0") (auto simp: goMod_def)

lemma goDiv_nonneg: "0 \<le> a \<Longrightarrow> 0 < b \<Longrightarrow> goDiv a b = Some (a div b)"
  by (cases "a = 0") (auto simp: goDiv_def)

subsection \<open>Big-endian bytes\<close>

fun beBytes :: "nat \<Rightarrow> nat \<Rightarrow> bytes" where
  "beBytes 0 n = []"
| "beBytes (Suc k) n = beBytes k (n div 256) @ [char_of n]"

definition beNat :: "bytes \<Rightarrow> nat" where
  "beNat bs = foldl (\<lambda>acc c. 256 * acc + of_char c) 0 bs"

lemma length_beBytes [simp]: "length (beBytes k n) = k"
  by (induction k arbitrary: n) auto

lemma beNat_Nil [simp]: "beNat [] = 0"
  by (simp add: beNat_def)

lemma beNat_snoc [simp]: "beNat (bs @ [c]) = 256 * beNat bs + of_char c"
  by (simp add: beNat_def)

lemma beNat_beBytes: "beNat (beBytes k n) = n mod 256 ^ k"
proof (induction k arbitrary: n)
  case (Suc k)
  have "beNat (beBytes (Suc k) n) = 256 * (n div 256 mod 256 ^ k) + n mod 256"
    using Suc by simp
  also have "\<dots> = n mod 256 ^ Suc k"
    by (simp add: mod_mult2_eq)
  finally show ?case .
qed simp

lemma beBytes_beNat: "beBytes (length bs) (beNat bs) = bs"
proof (induction bs rule: rev_induct)
  case (snoc c bs)
  have c: "(of_char c :: nat) < 256" by simp
  then have "(256 * beNat bs + of_char c) div 256 = beNat bs" by simp
  moreover have "char_of (256 * beNat bs + of_char c) = c"
  proof -
    have "char_of (256 * beNat bs + of_char c) = char_of ((256 * beNat bs + of_char c) mod 256)"
      by (simp only: char_of_mod_256)
    also have "(256 * beNat bs + of_char c) mod 256 = (of_char c :: nat)"
      using c by simp
    finally show ?thesis by simp
  qed
  ultimately show ?case using snoc by simp
qed simp

lemma beNat_less: "beNat bs < 256 ^ length bs"
  by (metis beBytes_beNat beNat_beBytes mod_less_divisor zero_less_numeral zero_less_power)

end
