(* ===== verification/Content.thy ===== *)
theory Content
  imports Prelude
begin

text \<open>
  \<^verbatim>\<open>src/message/Content.go\<close>: the payload of a message is one byte string that packs a list
  of byte strings, separated by tabs, with tab and backslash escaped by a backslash.
  A signature is one more field at the end; \<open>CheckSign\<close> reads it and removes it.
  \<open>*content\<close> is mutated by the Go methods: the model returns the new contents.
\<close>

definition tabByte :: char where "tabByte = CHR 0x09"
definition escByte :: char where "escByte = CHR 0x5C"

definition replaceByte :: "char \<Rightarrow> bytes \<Rightarrow> bytes \<Rightarrow> bytes" where
  \<comment> \<open>\<open>strings.ReplaceAll\<close> for a pattern of one byte\<close>
  "replaceByte old new s = concat (map (\<lambda>c. if c = old then new else [c]) s)"

definition escapeTab :: "bytes \<Rightarrow> bytes" where
  "escapeTab s =
     (let s1 = replaceByte escByte [escByte, escByte] s
      in replaceByte tabByte [escByte, tabByte] s1)"

fun joinTab :: "bytes list \<Rightarrow> bytes" where
  \<comment> \<open>\<open>bytes.Join(parts, "\t")\<close>\<close>
  "joinTab [] = []"
| "joinTab [x] = x"
| "joinTab (x # y # zs) = x @ tabByte # joinTab (y # zs)"

definition NewStrContent :: "bytes list \<Rightarrow> bytes" where
  "NewStrContent msgs = joinTab (map escapeTab msgs)"

definition NewByteContent :: "bytes list \<Rightarrow> bytes" where
  "NewByteContent msgs = joinTab (map escapeTab msgs)"

definition AppendByteContent :: "bytes \<Rightarrow> bytes list \<Rightarrow> bytes" where
  "AppendByteContent content msgs =
     (if msgs = [] then content
      else content @ [tabByte] @ joinTab (map escapeTab msgs))"

definition AppendStrContent :: "bytes \<Rightarrow> bytes list \<Rightarrow> bytes" where
  "AppendStrContent content msgs =
     (if msgs = [] then content
      else content @ [tabByte] @ joinTab (map escapeTab msgs))"

definition pushLast :: "bytes list \<Rightarrow> char \<Rightarrow> bytes list" where
  \<comment> \<open>\<open>*last = append( *last, b)\<close>\<close>
  "pushLast msgs b = butlast msgs @ [last msgs @ [b]]"

fun parseLoop :: "bytes \<Rightarrow> bytes list \<Rightarrow> bool \<Rightarrow> bytes list" where
  "parseLoop [] msgs escMod = msgs"
| "parseLoop (b # bs) msgs escMod =
     (if b = escByte then
        (if escMod then parseLoop bs (pushLast msgs b) False
         else parseLoop bs msgs True)
      else if b = tabByte then
        (if escMod then parseLoop bs (pushLast msgs b) False
         else parseLoop bs (msgs @ [[]]) escMod)
      else parseLoop bs (pushLast msgs b) escMod)"

definition ParseContent :: "bytes \<Rightarrow> bytes list" where
  "ParseContent content = parseLoop content [[]] False"

definition Sign :: "bytes \<Rightarrow> bytes \<Rightarrow> bytes" where
  "Sign content name = AppendStrContent content [name]"

definition CheckSign :: "bytes \<Rightarrow> bytes \<times> bytes" where
  \<comment> \<open>the signature read, and the contents without it\<close>
  "CheckSign content =
     (if content = [] then (''ERROR'', content)
      else let contents = ParseContent content;
               signature = last contents;
               temp = NewByteContent [contents ! 0]
           in (signature, fold (\<lambda>m t. AppendByteContent t [m]) (tl (butlast contents)) temp))"

subsection \<open>Escaping, joining and parsing\<close>

lemma tabByte_neq_escByte [simp]: "tabByte \<noteq> escByte" "escByte \<noteq> tabByte"
  by (simp_all add: tabByte_def escByte_def)

lemma escapeTab_Nil [simp]: "escapeTab [] = []"
  by (simp add: escapeTab_def replaceByte_def)

lemma escapeTab_Cons [simp]:
  "escapeTab (c # s) =
     (if c = escByte then [escByte, escByte] else if c = tabByte then [escByte, tabByte] else [c])
       @ escapeTab s"
  by (simp add: escapeTab_def replaceByte_def Let_def)

lemma pushLast_snoc [simp]: "pushLast (msgs @ [m]) b = msgs @ [m @ [b]]"
  by (simp add: pushLast_def)

lemma parseLoop_escapeTab:
  "parseLoop (escapeTab m @ rest) (msgs @ [acc]) False = parseLoop rest (msgs @ [acc @ m]) False"
  by (induction m arbitrary: acc) simp_all

lemma parseLoop_joinTab:
  "ms \<noteq> [] \<Longrightarrow>
   parseLoop (joinTab (map escapeTab ms)) (msgs @ [acc]) False = msgs @ (acc @ hd ms) # tl ms"
proof (induction ms arbitrary: msgs acc rule: joinTab.induct)
  case (2 x)
  show ?case using parseLoop_escapeTab [of x "[]" msgs acc] by simp
next
  case (3 x y zs)
  have "parseLoop (joinTab (map escapeTab (x # y # zs))) (msgs @ [acc]) False
      = parseLoop (joinTab (map escapeTab (y # zs))) ((msgs @ [acc @ x]) @ [[]]) False"
    by (simp add: parseLoop_escapeTab)
  also have "\<dots> = (msgs @ [acc @ x]) @ y # zs"
    using "3.IH" [of "msgs @ [acc @ x]" "[]"] by simp
  finally show ?case by simp
qed simp

lemma ParseContent_join: "ms \<noteq> [] \<Longrightarrow> ParseContent (joinTab (map escapeTab ms)) = ms"
  using parseLoop_joinTab [of ms "[]" "[]"] by (simp add: ParseContent_def)

lemma joinTab_append:
  "xs \<noteq> [] \<Longrightarrow> ys \<noteq> [] \<Longrightarrow> joinTab (xs @ ys) = joinTab xs @ tabByte # joinTab ys"
proof (induction xs rule: joinTab.induct)
  case (2 x)
  then show ?case by (cases ys) auto
qed auto

lemma AppendByteContent_New:
  "ms \<noteq> [] \<Longrightarrow> AppendByteContent (NewByteContent ms) ns = NewByteContent (ms @ ns)"
  by (simp add: AppendByteContent_def NewByteContent_def joinTab_append)

lemma Sign_New: "ms \<noteq> [] \<Longrightarrow> Sign (NewByteContent ms) n = NewByteContent (ms @ [n])"
  by (simp add: Sign_def AppendStrContent_def NewByteContent_def joinTab_append)

lemma fold_AppendByteContent:
  "ms \<noteq> [] \<Longrightarrow>
   fold (\<lambda>m t. AppendByteContent t [m]) ns (NewByteContent ms) = NewByteContent (ms @ ns)"
  by (induction ns arbitrary: ms) (auto simp: AppendByteContent_New)

lemma NewByteContent_two: "ms \<noteq> [] \<Longrightarrow> NewByteContent (ms @ [n]) \<noteq> []"
  by (simp add: NewByteContent_def joinTab_append)

lemma NewStrContent_eq: "NewStrContent = NewByteContent"
  by (simp add: fun_eq_iff NewStrContent_def NewByteContent_def)

lemma NewByteContent_Nil_field: "NewByteContent [[]] = []"
  by (simp add: NewByteContent_def)

lemmas content_simps = AppendByteContent_New Sign_New NewStrContent_eq

subsection \<open>Properties\<close>

text \<open>C38: a message packs its fields without loss: parsing the packed content of any
  non-empty list of fields, whatever tabs and backslashes they contain, gives the fields
  back.\<close>
theorem ParseContent_NewByteContent:
  "msgs \<noteq> [] \<Longrightarrow> ParseContent (NewByteContent msgs) = msgs"
  by (simp add: NewByteContent_def ParseContent_join)

theorem ParseContent_NewByteContent_witness:
  "ParseContent (NewByteContent [[tabByte], [], [escByte, tabByte]]) = [[tabByte], [], [escByte, tabByte]]"
  by (rule ParseContent_NewByteContent) simp

lemma ParseContent_New: "ms \<noteq> [] \<Longrightarrow> ParseContent (NewByteContent ms) = ms"
  by (simp add: NewByteContent_def ParseContent_join)

lemma CheckSign_New:
  assumes "ms \<noteq> []"
  shows "CheckSign (NewByteContent (ms @ [n])) = (n, NewByteContent ms)"
proof -
  have parse: "ParseContent (NewByteContent (ms @ [n])) = ms @ [n]"
    by (simp add: ParseContent_New)
  obtain m ms' where ms: "ms = m # ms'" using assms by (cases ms) auto
  then have "tl (butlast (ms @ [n])) = ms'" "(ms @ [n]) ! 0 = m" by simp_all
  then show ?thesis
    using fold_AppendByteContent [of "[m]" ms'] NewByteContent_two [OF assms, of n] parse ms
    by (simp add: CheckSign_def Let_def)
qed

text \<open>signing and checking a signature are inverse: \<open>CheckSign\<close> on signed content
  returns exactly the signer's name and leaves exactly the content that was signed.\<close>
theorem CheckSign_Sign:
  "msgs \<noteq> [] \<Longrightarrow> CheckSign (Sign (NewByteContent msgs) name) = (name, NewByteContent msgs)"
  by (simp add: Sign_New CheckSign_New)

theorem CheckSign_Sign_witness:
  "CheckSign (Sign (NewByteContent [''a'', [tabByte]]) ''key'') = (''key'', NewByteContent [''a'', [tabByte]])"
  by (rule CheckSign_Sign) simp

end
