(* ===== verification/Crypt.thy ===== *)
theory Crypt
  imports Prelude
begin

text \<open>
  \<^verbatim>\<open>src/crypt/toolFuncs.go\<close> and \<^verbatim>\<open>src/crypt/Hash.go\<close>: the big-endian coding of \<open>uint64\<close>,
  the assignment of a node to a shard, the proof-of-work test, and the compact form of a
  proof-of-work target.  SHA-256 is the parameter \<open>sha\<close> of the definitions that use it:
  every theorem holds for any function in its place.  A hash value
  (\<open>type Hash struct{ Hash string }\<close>) is its byte string; \<open>EmptyHash\<close> is the empty one.
  A target (\<open>*big.Int\<close>) is a natural number: the code never builds a negative one.
\<close>

unbundle bit_operations_syntax

type_synonym hash = bytes

definition EmptyHash :: hash where "EmptyHash = []"

definition UintToBytes :: "64 word \<Rightarrow> bytes" where
  "UintToBytes num = beBytes 8 (unat num)"

definition BytesToUint :: "bytes \<Rightarrow> 64 word option" where
  "BytesToUint buf = (if length buf < 8 then None else Some (of_nat (beNat (take 8 buf))))"

definition HashToRange ::
  "bool \<Rightarrow> (bytes \<Rightarrow> bytes) \<Rightarrow> 64 word \<Rightarrow> bytes \<Rightarrow> nat \<Rightarrow> bytes \<Rightarrow> int \<Rightarrow> int option" where
  \<comment> \<open>the first argument is \<open>config.RealRand\<close>; the key is its modulus bytes and its exponent\<close>
  "HashToRange realRand sha val keyN keyE p n =
     (if realRand
      then let buf = beBytes 8 (unat val);
               data = buf @ keyN @ beBytes 4 keyE;
               hashInt = beNat (sha data)
           in if n = 0 then None else Some (int hashInt mod \<bar>n\<bar>)
      else do { q \<leftarrow> goDiv (Atoi p) 10; goMod q n })"

definition doubleSHA256 :: "(bytes \<Rightarrow> bytes) \<Rightarrow> bytes \<Rightarrow> bytes" where
  "doubleSHA256 sha blockHeaderBytes = sha (sha blockHeaderBytes)"

definition IsValidBlock :: "(bytes \<Rightarrow> bytes) \<Rightarrow> bytes \<Rightarrow> nat \<Rightarrow> bool" where
  "IsValidBlock sha blockHeaderBytes target = (beNat (doubleSHA256 sha blockHeaderBytes) < target)"

fun bitLen :: "nat \<Rightarrow> nat" where
  \<comment> \<open>\<open>(*big.Int).BitLen\<close>\<close>
  "bitLen n = (if n = 0 then 0 else Suc (bitLen (n div 2)))"

declare bitLen.simps [simp del]

definition BigToCompact :: "nat \<Rightarrow> 32 word" where
  "BigToCompact target =
     (if target = 0 then 0
      else
        let size = (of_nat ((bitLen target + 7) div 8) :: 32 word);
            compact =
              (if size \<le> 3
               then ucast (push_bit (unat (8 * (3 - size))) (of_nat target :: 64 word))
               else ucast (of_nat (drop_bit (unat (8 * (size - 3))) target) :: 64 word));
            (compact', size') =
              (if compact AND 0x00800000 \<noteq> 0 then (drop_bit 8 compact, size + 1)
               else (compact, size))
        in compact' OR push_bit 24 size')"

definition CompactToBig :: "32 word \<Rightarrow> nat" where
  "CompactToBig compact =
     (let size = drop_bit 24 compact;
          wd = compact AND 0x007fffff
      in if size \<le> 3
         then unat (drop_bit (unat (8 * (3 - size))) (ucast wd :: 64 word))
         else push_bit (unat (8 * (size - 3))) (unat wd))"

subsection \<open>Big-endian integers\<close>

lemma unat_64_lt: "unat (w :: 64 word) < 256 ^ 8"
  using unsigned_less [of w, where 'a = nat] by simp

lemma unat_64_mod [simp]: "unat (w :: 64 word) mod 18446744073709551616 = unat w"
  using unat_64_lt [of w] by simp

text \<open>\<open>BytesToUint\<close> inverts \<open>UintToBytes\<close> on every 64-bit value, and the coding takes
  exactly eight bytes; extra bytes behind the first eight are ignored, fewer than eight
  panic.\<close>
theorem BytesToUint_UintToBytes:
  "BytesToUint (UintToBytes n @ rest) = Some n \<and> length (UintToBytes n) = 8 \<and>
   (length buf < 8 \<longrightarrow> BytesToUint buf = None)"
  by (simp add: BytesToUint_def UintToBytes_def beNat_beBytes unat_64_lt)

theorem BytesToUint_UintToBytes_witness:
  "BytesToUint (UintToBytes 0xABCDEF @ ''xyz'') = Some 0xABCDEF \<and> BytesToUint ''short'' = None"
  using BytesToUint_UintToBytes [of "0xABCDEF" "''xyz''" "''short''"] by simp

lemma BytesToUint_UintToBytes_simp [simp]: "BytesToUint (UintToBytes n) = Some n"
  by (simp add: BytesToUint_def UintToBytes_def beNat_beBytes unat_64_lt)

lemma UintToBytes_BytesToUint:
  "length buf = 8 \<Longrightarrow> BytesToUint buf = Some n \<Longrightarrow> UintToBytes n = buf"
proof -
  assume len: "length buf = 8" and "BytesToUint buf = Some n"
  then have n: "n = of_nat (beNat buf)" by (simp add: BytesToUint_def)
  have "beNat buf < 256 ^ 8" using beNat_less [of buf] len by simp
  then have "unat n = beNat buf" by (simp add: n unat_of_nat)
  then show ?thesis using beBytes_beNat [of buf] len by (simp add: UintToBytes_def)
qed

subsection \<open>Bit length\<close>

lemma bitLen_bounds: "n < 2 ^ bitLen n \<and> (n \<noteq> 0 \<longrightarrow> 2 ^ (bitLen n - 1) \<le> n)"
proof (induction n rule: bitLen.induct)
  case (1 n)
  show ?case
  proof (cases "n = 0")
    case True
    then show ?thesis by (simp add: bitLen.simps [of 0])
  next
    case False
    with 1 have IH: "n div 2 < 2 ^ bitLen (n div 2)"
      "n div 2 \<noteq> 0 \<longrightarrow> 2 ^ (bitLen (n div 2) - 1) \<le> n div 2" by auto
    have eq: "bitLen n = Suc (bitLen (n div 2))" using False by (simp add: bitLen.simps [of n])
    have up: "n < 2 ^ bitLen n" unfolding eq using IH(1) by simp
    have "2 ^ (bitLen n - 1) \<le> n"
    proof (cases "n div 2 = 0")
      case True
      then show ?thesis using False eq by (simp add: bitLen.simps [of 0])
    next
      case nz: False
      then have "0 < bitLen (n div 2)" by (simp add: bitLen.simps [of "n div 2"])
      then have "(2::nat) ^ bitLen (n div 2) = 2 * 2 ^ (bitLen (n div 2) - 1)"
        by (cases "bitLen (n div 2)") auto
      with IH(2) nz have "2 ^ bitLen (n div 2) \<le> 2 * (n div 2)" by linarith
      then show ?thesis using eq by simp
    qed
    with up show ?thesis by simp
  qed
qed

definition byteLen :: "nat \<Rightarrow> nat" where
  "byteLen n = (bitLen n + 7) div 8"

lemma pow256: "(256::nat) ^ k = 2 ^ (8 * k)"
  by (simp add: power_mult)

lemma byteLen_upper: "n < 256 ^ byteLen n"
proof -
  have "bitLen n \<le> 8 * byteLen n" unfolding byteLen_def by linarith
  then have "(2::nat) ^ bitLen n \<le> 2 ^ (8 * byteLen n)" by (rule power_increasing) simp
  with bitLen_bounds [of n] show ?thesis unfolding pow256 by linarith
qed

lemma byteLen_lower: "n \<noteq> 0 \<Longrightarrow> 256 ^ (byteLen n - 1) \<le> n"
proof -
  assume nz: "n \<noteq> 0"
  then have "0 < bitLen n" by (simp add: bitLen.simps [of n])
  then have "8 * (byteLen n - 1) \<le> bitLen n - 1" unfolding byteLen_def by linarith
  then have "(2::nat) ^ (8 * (byteLen n - 1)) \<le> 2 ^ (bitLen n - 1)" by (rule power_increasing) simp
  with bitLen_bounds [of n] nz show ?thesis unfolding pow256 by linarith
qed

lemma byteLen_pos: "n \<noteq> 0 \<Longrightarrow> 0 < byteLen n"
  by (simp add: byteLen_def bitLen.simps [of n])

subsection \<open>The compact form of a target\<close>

text \<open>What \<open>BigToCompact\<close> computes, on numbers: a mantissa of three bytes, the leading
  ones of the target, and the number of bytes; the mantissa gives up its last byte when
  its top bit is set.\<close>

definition mant0 :: "nat \<Rightarrow> nat" where
  "mant0 t = (if byteLen t \<le> 3 then t * 256 ^ (3 - byteLen t) else t div 256 ^ (byteLen t - 3))"

definition mantOf :: "nat \<Rightarrow> nat" where
  "mantOf t = (if 2 ^ 23 \<le> mant0 t then mant0 t div 256 else mant0 t)"

definition sizeOf :: "nat \<Rightarrow> nat" where
  "sizeOf t = (if 2 ^ 23 \<le> mant0 t then byteLen t + 1 else byteLen t)"

lemma mant0_less: "mant0 t < 2 ^ 24"
proof (cases "byteLen t \<le> 3")
  case True
  have "t * 256 ^ (3 - byteLen t) < 256 ^ byteLen t * 256 ^ (3 - byteLen t)"
    using byteLen_upper [of t] by simp
  also have "\<dots> = 256 ^ 3" using True by (simp add: power_add [symmetric])
  finally show ?thesis using True by (simp add: mant0_def)
next
  case False
  then have "256 ^ byteLen t = (256::nat) ^ 3 * 256 ^ (byteLen t - 3)"
    using power_add [of "256::nat" 3 "byteLen t - 3"] by simp
  with byteLen_upper [of t] have "t div 256 ^ (byteLen t - 3) < 256 ^ 3"
    by (simp add: less_mult_imp_div_less)
  with False show ?thesis by (simp add: mant0_def)
qed

lemma mantOf_less: "mantOf t < 2 ^ 23"
  using mant0_less [of t] by (auto simp: mantOf_def)

lemma word32_bit23: "unat (w :: 32 word) < 2 ^ 24 \<Longrightarrow> (w AND 0x00800000 \<noteq> 0) = (2 ^ 23 \<le> unat w)"
proof -
  assume lt: "unat w < 2 ^ 24"
  have "(w AND 0x00800000 \<noteq> 0) = bit w 23"
    using and_exp_eq_0_iff_not_bit [of w 23] by simp
  also have "\<dots> = bit (unat w) 23" by (simp add: bit_unsigned_iff)
  also have "\<dots> = odd (unat w div 2 ^ 23)" by (simp add: bit_iff_odd)
  also have "\<dots> = (2 ^ 23 \<le> unat w)"
  proof (cases "2 ^ 23 \<le> unat w")
    case True
    with lt have "unat w div 2 ^ 23 = 1"
      by (intro div_nat_eqI) simp_all
    with True show ?thesis by simp
  qed simp
  finally show ?thesis .
qed

lemma word32_or_add:
  assumes "unat (m :: 32 word) < 2 ^ 24" and "unat (sz :: 32 word) < 256"
  shows "unat (m OR push_bit 24 sz) = unat sz * 2 ^ 24 + unat m"
proof -
  have "\<not> bit m n \<or> \<not> bit (push_bit 24 sz) n" for n
  proof (cases "n < 24")
    case False
    then have "unat m div 2 ^ n = 0"
      using assms(1) power_increasing [of 24 n "2::nat"] by simp
    then have "\<not> bit (unat m) n" by (simp add: bit_iff_odd)
    then show ?thesis by (simp add: bit_unsigned_iff)
  qed (simp add: bit_push_bit_iff)
  then have "m OR push_bit 24 sz = m + push_bit 24 sz"
    by (simp add: disjunctive_add)
  moreover have "unat (push_bit 24 sz) = unat sz * 2 ^ 24"
    using assms(2) by (simp add: push_bit_eq_mult unat_word_ariths)
  moreover have "unat m + unat sz * 2 ^ 24 < 2 ^ 32"
    using assms by simp
  ultimately show ?thesis by (simp add: unat_word_ariths)
qed

lemma unat_drop_bit_div: "unat (drop_bit n (w :: 'a::len word)) = unat w div 2 ^ n"
proof -
  have "take_bit LENGTH('a) (unat w) = unat w"
    by (rule take_bit_nat_eq_self) (rule unsigned_less)
  then show ?thesis
    by (simp only: unsigned_drop_bit_eq) (simp add: drop_bit_eq_div)
qed

lemma word64_push_of_nat:
  "t * 2 ^ k < 2 ^ 64 \<Longrightarrow> unat (push_bit k (of_nat t :: 64 word)) = t * 2 ^ k"
proof -
  assume a: "t * 2 ^ k < 2 ^ 64"
  have "t * 1 \<le> t * 2 ^ k" by (rule mult_le_mono2) simp
  with a have "t < 2 ^ 64" by linarith
  with a show ?thesis
    by (simp only: unsigned_push_bit_eq) (simp add: push_bit_eq_mult take_bit_eq_mod unat_of_nat)
qed

lemma word32_mult8: "unat (x :: 32 word) < 256 \<Longrightarrow> unat (8 * x) = 8 * unat x"
  by (simp add: unat_word_ariths)

lemma BigToCompact_nat:
  assumes nz: "t \<noteq> 0" and len: "byteLen t \<le> 254"
  shows "unat (BigToCompact t) = sizeOf t * 2 ^ 24 + mantOf t"
proof -
  define s where "s = byteLen t"
  define size where "size = (of_nat s :: 32 word)"
  define compact where "compact =
    (if size \<le> 3 then ucast (push_bit (unat (8 * (3 - size))) (of_nat t :: 64 word))
     else ucast (of_nat (drop_bit (unat (8 * (size - 3))) t) :: 64 word) :: 32 word)"
  have usize: "unat size = s" using len by (simp add: size_def s_def unat_of_nat)
  have le3: "size \<le> 3 \<longleftrightarrow> s \<le> 3" by (simp add: word_le_nat_alt usize)
  have ucompact: "unat compact = mant0 t"
  proof (cases "s \<le> 3")
    case True
    then have "unat (3 - size) = 3 - s" using usize le3 by (simp add: unat_sub)
    then have sh: "unat (8 * (3 - size)) = 8 * (3 - s)"
      using word32_mult8 [of "3 - size"] by (simp only:)
    have m: "mant0 t = t * 2 ^ (8 * (3 - s))" using True by (simp add: mant0_def s_def pow256)
    then have "t * 2 ^ (8 * (3 - s)) < 2 ^ 24" using mant0_less [of t] by simp
    moreover from this have "unat (push_bit (8 * (3 - s)) (of_nat t :: 64 word)) = mant0 t"
      using word64_push_of_nat [of t "8 * (3 - s)"] m by simp
    ultimately show ?thesis
      using le3 True m unfolding compact_def sh
      by (simp del: right_diff_distrib_numeral add: unsigned_ucast_eq take_bit_eq_mod)
  next
    case False
    then have "3 \<le> size" using usize by (simp add: word_le_nat_alt)
    then have "unat (size - 3) = s - 3" using usize by (simp add: unat_sub)
    then have sh: "unat (8 * (size - 3)) = 8 * (s - 3)"
      using word32_mult8 [of "size - 3"] len by (simp add: s_def del: right_diff_distrib_numeral)
    have m: "mant0 t = t div 2 ^ (8 * (s - 3))" using False by (simp add: mant0_def s_def pow256)
    then have "t div 2 ^ (8 * (s - 3)) < 2 ^ 24" using mant0_less [of t] by simp
    then show ?thesis
      using False le3 sh m
      by (simp add: compact_def drop_bit_eq_div unat_of_nat unsigned_ucast_eq take_bit_eq_mod)
  qed
  have bit: "(compact AND 0x00800000 \<noteq> 0) = (2 ^ 23 \<le> mant0 t)"
    using word32_bit23 [of compact] mant0_less [of t] by (simp only: ucompact)
  have eq: "BigToCompact t = (if compact AND 0x00800000 \<noteq> 0
      then drop_bit 8 compact OR push_bit 24 (size + 1) else compact OR push_bit 24 size)"
    using nz by (simp add: BigToCompact_def compact_def size_def s_def byteLen_def Let_def)
  show ?thesis
  proof (cases "2 ^ 23 \<le> mant0 t")
    case True
    have "unat (drop_bit 8 compact) = mant0 t div 256"
      by (simp only: unat_drop_bit_div ucompact) simp
    moreover have "unat (size + 1) = s + 1" using usize len by (simp add: unat_word_ariths s_def)
    ultimately show ?thesis
      using True bit len mant0_less [of t] word32_or_add [of "drop_bit 8 compact" "size + 1"]
      by (simp add: eq sizeOf_def mantOf_def s_def)
  next
    case False
    then show ?thesis
      using bit len mant0_less [of t] word32_or_add [of compact size]
      by (simp add: eq sizeOf_def mantOf_def s_def ucompact usize)
  qed
qed

lemma CompactToBig_nat:
  assumes u: "unat c = sz * 2 ^ 24 + m" and m: "m < 2 ^ 23"
  shows "CompactToBig c = (if sz \<le> 3 then m div 256 ^ (3 - sz) else m * 256 ^ (sz - 3))"
proof -
  have size: "unat (drop_bit 24 c) = sz"
    using u m by (simp only: unat_drop_bit_div) simp
  then have sz: "sz < 256"
    using unsigned_less [of c, where 'a = nat] u by simp
  have "c AND 0x007fffff = take_bit 23 c"
    by (simp add: take_bit_eq_mask mask_eq_exp_minus_1)
  moreover have "unat (take_bit 23 c) = unat c mod 2 ^ 23"
    by (simp only: unsigned_take_bit_eq) (simp only: take_bit_eq_mod)
  moreover have "sz * 2 ^ 24 + m = m + (2 * sz) * 2 ^ 23" by simp
  then have "(sz * 2 ^ 24 + m) mod 2 ^ 23 = m"
    using m by (simp only: mod_mult_self1 mod_less)
  ultimately have wd: "unat (c AND 0x007fffff) = m"
    using u by (simp only:)
  have le3: "drop_bit 24 c \<le> 3 \<longleftrightarrow> sz \<le> 3" by (simp add: word_le_nat_alt size)
  show ?thesis
  proof (cases "sz \<le> 3")
    case True
    then have "unat (3 - drop_bit 24 c) = 3 - sz" using size le3 by (simp add: unat_sub)
    then have sh: "unat (8 * (3 - drop_bit 24 c)) = 8 * (3 - sz)"
      using word32_mult8 [of "3 - drop_bit 24 c"] by (simp only:)
    have "unat (ucast (c AND 0x007fffff) :: 64 word) = m"
      using wd m by (simp add: unsigned_ucast_eq take_bit_eq_mod)
    then have "unat (drop_bit (8 * (3 - sz)) (ucast (c AND 0x007fffff) :: 64 word)) =
        m div 2 ^ (8 * (3 - sz))"
      by (simp only: unat_drop_bit_div)
    then show ?thesis
      using True le3 sh unfolding CompactToBig_def Let_def pow256
      by (simp only: if_True)
  next
    case False
    then have "3 \<le> drop_bit 24 c" using size by (simp add: word_le_nat_alt)
    then have "unat (drop_bit 24 c - 3) = sz - 3" using size by (simp add: unat_sub)
    then have sh: "unat (8 * (drop_bit 24 c - 3)) = 8 * (sz - 3)"
      using word32_mult8 [of "drop_bit 24 c - 3"] sz
      by (simp del: right_diff_distrib_numeral)
    then show ?thesis
      using False le3 wd
      by (simp add: CompactToBig_def Let_def push_bit_eq_mult pow256)
  qed
qed

definition dropOf :: "nat \<Rightarrow> nat" where
  \<comment> \<open>how many low bytes the compact form does not keep\<close>
  "dropOf t = sizeOf t - 3"

lemma CompactToBig_BigToCompact:
  assumes nz: "t \<noteq> 0" and len: "byteLen t \<le> 254"
  shows "CompactToBig (BigToCompact t) = t div 256 ^ dropOf t * 256 ^ dropOf t"
proof -
  have c: "CompactToBig (BigToCompact t) =
      (if sizeOf t \<le> 3 then mantOf t div 256 ^ (3 - sizeOf t) else mantOf t * 256 ^ (sizeOf t - 3))"
    by (rule CompactToBig_nat [OF BigToCompact_nat [OF nz len] mantOf_less])
  define s where "s = byteLen t"
  consider "s \<le> 2" | "s = 3" | "3 < s" by linarith
  then show ?thesis
  proof cases
    case 1
    then have "3 - s = Suc (2 - s)" by simp
    then have "256 ^ (3 - s) = 256 * (256::nat) ^ (2 - s)" by (simp only: power_Suc)
    then show ?thesis
      using 1 c by (simp add: dropOf_def sizeOf_def mantOf_def mant0_def s_def [symmetric])
  next
    case 2
    then show ?thesis
      using c by (simp add: dropOf_def sizeOf_def mantOf_def mant0_def s_def [symmetric])
  next
    case 3
    then have "s - 2 = Suc (s - 3)" by simp
    then have "256 ^ (s - 2) = 256 * (256::nat) ^ (s - 3)" by (simp only: power_Suc)
    then have "t div 256 ^ (s - 3) div 256 = t div 256 ^ (s - 2)"
      by (simp add: div_mult2_eq [symmetric] mult.commute)
    then show ?thesis
      using 3 c by (simp add: dropOf_def sizeOf_def mantOf_def mant0_def s_def [symmetric])
  qed
qed

lemma dropOf_lower:
  assumes "t \<noteq> 0" and "dropOf t \<noteq> 0"
  shows "2 ^ 15 * 256 ^ dropOf t \<le> t"
proof -
  define s where "s = byteLen t"
  have top: "256 ^ (s - 1) \<le> t" using byteLen_lower [OF assms(1)] by (simp add: s_def)
  show ?thesis
  proof (cases "2 ^ 23 \<le> mant0 t")
    case True
    then have d: "dropOf t = s - 2" "3 \<le> s"
      using assms(2) by (simp_all add: dropOf_def sizeOf_def s_def)
    then have "Suc (s - 3) = s - 2" by simp
    then have "256 ^ (s - 2) = 256 * (256::nat) ^ (s - 3)" by (metis power_Suc)
    moreover have "2 ^ 23 * 256 ^ (s - 3) \<le> t"
    proof (cases "s = 3")
      case True
      then show ?thesis using \<open>2 ^ 23 \<le> mant0 t\<close> by (simp add: mant0_def s_def)
    next
      case False
      with d(2) \<open>2 ^ 23 \<le> mant0 t\<close> have "2 ^ 23 \<le> t div 256 ^ (s - 3)"
        by (simp add: mant0_def s_def)
      then have "2 ^ 23 * 256 ^ (s - 3) \<le> t div 256 ^ (s - 3) * 256 ^ (s - 3)"
        by (rule mult_le_mono1)
      then show ?thesis using div_times_less_eq_dividend [of t "256 ^ (s - 3)"] by linarith
    qed
    ultimately show ?thesis by (simp add: d)
  next
    case False
    then have d: "dropOf t = s - 3" "3 < s"
      using assms(2) by (auto simp: dropOf_def sizeOf_def s_def)
    then have "s - 1 = 2 + (s - 3)" by simp
    then have "256 ^ (s - 1) = (256::nat) ^ 2 * 256 ^ (s - 3)" by (simp only: power_add)
    with top show ?thesis by (simp add: d)
  qed
qed

lemma div_times_keep:
  assumes "(k::nat) \<le> t" and "d dvd k" and "0 < d"
  shows "k \<le> t div d * d"
proof -
  from assms(2) obtain q where "k = d * q" ..
  with assms show ?thesis by (simp add: less_eq_div_iff_mult_less_eq mult.commute)
qed

lemma byteLen_unique:
  assumes "256 ^ (k - 1) \<le> t" and "t < 256 ^ k" and "0 < k"
  shows "byteLen t = k"
proof -
  have nz: "t \<noteq> 0" using assms(1) by (metis not_one_le_zero power_eq_0_iff zero_neq_numeral le_zero_eq)
  have "(256::nat) ^ (byteLen t - 1) < 256 ^ k" using byteLen_lower [OF nz] assms(2) by linarith
  then have "byteLen t - 1 < k" by (simp add: power_less_imp_less_exp)
  moreover have "(256::nat) ^ (k - 1) < 256 ^ byteLen t"
    using byteLen_upper [of t] assms(1) by linarith
  then have "k - 1 < byteLen t" by (simp add: power_less_imp_less_exp)
  ultimately show ?thesis using assms(3) by linarith
qed

lemma compact_stable:
  assumes nz: "t \<noteq> 0"
  defines "r \<equiv> t div 256 ^ dropOf t * 256 ^ dropOf t"
  shows "byteLen r = byteLen t" and "mantOf r = mantOf t" and "sizeOf r = sizeOf t"
proof -
  define s where "s = byteLen t"
  have spos: "0 < s" using byteLen_pos [OF nz] by (simp add: s_def)
  have dle: "dropOf t \<le> s - 1" using spos by (auto simp: dropOf_def sizeOf_def s_def)
  have "256 ^ (s - 1) \<le> r"
    unfolding r_def using byteLen_lower [OF nz] dle
    by (intro div_times_keep) (auto simp: s_def intro: le_imp_power_dvd)
  moreover have "r \<le> t" by (simp add: r_def)
  then have "r < 256 ^ s" using byteLen_upper [of t] by (simp add: s_def)
  ultimately show len: "byteLen r = byteLen t"
    using byteLen_unique [of s r] spos by (simp add: s_def)
  have "mantOf r = mantOf t \<and> sizeOf r = sizeOf t"
  proof (cases "dropOf t = 0")
    case True
    then show ?thesis by (simp add: r_def)
  next
    case drop: False
    show ?thesis
    proof (cases "2 ^ 23 \<le> mant0 t")
      case False
      then have d: "dropOf t = s - 3" "3 < s"
        using drop by (auto simp: dropOf_def sizeOf_def s_def)
      then have "mant0 r = mant0 t" using len by (simp add: mant0_def s_def r_def)
      then show ?thesis using len by (simp add: mantOf_def sizeOf_def)
    next
      case True
      then have d: "dropOf t = s - 2" "3 \<le> s"
        using drop by (simp_all add: dropOf_def sizeOf_def s_def)
      then have "s - 2 = Suc (s - 3)" by simp
      then have p: "256 ^ (s - 2) = 256 * (256::nat) ^ (s - 3)" by (simp only: power_Suc)
      have t0: "mant0 t = t div 256 ^ (s - 3)" using d by (auto simp: mant0_def s_def)
      have "mant0 r = r div 256 ^ (s - 3)" using d len by (auto simp: mant0_def s_def)
      moreover have "r = (t div 256 ^ (s - 2) * 256) * 256 ^ (s - 3)"
        by (simp only: r_def d p mult.assoc)
      moreover have "t div 256 ^ (s - 2) = mant0 t div 256"
        by (simp add: t0 p div_mult2_eq [symmetric] mult.commute)
      ultimately have r0: "mant0 r = mant0 t div 256 * 256" by (simp del: div_mult2_eq)
      have "2 ^ 23 \<le> mant0 t div 256 * 256"
        by (rule div_times_keep [OF True]) simp_all
      then show ?thesis using True r0 len by (simp add: mantOf_def sizeOf_def)
    qed
  qed
  then show "mantOf r = mantOf t" and "sizeOf r = sizeOf t" by simp_all
qed

text \<open>the compact form of a proof-of-work target.  For every non-zero target of at most
  254 bytes, expanding the compact form gives a target that is never larger (so the test
  never becomes easier) and differs by less than one part in 32768; expanding and
  compacting again gives the same compact form.\<close>
theorem compact_target_precision:
  assumes "t \<noteq> 0" and "bitLen t \<le> 2032"
  shows "CompactToBig (BigToCompact t) \<le> t
     \<and> 2 ^ 15 * (t - CompactToBig (BigToCompact t)) < t
     \<and> BigToCompact (CompactToBig (BigToCompact t)) = BigToCompact t"
proof -
  have len: "byteLen t \<le> 254" using assms(2) by (simp add: byteLen_def)
  define r where "r = t div 256 ^ dropOf t * 256 ^ dropOf t"
  have r: "CompactToBig (BigToCompact t) = r"
    using CompactToBig_BigToCompact [OF assms(1) len] by (simp add: r_def)
  have le: "r \<le> t" by (simp add: r_def)
  have "t - r = t mod 256 ^ dropOf t" by (simp add: r_def minus_div_mult_eq_mod)
  then have small: "t - r < 256 ^ dropOf t" by simp
  have prec: "2 ^ 15 * (t - r) < t"
  proof (cases "dropOf t = 0")
    case True
    then show ?thesis using assms(1) by (simp add: r_def)
  next
    case False
    have "2 ^ 15 * (t - r) < 2 ^ 15 * 256 ^ dropOf t" using small by simp
    then show ?thesis using dropOf_lower [OF assms(1) False] by linarith
  qed
  note st = compact_stable [OF assms(1), folded r_def]
  have "byteLen 0 = 0" by (simp add: byteLen_def bitLen.simps [of 0])
  then have "r \<noteq> 0" using st(1) byteLen_pos [OF assms(1)] by (intro notI) simp
  then have "unat (BigToCompact r) = unat (BigToCompact t)"
    using BigToCompact_nat [of r] BigToCompact_nat [OF assms(1) len] st len by simp
  then have "BigToCompact r = BigToCompact t" by (simp only: unsigned_word_eqI)
  then show ?thesis using le prec by (simp add: r)
qed

theorem compact_target_precision_witness:
  "CompactToBig (BigToCompact 0xABCDEF01) \<le> 0xABCDEF01
     \<and> 2 ^ 15 * (0xABCDEF01 - CompactToBig (BigToCompact 0xABCDEF01)) < (0xABCDEF01::nat)
     \<and> BigToCompact (CompactToBig (BigToCompact 0xABCDEF01)) = BigToCompact 0xABCDEF01"
  by (rule compact_target_precision) (simp_all add: bitLen.simps)

end
