(* ===== verification/Config.thy ===== *)
theory Config
  imports Crypt
begin

text \<open>
  \<^verbatim>\<open>src/config/\<close>: the settings the program reads, and the pyramid configuration, which is
  computed: the shards, which shard keeps which chain (\<open>ShardDistribution\<close>, a square matrix),
  the connectivity check by depth-first search, and the relay routes between shards found by
  breadth-first search.  Shards are numbered from 0.  A route that is \<open>nil\<close> in Go is the
  empty list; no reader of a route tells the two apart.

  The two searches recurse by fuel.  A depth-first search never goes deeper than there are
  shards not yet visited, and a breadth-first search takes every shard from its queue at most
  once, so the number of shards (plus one) is enough; \<open>dfs_spec\<close> and \<open>bfs_spec\<close> prove it.
\<close>

subsection \<open>Settings\<close>

definition Pbft :: nat where "Pbft = 0"
definition PoW :: nat where "PoW = 1"
definition ClassicRelay :: nat where "ClassicRelay = 1000"
definition Pyramid :: nat where "Pyramid = 1001"
definition UniRelay :: nat where "UniRelay = 1002"

definition IdMod :: nat where "IdMod = 0"
definition PyrMod :: nat where "PyrMod = 1"
definition FideMod :: nat where "FideMod = 2"
definition RelayMod :: nat where "RelayMod = 3"

definition PrefixMsgTypeLen :: nat where "PrefixMsgTypeLen = 40"
definition SleepMin :: int where "SleepMin = 64"
definition SuccessByte :: bytes where "SuccessByte = ''successByte''"
definition FailByte :: bytes where "FailByte = ''failByte''"

record PyramidConfig =
  pyrShardAmount :: nat
  ShardDistribution :: "bool list list"
  shardRoute :: "nat list list list"
  pyrEnable :: bool
  DefaultAddr :: "bytes list"

record FideConfig =
  fideEnable :: bool
  fideShardAmount :: nat
  fideThreshold :: int
  StorageOptimize :: bool

record MonoxideConfig =
  monoShardAmount :: nat
  monoEnable :: bool

definition UpdateShardAmount :: "FideConfig \<Rightarrow> nat \<Rightarrow> FideConfig" where
  "UpdateShardAmount conf num =
     conf\<lparr>fideShardAmount := num, fideThreshold := int num - (int num + 2) div 3 + 1\<rparr>"

definition InitFideConfig :: "nat \<Rightarrow> nat \<Rightarrow> FideConfig" where
  \<comment> \<open>the arguments are \<open>CrossShardConsensus\<close> and \<open>ShardAmount\<close>\<close>
  "InitFideConfig crossShardConsensus shardAmount =
     UpdateShardAmount
       \<lparr>fideEnable = (crossShardConsensus = UniRelay), fideShardAmount = 0, fideThreshold = 0,
        StorageOptimize = True\<rparr> shardAmount"

definition InitMonoxideConfig :: "nat \<Rightarrow> nat \<Rightarrow> MonoxideConfig" where
  "InitMonoxideConfig crossShardConsensus shardAmount =
     \<lparr>monoShardAmount = shardAmount, monoEnable = (crossShardConsensus = ClassicRelay)\<rparr>"

subsection \<open>Connectivity\<close>

definition linked :: "bool list list \<Rightarrow> nat \<Rightarrow> nat \<Rightarrow> bool" where
  "linked sd a b \<longleftrightarrow> sd ! a ! b \<or> sd ! b ! a"

fun dfs :: "nat \<Rightarrow> nat \<Rightarrow> bool list \<Rightarrow> bool list list \<Rightarrow> bool list" where
  "dfs 0 shard visited sd = visited"
| "dfs (Suc fuel) shard visited sd =
     fold (\<lambda>neighbor v. if linked sd shard neighbor \<and> \<not> v ! neighbor then dfs fuel neighbor v sd else v)
       [0..<length (sd ! shard)] (visited[shard := True])"

definition checkConnectivity :: "PyramidConfig \<Rightarrow> nat option" where
  \<comment> \<open>the shard the error names, \<open>None\<close> for no error\<close>
  "checkConnectivity conf =
     (let n = pyrShardAmount conf;
          visited = dfs n 0 (replicate n False) (ShardDistribution conf)
      in find (\<lambda>i. \<not> visited ! i) [0..<length visited])"

subsection \<open>Routes\<close>

fun buildPath :: "nat \<Rightarrow> nat option list \<Rightarrow> nat \<Rightarrow> nat list \<Rightarrow> nat list option" where
  \<comment> \<open>\<open>for at := j; at != -1; at = prev[at]\<close>; no predecessor (-1) is \<open>None\<close>\<close>
  "buildPath 0 prev at path = None"
| "buildPath (Suc fuel) prev at path =
     (case prev ! at of None \<Rightarrow> Some (at # path) | Some u \<Rightarrow> buildPath fuel prev u (at # path))"

function shorten :: "bool list list \<Rightarrow> nat list \<Rightarrow> nat \<Rightarrow> nat list" where
  \<comment> \<open>the loop that cuts out a shard that keeps both its neighbours on the path\<close>
  "shorten sd path idx =
     (if idx + 1 < length path
      then let sid = path ! idx; pre = path ! (idx - 1); nxt = path ! (idx + 1)
           in if sd ! sid ! pre \<and> sd ! sid ! nxt
              then shorten sd (take idx path @ drop (idx + 1) path) (idx + 1)
              else shorten sd path (idx + 1)
      else path)"
  by pat_completeness auto
termination
  by (relation "measure (\<lambda>(sd, path, idx). length path - idx)") auto

declare shorten.simps [simp del]

type_synonym bfsState = "nat list \<times> bool list \<times> nat option list"

definition bfsVisit :: "bool list list \<Rightarrow> nat \<Rightarrow> nat \<Rightarrow> bfsState \<Rightarrow> bfsState" where
  "bfsVisit sd cur neighbor st =
     (case st of (q, vis, prev) \<Rightarrow>
        if linked sd cur neighbor \<and> \<not> vis ! neighbor
        then (q @ [neighbor], vis[neighbor := True], prev[neighbor := Some cur])
        else (q, vis, prev))"

fun bfs :: "PyramidConfig \<Rightarrow> nat \<Rightarrow> nat \<Rightarrow> bfsState \<Rightarrow> nat list option" where
  "bfs conf j 0 st = None"
| "bfs conf j (Suc fuel) (q, vis, prev) =
     (case q of
        [] \<Rightarrow> Some []
      | cur # q' \<Rightarrow>
          if cur = j
          then do { path \<leftarrow> buildPath (Suc (pyrShardAmount conf)) prev j [];
                    Some (shorten (ShardDistribution conf) path 1) }
          else bfs conf j fuel
                 (fold (bfsVisit (ShardDistribution conf) cur) [0..<pyrShardAmount conf] (q', vis, prev)))"

definition findRoute :: "PyramidConfig \<Rightarrow> nat \<Rightarrow> nat \<Rightarrow> nat list option" where
  \<comment> \<open>\<open>None\<close> only when the fuel runs out, which \<open>bfs_spec\<close> excludes\<close>
  "findRoute conf i j =
     (let n = pyrShardAmount conf
      in bfs conf j (Suc n) ([i], (replicate n False)[i := True], replicate n None))"

definition directOrShared :: "PyramidConfig \<Rightarrow> nat \<Rightarrow> nat \<Rightarrow> bool" where
  \<comment> \<open>the flag \<open>linked\<close> of \<open>route\<close>: a direct link or a third shard that keeps both\<close>
  "directOrShared conf i j \<longleftrightarrow>
     linked (ShardDistribution conf) i j \<or>
     (\<exists>k \<in> set [0..<pyrShardAmount conf]. k \<noteq> i \<and> k \<noteq> j \<and>
        ShardDistribution conf ! k ! i \<and> ShardDistribution conf ! k ! j)"

definition routeFor :: "PyramidConfig \<Rightarrow> nat \<Rightarrow> nat \<Rightarrow> nat list" where
  "routeFor conf i j =
     (if i \<noteq> j \<and> \<not> directOrShared conf i j
      then (case findRoute conf i j of Some p \<Rightarrow> p | None \<Rightarrow> []) else [])"

definition route :: "PyramidConfig \<Rightarrow> PyramidConfig" where
  "route conf =
     (let n = pyrShardAmount conf
      in conf\<lparr>shardRoute := map (\<lambda>i. map (routeFor conf i) [0..<n]) [0..<n]\<rparr>)"

definition cell :: "'a list list \<Rightarrow> nat \<Rightarrow> nat \<Rightarrow> 'a option" where
  \<comment> \<open>\<open>m[i][j]\<close>, which panics out of range\<close>
  "cell m i j = (if i < length m \<and> j < length (m ! i) then Some (m ! i ! j) else None)"

fun anyCell :: "bool list list \<Rightarrow> nat \<Rightarrow> nat list \<Rightarrow> bool option" where
  "anyCell sd i [] = Some False"
| "anyCell sd i (p # ps) = do { b \<leftarrow> cell sd i p; if b then Some True else anyCell sd i ps }"

definition InRoute :: "PyramidConfig \<Rightarrow> nat \<Rightarrow> nat \<Rightarrow> nat \<Rightarrow> bool option" where
  "InRoute conf i s r =
     do { rt \<leftarrow> cell (shardRoute conf) s r; anyCell (ShardDistribution conf) i rt }"

definition GetRoute :: "PyramidConfig \<Rightarrow> nat \<Rightarrow> nat \<Rightarrow> nat list option" where
  "GetRoute conf s r = cell (shardRoute conf) s r"

subsection \<open>The shipped configuration\<close>

definition hexDigit :: "nat \<Rightarrow> char" where
  "hexDigit d = (if d < 10 then char_of (48 + d) else char_of (87 + d))"

fun hexPad :: "nat \<Rightarrow> nat \<Rightarrow> bytes" where
  \<comment> \<open>the last \<open>k\<close> hexadecimal digits of \<open>n\<close>; \<open>%016x\<close> for \<open>k = 16\<close> and \<open>n < 16 ^ 16\<close>\<close>
  "hexPad 0 n = []"
| "hexPad (Suc k) n = hexPad k (n div 16) @ [hexDigit (n mod 16)]"

definition hexEncode :: "bytes \<Rightarrow> bytes" where
  \<comment> \<open>\<open>hex.EncodeToString\<close>\<close>
  "hexEncode bs = concat (map (\<lambda>c. hexPad 2 (of_char c)) bs)"

definition PyrShardAmount :: nat where "PyrShardAmount = 6"

definition GenerateShardAddress :: "(bytes \<Rightarrow> bytes) \<Rightarrow> int \<Rightarrow> bytes option" where
  "GenerateShardAddress sha shardID =
     (if shardID < 0 \<or> shardID \<ge> int PyrShardAmount then None
      else let shardPrefix = ''shard-'' @ natDec (nat shardID);
               address = hexEncode (sha shardPrefix);
               last16Addr = hexPad 16 (nat shardID)
           in if length address < 8 then None
              else Some (''0x'' @ take (length address - 8) address @ last16Addr))"

definition initDistribution :: "bool list list" where
  \<comment> \<open>every shard keeps its own chain; shard 3 keeps 0, 1, 2 and shard 4 keeps 1, 2, 5\<close>
  "initDistribution =
     (let dis = map (\<lambda>i. (replicate PyrShardAmount False)[i := True]) [0..<PyrShardAmount];
          dis = dis[3 := (dis ! 3)[0 := True, 1 := True, 2 := True]]
      in dis[4 := (dis ! 4)[1 := True, 2 := True, 5 := True]])"

definition InitShardConfig :: "(bytes \<Rightarrow> bytes) \<Rightarrow> nat \<Rightarrow> PyramidConfig option" where
  "InitShardConfig sha crossShardConsensus =
     (let conf = \<lparr>pyrShardAmount = PyrShardAmount, ShardDistribution = initDistribution,
                  shardRoute = [], pyrEnable = False, DefaultAddr = []\<rparr>
      in case checkConnectivity conf of
           Some err \<Rightarrow> None
         | None \<Rightarrow>
             do { addrs \<leftarrow> mapM (\<lambda>i. GenerateShardAddress sha (int i)) [0..<PyrShardAmount];
                  Some ((route conf)\<lparr>pyrEnable := (crossShardConsensus = Pyramid),
                                     DefaultAddr := addrs\<rparr>) })"

subsection \<open>The searches explore exactly what is reachable\<close>

definition square :: "bool list list \<Rightarrow> nat \<Rightarrow> bool" where
  "square sd n \<longleftrightarrow> length sd = n \<and> (\<forall>row \<in> set sd. length row = n)"

definition links :: "bool list list \<Rightarrow> nat \<Rightarrow> (nat \<times> nat) set" where
  \<comment> \<open>the distribution seen as an undirected graph on the shards below \<open>n\<close>\<close>
  "links sd n = {(a, b). a < n \<and> b < n \<and> linked sd a b}"

definition seen :: "bool list \<Rightarrow> nat set" where
  "seen v = {i. i < length v \<and> v ! i}"

lemma links_iff: "(a, b) \<in> links sd n \<longleftrightarrow> a < n \<and> b < n \<and> linked sd a b"
  by (simp add: links_def)

lemma links_rtrancl_less: "(a, b) \<in> (links sd n)\<^sup>* \<Longrightarrow> a < n \<Longrightarrow> b < n"
  by (induction rule: rtrancl_induct) (auto simp: links_iff)

lemma square_row: "square sd n \<Longrightarrow> i < n \<Longrightarrow> length (sd ! i) = n"
  by (simp add: square_def)

lemma seen_finite [simp]: "finite (seen v)"
  by (simp add: seen_def)

lemma seen_le: "seen v \<subseteq> {..<length v}"
  by (auto simp: seen_def)

lemma seen_update: "i < length v \<Longrightarrow> seen (v[i := True]) = insert i (seen v)"
  by (auto simp: seen_def nth_list_update)

lemma seen_replicate [simp]: "seen (replicate n False) = {}"
  by (auto simp: seen_def)

lemma seen_iff: "i < length v \<Longrightarrow> v ! i \<longleftrightarrow> i \<in> seen v"
  by (simp add: seen_def)

definition explored :: "(nat \<times> nat) set \<Rightarrow> nat \<Rightarrow> nat set \<Rightarrow> nat set \<Rightarrow> nat set \<Rightarrow> bool" where
  \<comment> \<open>from \<open>V\<close> to \<open>V'\<close> only shards reachable from \<open>a\<close> were added, and the added ones other than
     those in \<open>open\<close> have all their neighbours in \<open>V'\<close>\<close>
  "explored E a V V' pend \<longleftrightarrow>
     V \<subseteq> V' \<and> (\<forall>i \<in> V' - V. (a, i) \<in> E\<^sup>*) \<and> (\<forall>i \<in> V' - V - pend. E `` {i} \<subseteq> V')"

lemma explored_visit:
  assumes "explored E a V V' {a}" "(a, b) \<in> E" "explored E b V' V'' {}"
  shows "explored E a V V'' {a}"
  using assms unfolding explored_def
  by (blast intro: converse_rtrancl_into_rtrancl)

lemma dfs_step:
  assumes rec: "\<And>b v. b < n \<Longrightarrow> length v = n \<Longrightarrow> b \<notin> seen v \<Longrightarrow> n - card (seen v) \<le> fuel \<Longrightarrow>
                  length (dfs fuel b v sd) = n \<and> b \<in> seen (dfs fuel b v sd) \<and>
                  explored (links sd n) b (seen v) (seen (dfs fuel b v sd)) {}"
    and "a < n" "length v = n" "n - card (seen v) \<le> fuel" "set ns \<subseteq> {..<n}"
    and "explored (links sd n) a V (seen v) {a}"
  shows "length (fold (\<lambda>b v. if linked sd a b \<and> \<not> v ! b then dfs fuel b v sd else v) ns v) = n \<and>
         seen v \<subseteq> seen (fold (\<lambda>b v. if linked sd a b \<and> \<not> v ! b then dfs fuel b v sd else v) ns v) \<and>
         (\<forall>b \<in> set ns. linked sd a b \<longrightarrow>
            b \<in> seen (fold (\<lambda>b v. if linked sd a b \<and> \<not> v ! b then dfs fuel b v sd else v) ns v)) \<and>
         explored (links sd n) a V
           (seen (fold (\<lambda>b v. if linked sd a b \<and> \<not> v ! b then dfs fuel b v sd else v) ns v)) {a}"
  using assms(3-)
proof (induction ns arbitrary: v)
  case Nil
  then show ?case by simp
next
  case (Cons b ns)
  let ?f = "\<lambda>b v. if linked sd a b \<and> \<not> v ! b then dfs fuel b v sd else v"
  have b: "b < n" using Cons.prems(3) by simp
  have step: "length (?f b v) = n \<and> seen v \<subseteq> seen (?f b v) \<and> (linked sd a b \<longrightarrow> b \<in> seen (?f b v)) \<and>
              explored (links sd n) a V (seen (?f b v)) {a}"
  proof (cases "linked sd a b \<and> \<not> v ! b")
    case True
    then have new: "b \<notin> seen v" by (simp add: seen_def)
    have r: "length (dfs fuel b v sd) = n \<and> b \<in> seen (dfs fuel b v sd) \<and>
             explored (links sd n) b (seen v) (seen (dfs fuel b v sd)) {}"
      by (rule rec[OF b Cons.prems(1) new Cons.prems(2)])
    have "(a, b) \<in> links sd n" using True b \<open>a < n\<close> by (simp add: links_iff)
    then have "explored (links sd n) a V (seen (dfs fuel b v sd)) {a}"
      using explored_visit[OF Cons.prems(4)] r by blast
    moreover have "seen v \<subseteq> seen (dfs fuel b v sd)" using r by (simp add: explored_def)
    ultimately show ?thesis using r True by simp
  next
    case False
    then show ?thesis using Cons.prems(1,4) b by (auto simp: seen_def)
  qed
  have fuel: "n - card (seen (?f b v)) \<le> fuel"
  proof -
    have "card (seen v) \<le> card (seen (?f b v))"
      using step by (intro card_mono) auto
    then show ?thesis using Cons.prems(2) by linarith
  qed
  have ns: "set ns \<subseteq> {..<n}" using Cons.prems(3) by simp
  from Cons.IH[OF _ fuel ns] step show ?case by (simp only: fold_simps list.set) auto
qed

lemma dfs_spec:
  "\<lbrakk>square sd n; a < n; length v = n; a \<notin> seen v; n - card (seen v) \<le> fuel\<rbrakk> \<Longrightarrow>
   length (dfs fuel a v sd) = n \<and> a \<in> seen (dfs fuel a v sd) \<and>
   explored (links sd n) a (seen v) (seen (dfs fuel a v sd)) {}"
proof (induction fuel arbitrary: a v)
  case 0
  have "card (seen v) < card {..<n}"
    using 0 seen_le[of v] by (intro psubset_card_mono) auto
  then show ?case using 0 by simp
next
  case (Suc fuel)
  let ?v = "v[a := True]"
  have sv: "seen ?v = insert a (seen v)" using Suc.prems by (simp add: seen_update)
  have card: "n - card (seen ?v) \<le> fuel" using Suc.prems by (simp add: sv)
  have start: "explored (links sd n) a (seen v) (seen ?v) {a}" by (auto simp: explored_def sv)
  let ?r = "fold (\<lambda>b v. if linked sd a b \<and> \<not> v ! b then dfs fuel b v sd else v) [0..<n] ?v"
  have inner: "length ?r = n \<and> seen ?v \<subseteq> seen ?r \<and> (\<forall>b \<in> set [0..<n]. linked sd a b \<longrightarrow> b \<in> seen ?r) \<and>
               explored (links sd n) a (seen v) (seen ?r) {a}"
    by (rule dfs_step[OF Suc.IH[OF Suc.prems(1)]])
       (use Suc.prems start card in auto)
  then have "(links sd n) `` {a} \<subseteq> seen ?r" by (auto simp: links_iff)
  with inner have "explored (links sd n) a (seen v) (seen ?r) {}" by (auto simp: explored_def)
  with inner sv show ?case by (simp add: square_row[OF Suc.prems(1,2)])
qed

lemma closed_rtrancl:
  "(a, b) \<in> E\<^sup>* \<Longrightarrow> a \<in> V \<Longrightarrow> (\<And>i. i \<in> V \<Longrightarrow> E `` {i} \<subseteq> V) \<Longrightarrow> b \<in> V"
  by (induction rule: rtrancl_induct) auto

lemma dfs_reachable:
  assumes "square sd n" "0 < n"
  shows "seen (dfs n 0 (replicate n False) sd) = {i. (0, i) \<in> (links sd n)\<^sup>*}"
    "length (dfs n 0 (replicate n False) sd) = n"
proof -
  let ?r = "dfs n 0 (replicate n False) sd"
  have r: "length ?r = n \<and> 0 \<in> seen ?r \<and> explored (links sd n) 0 {} (seen ?r) {}"
    using dfs_spec[OF assms(1), of 0 "replicate n False" n] assms by simp
  show "seen ?r = {i. (0, i) \<in> (links sd n)\<^sup>*}"
  proof (intro equalityI subsetI)
    fix i assume "i \<in> {i. (0, i) \<in> (links sd n)\<^sup>*}"
    then have "(0, i) \<in> (links sd n)\<^sup>*" by simp
    then show "i \<in> seen ?r"
      by (rule closed_rtrancl) (use r in \<open>auto simp: explored_def\<close>)
  qed (use r in \<open>auto simp: explored_def\<close>)
  show "length ?r = n" using r by simp
qed

lemma checkConnectivity_iff:
  assumes "square (ShardDistribution conf) (pyrShardAmount conf)" "0 < pyrShardAmount conf"
  shows "checkConnectivity conf = None \<longleftrightarrow>
         (\<forall>i < pyrShardAmount conf. (0, i) \<in> (links (ShardDistribution conf) (pyrShardAmount conf))\<^sup>*)"
proof -
  note r = dfs_reachable[OF assms]
  show ?thesis
    by (simp add: checkConnectivity_def Let_def find_None_iff r(2) seen_iff r(1) Ball_def)
qed

subsection \<open>Routes lead from one shard to the other\<close>

definition hop :: "bool list list \<Rightarrow> nat \<Rightarrow> nat \<Rightarrow> nat \<Rightarrow> bool" where
  \<comment> \<open>a relay transaction can cross: one of the two shards, or a third, keeps both chains\<close>
  "hop sd n a b \<longleftrightarrow> a < n \<and> b < n \<and> (linked sd a b \<or> (\<exists>k < n. sd ! k ! a \<and> sd ! k ! b))"

definition validRoute :: "bool list list \<Rightarrow> nat \<Rightarrow> nat \<Rightarrow> nat \<Rightarrow> nat list \<Rightarrow> bool" where
  "validRoute sd n i j p \<longleftrightarrow>
     p \<noteq> [] \<and> hd p = i \<and> last p = j \<and> set p \<subseteq> {..<n} \<and> successively (hop sd n) p"

lemma successively_cut:
  assumes "successively R (xs @ [a, b, c] @ ys)" "R a c"
  shows "successively R (xs @ [a, c] @ ys)"
  using assms by (induction xs rule: induct_list012) (auto simp: successively_append_iff)

lemma split3:
  assumes "0 < idx" "idx + 1 < length p"
  shows "p = take (idx - 1) p @ [p ! (idx - 1), p ! idx, p ! (idx + 1)] @ drop (idx + 2) p"
    "take idx p @ drop (idx + 1) p = take (idx - 1) p @ [p ! (idx - 1), p ! (idx + 1)] @ drop (idx + 2) p"
proof -
  obtain k where k: "idx = Suc k" using assms(1) by (cases idx) auto
  have d: "drop k p = p ! k # p ! Suc k # p ! Suc (Suc k) # drop (Suc (Suc (Suc k))) p"
    using assms k by (simp add: Cons_nth_drop_Suc)
  have "take k p @ drop k p = p" by simp
  then show "p = take (idx - 1) p @ [p ! (idx - 1), p ! idx, p ! (idx + 1)] @ drop (idx + 2) p"
    using k d by simp
  show "take idx p @ drop (idx + 1) p = take (idx - 1) p @ [p ! (idx - 1), p ! (idx + 1)] @ drop (idx + 2) p"
    using assms k by (simp add: take_Suc_conv_app_nth Cons_nth_drop_Suc)
qed

lemma validRoute_cut_list:
  assumes "validRoute sd n i j (xs @ [a, b, c] @ ys)" "hop sd n a c"
  shows "validRoute sd n i j (xs @ [a, c] @ ys)"
  using assms successively_cut[of "hop sd n" xs a b c ys]
  by (cases xs) (auto simp: validRoute_def)

lemma validRoute_cut:
  assumes "validRoute sd n i j p" "0 < idx" "idx + 1 < length p"
    and "sd ! (p ! idx) ! (p ! (idx - 1))" "sd ! (p ! idx) ! (p ! (idx + 1))"
  shows "validRoute sd n i j (take idx p @ drop (idx + 1) p)"
proof -
  have "p ! (idx - 1) < n" "p ! idx < n" "p ! (idx + 1) < n"
    using assms(1-3) by (auto simp: validRoute_def subset_iff)
  then have hop: "hop sd n (p ! (idx - 1)) (p ! (idx + 1))" using assms(4,5) by (auto simp: hop_def)
  show ?thesis
    unfolding split3(2)[OF assms(2,3)]
    by (rule validRoute_cut_list[OF _ hop, of i j _ "p ! idx"])
       (use assms(1) split3(1)[OF assms(2,3)] in simp)
qed

lemma shorten_valid:
  "validRoute sd n i j p \<Longrightarrow> 0 < idx \<Longrightarrow> validRoute sd n i j (shorten sd p idx)"
proof (induction sd p idx rule: shorten.induct)
  case (1 sd p idx)
  show ?case
  proof (cases "idx + 1 < length p \<and> sd ! (p ! idx) ! (p ! (idx - 1)) \<and> sd ! (p ! idx) ! (p ! (idx + 1))")
    case True
    then have "validRoute sd n i j (take idx p @ drop (idx + 1) p)"
      using 1(3,4) by (intro validRoute_cut) auto
    with True 1(1)[of "p ! idx" "p ! (idx - 1)" "p ! (idx + 1)"] show ?thesis
      by (subst shorten.simps) (simp add: Let_def)
  next
    case False
    then show ?thesis
      using 1(2)[of "p ! idx" "p ! (idx - 1)" "p ! (idx + 1)"] 1(3,4)
      by (subst shorten.simps) (auto simp: Let_def)
  qed
qed

fun backs :: "bool list list \<Rightarrow> nat \<Rightarrow> nat option list \<Rightarrow> nat \<Rightarrow> nat list \<Rightarrow> bool" where
  \<comment> \<open>the predecessors recorded in \<open>prev\<close> lead from the head of the list back to \<open>i\<close>\<close>
  "backs sd n prev i [] = False"
| "backs sd n prev i [b] = (b = i \<and> b < n \<and> prev ! b = None)"
| "backs sd n prev i (b # a # r) =
     (b < n \<and> prev ! b = Some a \<and> linked sd a b \<and> backs sd n prev i (a # r))"

lemma buildPath_backs:
  "backs sd n prev i r \<Longrightarrow> length r \<le> fuel \<Longrightarrow> buildPath fuel prev (hd r) acc = Some (rev r @ acc)"
proof (induction sd n prev i r arbitrary: fuel acc rule: backs.induct)
  case (2 sd n prev i b)
  then show ?case by (cases fuel) auto
next
  case (3 sd n prev i b a r)
  then show ?case by (cases fuel) auto
qed simp

lemma backs_hd_less: "backs sd n prev i r \<Longrightarrow> hd r < n"
  by (cases "(sd, n, prev, i, r)" rule: backs.cases) auto

lemma backs_valid: "backs sd n prev i r \<Longrightarrow> validRoute sd n i (hd r) (rev r)"
proof (induction sd n prev i r rule: backs.induct)
  case (3 sd n prev i b a r)
  then have "validRoute sd n i a (rev (a # r))" by simp
  moreover have "hop sd n a b"
    using 3(2) backs_hd_less[of sd n prev i "a # r"] by (simp add: hop_def)
  ultimately show ?case
    using 3(2) by (auto simp: validRoute_def successively_append_iff hd_append)
qed (auto simp: validRoute_def)

lemma backs_update:
  "backs sd n prev i r \<Longrightarrow> c \<notin> set r \<Longrightarrow> backs sd n (prev[c := x]) i r"
  by (induction sd n prev i r rule: backs.induct) auto

definition searching :: "bool list list \<Rightarrow> nat \<Rightarrow> nat \<Rightarrow> nat set \<Rightarrow> bfsState \<Rightarrow> bool" where
  \<comment> \<open>the invariant of the search from \<open>i\<close>; \<open>P\<close> holds the shards taken from the queue\<close>
  "searching sd n i P st \<longleftrightarrow>
     (case st of (q, vis, prev) \<Rightarrow>
        length vis = n \<and> length prev = n \<and> distinct q \<and> i \<in> seen vis \<and>
        seen vis = P \<union> set q \<and> P \<inter> set q = {} \<and>
        (\<forall>b \<in> seen vis. (i, b) \<in> (links sd n)\<^sup>* \<and>
           (\<exists>r. backs sd n prev i r \<and> hd r = b \<and> distinct r \<and> set r \<subseteq> seen vis)))"

lemma bfsVisit_searching:
  assumes inv: "searching sd n i P (q, vis, prev)" and "c \<in> P" "b < n"
  shows "searching sd n i P (bfsVisit sd c b (q, vis, prev))"
proof (cases "linked sd c b \<and> \<not> vis ! b")
  case True
  have len: "length vis = n" "length prev = n" and seen: "seen vis = P \<union> set q" "P \<inter> set q = {}"
    and dist: "distinct q" and i: "i \<in> seen vis"
    and paths: "\<And>a. a \<in> seen vis \<Longrightarrow> (i, a) \<in> (links sd n)\<^sup>*"
      "\<And>a. a \<in> seen vis \<Longrightarrow> \<exists>r. backs sd n prev i r \<and> hd r = a \<and> distinct r \<and> set r \<subseteq> seen vis"
    using inv by (auto simp: searching_def)
  let ?vis = "vis[b := True]" and ?prev = "prev[b := Some c]"
  have new: "b \<notin> seen vis" using True by (simp add: seen_def)
  have sv: "seen ?vis = insert b (seen vis)" using len \<open>b < n\<close> by (simp add: seen_update)
  have cs: "c \<in> seen vis" using seen \<open>c \<in> P\<close> by simp
  then have "c < n" using seen_le[of vis] len by auto
  then have edge: "(c, b) \<in> links sd n" using True \<open>b < n\<close> by (simp add: links_iff)
  have old: "\<exists>r. backs sd n ?prev i r \<and> hd r = a \<and> distinct r \<and> set r \<subseteq> seen vis"
    if a: "a \<in> seen vis" for a
  proof -
    obtain r where r: "backs sd n prev i r" "hd r = a" "distinct r" "set r \<subseteq> seen vis"
      using paths(2)[OF a] by auto
    then have "b \<notin> set r" using new by auto
    from backs_update[OF r(1) this] r show ?thesis by (intro exI[of _ r]) simp
  qed
  have fresh: "\<exists>r. backs sd n ?prev i r \<and> hd r = b \<and> distinct r \<and> set r \<subseteq> seen ?vis"
  proof -
    obtain r where r: "backs sd n ?prev i r" "hd r = c" "distinct r" "set r \<subseteq> seen vis"
      using old[OF cs] by auto
    then obtain r' where rr: "r = c # r'" by (cases r) auto
    have "backs sd n ?prev i (b # r)"
      using r(1) rr True len \<open>b < n\<close> by simp
    then show ?thesis using r new by (intro exI[of _ "b # r"]) (auto simp: sv)
  qed
  have "(i, b) \<in> (links sd n)\<^sup>*" using paths(1)[OF cs] edge by (rule rtrancl.rtrancl_into_rtrancl)
  moreover have "\<exists>r. backs sd n ?prev i r \<and> hd r = a \<and> distinct r \<and> set r \<subseteq> seen ?vis"
    if "a \<in> seen vis" for a using old[OF that] by (auto simp: sv)
  ultimately show ?thesis
    using True len seen dist i new paths(1) fresh
    by (auto simp: bfsVisit_def searching_def sv)
next
  case False
  then show ?thesis using inv by (auto simp: bfsVisit_def)
qed

lemma bfsVisit_fold:
  assumes "set ns \<subseteq> {..<n}" "c \<in> P" "searching sd n i P st"
  shows "searching sd n i P (fold (bfsVisit sd c) ns st) \<and>
         seen (fst (snd st)) \<subseteq> seen (fst (snd (fold (bfsVisit sd c) ns st))) \<and>
         (\<forall>b \<in> set ns. linked sd c b \<longrightarrow> b \<in> seen (fst (snd (fold (bfsVisit sd c) ns st))))"
  using assms
proof (induction ns arbitrary: st)
  case (Cons b ns)
  obtain q vis prev where st: "st = (q, vis, prev)" by (cases st)
  have b: "b < n" and len: "length vis = n"
    using Cons.prems by (auto simp: st searching_def)
  have s: "searching sd n i P (bfsVisit sd c b st)"
    using bfsVisit_searching[of sd n i P q vis prev c b] Cons.prems by (simp add: st)
  have m: "seen vis \<subseteq> seen (fst (snd (bfsVisit sd c b st)))"
    using b len by (auto simp: st bfsVisit_def seen_update)
  have v: "linked sd c b \<longrightarrow> b \<in> seen (fst (snd (bfsVisit sd c b st)))"
    using b len by (auto simp: st bfsVisit_def seen_update seen_def)
  from Cons.IH[OF _ Cons.prems(2) s] Cons.prems(1) m v show ?case
    by (auto simp: st)
qed simp

lemma atLeastLessThan_subset: "set [0..<n] \<subseteq> {..<n}"
  by auto

lemma searching_pop:
  "searching sd n i P (c # q, vis, prev) \<Longrightarrow> searching sd n i (insert c P) (q, vis, prev)"
  unfolding searching_def prod.case list.set distinct.simps
  by (elim conjE, intro conjI; (assumption | blast))

lemma bfs_spec:
  assumes "sd = ShardDistribution conf" "n = pyrShardAmount conf" "j < n"
    and "searching sd n i P (q, vis, prev)" "\<forall>a \<in> P. links sd n `` {a} \<subseteq> seen vis" "j \<notin> P"
    and "Suc n - card P \<le> fuel"
  shows "\<exists>p. bfs conf j fuel (q, vis, prev) = Some p \<and>
             (if (i, j) \<in> (links sd n)\<^sup>* then validRoute sd n i j p else p = [])"
  using assms(4-)
proof (induction fuel arbitrary: P q vis prev)
  case 0
  then have "P \<subseteq> {..<n}" using seen_le[of vis] by (auto simp: searching_def)
  from card_mono[OF _ this] 0(4) show ?case by simp
next
  case (Suc fuel)
  note inv = Suc.prems(1)[unfolded searching_def, simplified]
  have fin: "finite P" using inv by (metis finite_Un seen_finite)
  have paths: "\<And>b. b \<in> seen vis \<Longrightarrow> (i, b) \<in> (links sd n)\<^sup>* \<and>
      (\<exists>r. backs sd n prev i r \<and> hd r = b \<and> distinct r \<and> set r \<subseteq> seen vis)"
    using inv by (simp only: simp_thms) blast
  show ?case
  proof (cases q)
    case Nil
    then have s: "seen vis = P" and i: "i \<in> P" using inv by auto
    have "(i, j) \<notin> (links sd n)\<^sup>*"
      using closed_rtrancl[of i j "links sd n" P] Suc.prems(2,3) s i by blast
    then show ?thesis by (simp add: Nil)
  next
    case (Cons c q')
    then have c: "c \<in> seen vis" "c \<notin> P" using inv by auto
    show ?thesis
    proof (cases "c = j")
      case True
      then obtain r where r: "backs sd n prev i r" "hd r = j" "distinct r" "set r \<subseteq> seen vis"
        using paths[OF c(1)] by auto
      have "set r \<subseteq> {..<n}" using r(4) seen_le[of vis] inv by auto
      from card_mono[OF _ this] have "length r \<le> Suc n"
        using r(3) by (simp add: distinct_card)
      from buildPath_backs[OF r(1) this] have
        "bfs conf j (Suc fuel) (q, vis, prev) = Some (shorten sd (rev r) 1)"
        using Cons True r(2) assms(1,2) by simp
      moreover have "validRoute sd n i j (shorten sd (rev r) 1)"
        using shorten_valid[OF backs_valid[OF r(1)], of 1] r(2) by simp
      moreover have "(i, j) \<in> (links sd n)\<^sup>*" using paths[OF c(1)] True by simp
      ultimately show ?thesis by simp
    next
      case False
      let ?P = "insert c P"
      let ?st = "fold (bfsVisit sd c) [0..<n] (q', vis, prev)"
      obtain q2 vis2 prev2 where st: "?st = (q2, vis2, prev2)" by (cases ?st)
      have "searching sd n i ?P (q', vis, prev)"
        using Suc.prems(1) searching_pop by (simp only: Cons)
      from bfsVisit_fold[OF _ _ this, of "[0..<n]" c, OF atLeastLessThan_subset]
      have v: "searching sd n i ?P (q2, vis2, prev2)" "seen vis \<subseteq> seen vis2"
        "\<forall>b < n. linked sd c b \<longrightarrow> b \<in> seen vis2"
        by (auto simp: st)
      have closed: "\<forall>a \<in> ?P. links sd n `` {a} \<subseteq> seen vis2"
        using v(2,3) Suc.prems(2) by (auto simp: links_iff)
      have "Suc n - card ?P \<le> fuel" using Suc.prems(4) c(2) fin by simp
      from Suc.IH[OF v(1) closed _ this] show ?thesis
        using False Suc.prems(3) Cons st assms(1,2) by simp
    qed
  qed
qed

lemma findRoute_spec:
  assumes "i < pyrShardAmount conf" "j < pyrShardAmount conf"
  shows "\<exists>p. findRoute conf i j = Some p \<and>
             (if (i, j) \<in> (links (ShardDistribution conf) (pyrShardAmount conf))\<^sup>*
              then validRoute (ShardDistribution conf) (pyrShardAmount conf) i j p else p = [])"
proof -
  let ?n = "pyrShardAmount conf" and ?sd = "ShardDistribution conf"
  have "searching ?sd ?n i {} ([i], (replicate ?n False)[i := True], replicate ?n None)"
    using assms by (auto simp: searching_def seen_update intro!: exI[of _ "[i]"])
  from bfs_spec[OF refl refl assms(2) this, of "Suc ?n"] show ?thesis
    by (simp add: findRoute_def Let_def)
qed

lemma links_rtrancl_sym:
  "(a, b) \<in> (links sd n)\<^sup>* \<Longrightarrow> (b, a) \<in> (links sd n)\<^sup>*"
proof (induction rule: rtrancl_induct)
  case (step b c)
  then have "(c, b) \<in> links sd n" by (auto simp: links_iff linked_def)
  from this step.IH show ?case by (rule converse_rtrancl_into_rtrancl)
qed simp

text \<open>C37: in a configuration that passes the connectivity check, \<open>route\<close> leaves no pair of shards
  without a way to relay: two different shards either keep one another's chain, or share a keeper,
  or \<open>GetRoute\<close> gives a path from the first to the second each of whose hops is of that kind.\<close>
theorem route_covers_all_pairs:
  assumes "square (ShardDistribution conf) (pyrShardAmount conf)" "checkConnectivity conf = None"
    and "i < pyrShardAmount conf" "j < pyrShardAmount conf" "i \<noteq> j"
  shows "\<exists>p. GetRoute (route conf) i j = Some p \<and>
             (if directOrShared conf i j then p = []
              else validRoute (ShardDistribution conf) (pyrShardAmount conf) i j p)"
proof -
  let ?n = "pyrShardAmount conf" and ?sd = "ShardDistribution conf"
  have all: "\<forall>i < ?n. (0, i) \<in> (links ?sd ?n)\<^sup>*"
    by (rule checkConnectivity_iff[THEN iffD1]) (use assms in auto)
  have "(i, 0) \<in> (links ?sd ?n)\<^sup>*"
    by (rule links_rtrancl_sym) (use all assms(3) in blast)
  moreover have "(0, j) \<in> (links ?sd ?n)\<^sup>*" using all assms(4) by blast
  ultimately have "(i, j) \<in> (links ?sd ?n)\<^sup>*" by (rule rtrancl_trans)
  then obtain p where "findRoute conf i j = Some p" "validRoute ?sd ?n i j p"
    using findRoute_spec[OF assms(3,4)] by auto
  then show ?thesis
    using assms(3-5) by (simp add: GetRoute_def route_def cell_def Let_def routeFor_def)
qed

definition shipped :: PyramidConfig where
  \<comment> \<open>the configuration of \<open>InitShardConfig\<close> before its routes are computed\<close>
  "shipped = \<lparr>pyrShardAmount = PyrShardAmount, ShardDistribution = initDistribution,
              shardRoute = [], pyrEnable = False, DefaultAddr = []\<rparr>"

lemma shipped_square: "square (ShardDistribution shipped) (pyrShardAmount shipped)"
  by (simp add: shipped_def square_def initDistribution_def PyrShardAmount_def Let_def upt_rec)

lemma shipped_connected: "checkConnectivity shipped = None"
  by code_simp

lemma shipped_0_5: "\<not> directOrShared shipped 0 5"
  by code_simp

theorem route_covers_all_pairs_witness:
  "\<exists>p. GetRoute (route shipped) 0 5 = Some p \<and> validRoute initDistribution 6 0 5 p"
  using route_covers_all_pairs[OF shipped_square shipped_connected, of 0 5] shipped_0_5
  by (simp add: shipped_def PyrShardAmount_def)

lemma shipped_routes:
  "shardRoute (route shipped) =
     [[[], [], [], [], [0, 1, 4], [0, 1, 5]], [[], [], [], [], [], []], [[], [], [], [], [], []],
      [[], [], [], [], [3, 1, 4], [3, 1, 5]], [[4, 1, 0], [], [], [4, 1, 3], [], []],
      [[5, 1, 0], [], [], [5, 1, 3], [], []]]"
  by code_simp

subsection \<open>The configuration the program runs with\<close>

record Conf =
  \<comment> \<open>the package variables of \<open>config\<close> that the other packages read\<close>
  ShardAmount :: nat
  MaxBlockSize :: nat
  txTest :: bool
  pyrConf :: PyramidConfig
  fideConf :: FideConfig
  monoConf :: MonoxideConfig

definition mkConf :: "(bytes \<Rightarrow> bytes) \<Rightarrow> nat \<Rightarrow> nat \<Rightarrow> nat \<Rightarrow> Conf option" where
  \<comment> \<open>the initialisation of the package for a value of \<open>CrossShardConsensus\<close>, \<open>ShardAmount\<close>
     and \<open>MaxBlockSize\<close>\<close>
  "mkConf sha crossShardConsensus amount maxBlock =
     do { pyr \<leftarrow> InitShardConfig sha crossShardConsensus;
          Some \<lparr>ShardAmount = amount, MaxBlockSize = maxBlock, txTest = True, pyrConf = pyr,
                fideConf = InitFideConfig crossShardConsensus amount,
                monoConf = InitMonoxideConfig crossShardConsensus amount\<rparr> }"

end
