(* ===== verification/Proposals.thy ===== *)
theory Proposals
  imports Prelude
begin

text \<open>
  \<^verbatim>\<open>src/Proposals/\<close>: the buffer of proposals, a binary min-heap kept in a slice.  Slot 0 of
  the slice holds \<open>nil\<close> and is never read; the root is slot 1.  The key of a proposal is the
  priority registered for its request type (0 when none is registered, as for any missing
  key of a Go map), smaller keys are more urgent, and \<open>Pop\<close> answers \<open>nil\<close> when the most
  urgent proposal is above the threshold.  Reading a slot outside the slice or a \<open>nil\<close> slot
  panics: \<open>get\<close> answers \<open>None\<close>, which every caller passes on.
\<close>

definition LowestPriority :: int where "LowestPriority = 1024"
definition NormalPriority :: int where "NormalPriority = 128"
definition Now :: int where "Now = 64"
definition CrossPriority :: int where "CrossPriority = 32"
definition CrossCommitPriority :: int where "CrossCommitPriority = CrossPriority - 1"

record Proposal =
  ReqType :: bytes
  Vars :: "bytes list"

record ProposalBuffer =
  pros :: "Proposal option list"
  priority :: "(bytes, int) gomap"
  priorThreshold :: int

definition NewProposalBuffer :: ProposalBuffer where
  "NewProposalBuffer = \<lparr>pros = [] @ [None], priority = [], priorThreshold = LowestPriority\<rparr>"

definition SetPriority :: "ProposalBuffer \<Rightarrow> bytes \<Rightarrow> int \<Rightarrow> ProposalBuffer" where
  "SetPriority pq reqType pri = pq\<lparr>priority := mput reqType pri (priority pq)\<rparr>"

definition SetThreshold :: "ProposalBuffer \<Rightarrow> int \<Rightarrow> ProposalBuffer" where
  "SetThreshold pq threshold = pq\<lparr>priorThreshold := threshold\<rparr>"

definition GetThreshold :: "ProposalBuffer \<Rightarrow> int" where
  "GetThreshold pq = priorThreshold pq"

definition proGet :: "ProposalBuffer \<Rightarrow> nat \<Rightarrow> Proposal option" where
  "proGet pq index = (if index < length (pros pq) then pros pq ! index else None)"

definition proLen :: "ProposalBuffer \<Rightarrow> nat" where
  "proLen pq = length (pros pq)"

definition Amount :: "ProposalBuffer \<Rightarrow> int" where
  "Amount pq = int (length (pros pq)) - 1"

definition prioOf :: "ProposalBuffer \<Rightarrow> Proposal \<Rightarrow> int" where
  \<comment> \<open>\<open>pq.priority[p.ReqType]\<close>\<close>
  "prioOf pq p = (case mget (priority pq) (ReqType p) of Some v \<Rightarrow> v | None \<Rightarrow> 0)"

definition proLess :: "ProposalBuffer \<Rightarrow> nat \<Rightarrow> nat \<Rightarrow> bool option" where
  "proLess pq i j =
     do { pi \<leftarrow> proGet pq i; pj \<leftarrow> proGet pq j; Some (prioOf pq pi < prioOf pq pj) }"

definition proSwap :: "ProposalBuffer \<Rightarrow> nat \<Rightarrow> nat \<Rightarrow> ProposalBuffer" where
  "proSwap pq i j = pq\<lparr>pros := (pros pq)[i := pros pq ! j, j := pros pq ! i]\<rparr>"

lemma proLess_irrefl: "proLess pq i i = Some b \<Longrightarrow> \<not> b"
  by (auto simp: proLess_def bind_eq_Some_conv)

lemma proLess_Some_lt: "proLess pq i j = Some b \<Longrightarrow> i < proLen pq \<and> j < proLen pq"
  by (auto simp: proLess_def proGet_def proLen_def bind_eq_Some_conv split: if_splits)

lemma proLen_proSwap [simp]: "proLen (proSwap pq i j) = proLen pq"
  by (simp add: proSwap_def proLen_def)

function siftUp :: "ProposalBuffer \<Rightarrow> nat \<Rightarrow> ProposalBuffer option" where
  \<comment> \<open>the loop of \<open>Push\<close>\<close>
  "siftUp pq currIndex =
     (if currIndex = 1 then Some pq
      else let father = currIndex div 2
           in do { b \<leftarrow> proLess pq currIndex father;
                   if b then siftUp (proSwap pq currIndex father) father else Some pq })"
  by pat_completeness auto
termination
proof (relation "measure snd")
  fix pq i father b
  assume "(i::nat) \<noteq> 1" "father = i div 2" "proLess pq i father = Some b" "b"
  then show "((proSwap pq i father, father), pq, i) \<in> measure snd"
    using proLess_irrefl [of pq 0 b] by (cases "i = 0") auto
qed simp

definition Push :: "ProposalBuffer \<Rightarrow> Proposal \<Rightarrow> ProposalBuffer option" where
  "Push pq x =
     (let pq1 = pq\<lparr>pros := pros pq @ [Some x]\<rparr>
      in siftUp pq1 (proLen pq1 - 1))"

definition smallChild :: "ProposalBuffer \<Rightarrow> nat \<Rightarrow> nat option option" where
  \<comment> \<open>the child of a slot that \<open>Pop\<close> compares; \<open>Some None\<close> where the loop breaks\<close>
  "smallChild pq index =
     (let l = index * 2; r = index * 2 + 1
      in if r \<ge> proLen pq then (if l \<ge> proLen pq then Some None else Some (Some l))
         else do { b \<leftarrow> proLess pq r l; Some (Some (if b then r else l)) })"

lemma smallChild_ge: "smallChild pq i = Some (Some t) \<Longrightarrow> t = 2 * i \<or> t = 2 * i + 1 \<and> t < proLen pq"
  by (auto simp: smallChild_def Let_def bind_eq_Some_conv split: if_splits)

function siftDown :: "ProposalBuffer \<Rightarrow> nat \<Rightarrow> ProposalBuffer option" where
  \<comment> \<open>the loop of \<open>Pop\<close>\<close>
  "siftDown pq index =
     do { c \<leftarrow> smallChild pq index;
          case c of None \<Rightarrow> Some pq
          | Some temp \<Rightarrow>
              do { b \<leftarrow> proLess pq temp index;
                   if b then siftDown (proSwap pq temp index) temp else Some pq } }"
  by pat_completeness auto
termination
proof (relation "measure (\<lambda>(pq, i). proLen pq - i)")
  fix pq i c temp b
  assume a: "smallChild pq i = Some c" "c = Some temp" "proLess pq temp i = Some b" "b"
  then have "temp \<noteq> i" using proLess_irrefl by blast
  moreover have "temp < proLen pq" using a(3) proLess_Some_lt by blast
  ultimately show "((proSwap pq temp i, temp), pq, i) \<in> measure (\<lambda>(pq, i). proLen pq - i)"
    using a smallChild_ge [of pq i temp] by auto
qed simp

definition Pop :: "ProposalBuffer \<Rightarrow> (Proposal option \<times> ProposalBuffer) option" where
  \<comment> \<open>the proposal returned (\<open>None\<close> for \<open>nil\<close>) and the buffer after it\<close>
  "Pop pq =
     (if length (pros pq) = 1 then Some (None, pq)
      else do { ret \<leftarrow> proGet pq 1;
                if prioOf pq ret > priorThreshold pq then Some (None, pq)
                else do { root \<leftarrow> proGet pq (proLen pq - 1);
                          let pq1 = pq\<lparr>pros := butlast ((pros pq)[1 := Some root])\<rparr>;
                          pq2 \<leftarrow> siftDown pq1 1;
                          Some (Some ret, pq2) } })"

declare siftUp.simps [simp del] siftDown.simps [simp del]

subsection \<open>The heap invariant\<close>

definition keyAt :: "ProposalBuffer \<Rightarrow> nat \<Rightarrow> int" where
  "keyAt pq i = prioOf pq (the (pros pq ! i))"

definition bufWf :: "ProposalBuffer \<Rightarrow> bool" where
  "bufWf pq \<longleftrightarrow> 0 < proLen pq \<and> (\<forall>i < proLen pq. (pros pq ! i = None) = (i = 0))"

definition heapInv :: "ProposalBuffer \<Rightarrow> bool" where
  "heapInv pq \<longleftrightarrow> bufWf pq \<and> (\<forall>i. 2 \<le> i \<longrightarrow> i < proLen pq \<longrightarrow> keyAt pq (i div 2) \<le> keyAt pq i)"

definition contents :: "ProposalBuffer \<Rightarrow> Proposal multiset" where
  "contents pq = image_mset the (mset (pros pq) - {#None#})"

definition sameSettings :: "ProposalBuffer \<Rightarrow> ProposalBuffer \<Rightarrow> bool" where
  "sameSettings pq pq' \<longleftrightarrow> priority pq' = priority pq \<and> priorThreshold pq' = priorThreshold pq"

text \<open>While \<open>Push\<close> moves a slot up, only that slot may be smaller than its parent, and its
  children are not below its parent; while \<open>Pop\<close> moves a slot down, only that slot may be
  larger than its children.\<close>

definition upInv :: "ProposalBuffer \<Rightarrow> nat \<Rightarrow> bool" where
  "upInv pq c \<longleftrightarrow> bufWf pq \<and> 1 \<le> c \<and> c < proLen pq
     \<and> (\<forall>i. 2 \<le> i \<longrightarrow> i < proLen pq \<longrightarrow> i \<noteq> c \<longrightarrow> keyAt pq (i div 2) \<le> keyAt pq i)
     \<and> (\<forall>j < proLen pq. 2 \<le> c \<longrightarrow> j div 2 = c \<longrightarrow> keyAt pq (c div 2) \<le> keyAt pq j)"

definition downInv :: "ProposalBuffer \<Rightarrow> nat \<Rightarrow> bool" where
  "downInv pq c \<longleftrightarrow> bufWf pq \<and> 1 \<le> c
     \<and> (\<forall>i. 2 \<le> i \<longrightarrow> i < proLen pq \<longrightarrow> i div 2 \<noteq> c \<longrightarrow> keyAt pq (i div 2) \<le> keyAt pq i)
     \<and> (\<forall>j < proLen pq. 2 \<le> c \<longrightarrow> j div 2 = c \<longrightarrow> keyAt pq (c div 2) \<le> keyAt pq j)"

lemma bufWf_proGet:
  "bufWf pq \<Longrightarrow> 0 < i \<Longrightarrow> i < proLen pq \<Longrightarrow> proGet pq i = Some (the (pros pq ! i))"
  by (auto simp: bufWf_def proGet_def proLen_def)

lemma bufWf_proLess:
  "bufWf pq \<Longrightarrow> 0 < i \<Longrightarrow> i < proLen pq \<Longrightarrow> 0 < j \<Longrightarrow> j < proLen pq \<Longrightarrow>
   proLess pq i j = Some (keyAt pq i < keyAt pq j)"
  by (simp add: proLess_def bufWf_proGet keyAt_def)

lemma sameSettings_refl [simp]: "sameSettings pq pq"
  by (simp add: sameSettings_def)

lemma sameSettings_trans: "sameSettings a b \<Longrightarrow> sameSettings b c \<Longrightarrow> sameSettings a c"
  by (simp add: sameSettings_def)

lemma sameSettings_swap [simp]: "sameSettings pq (proSwap pq i j)"
  by (simp add: sameSettings_def proSwap_def)

lemma sameSettings_prioOf: "sameSettings a b \<Longrightarrow> prioOf b = prioOf a"
  by (simp add: sameSettings_def prioOf_def fun_eq_iff)

lemma keyAt_swap:
  "i < proLen pq \<Longrightarrow> j < proLen pq \<Longrightarrow>
   keyAt (proSwap pq i j) k = (if k = i then keyAt pq j else if k = j then keyAt pq i else keyAt pq k)"
  by (auto simp: keyAt_def proSwap_def prioOf_def proLen_def nth_list_update)

lemma mset_swap_pros:
  "i < proLen pq \<Longrightarrow> j < proLen pq \<Longrightarrow> mset (pros (proSwap pq i j)) = mset (pros pq)"
  by (simp add: proSwap_def proLen_def mset_swap)

lemma bufWf_swap:
  "bufWf pq \<Longrightarrow> 0 < i \<Longrightarrow> 0 < j \<Longrightarrow> i < proLen pq \<Longrightarrow> j < proLen pq \<Longrightarrow> bufWf (proSwap pq i j)"
  by (auto simp: bufWf_def proSwap_def proLen_def nth_list_update)

lemma contents_swap:
  "i < proLen pq \<Longrightarrow> j < proLen pq \<Longrightarrow> contents (proSwap pq i j) = contents pq"
  by (simp add: contents_def mset_swap_pros)

subsection \<open>Moving up\<close>

lemma upInv_swap:
  assumes up: "upInv pq c" and ne: "c \<noteq> 1" and lt: "keyAt pq c < keyAt pq (c div 2)"
  shows "upInv (proSwap pq c (c div 2)) (c div 2)"
proof -
  let ?f = "c div 2" and ?pq = "proSwap pq c (c div 2)"
  have c: "2 \<le> c" "c < proLen pq" "bufWf pq" using up ne by (auto simp: upInv_def)
  then have f: "1 \<le> ?f" "?f < c" "?f < proLen pq" by auto
  have key: "keyAt ?pq k = (if k = c then keyAt pq ?f else if k = ?f then keyAt pq c else keyAt pq k)" for k
    using c f by (simp add: keyAt_swap)
  have heap: "keyAt pq (i div 2) \<le> keyAt pq i" if "2 \<le> i" "i < proLen pq" "i \<noteq> c" for i
    using up that by (auto simp: upInv_def)
  have below: "keyAt pq ?f \<le> keyAt pq j" if "j < proLen pq" "j div 2 = c" for j
    using up that c by (auto simp: upInv_def)
  have "keyAt ?pq (i div 2) \<le> keyAt ?pq i" if i: "2 \<le> i" "i < proLen ?pq" "i \<noteq> ?f" for i
  proof -
    have lt': "i div 2 < i" using i by simp
    consider "i = c" | "i \<noteq> c" "i div 2 = c" | "i \<noteq> c" "i div 2 = ?f" | "i \<noteq> c" "i div 2 \<noteq> c" "i div 2 \<noteq> ?f"
      by blast
    then show ?thesis
    proof cases
      case 1 then show ?thesis using lt f by (simp add: key)
    next
      case 2 then show ?thesis using below [of i] i f by (simp add: key)
    next
      case 3 then show ?thesis using heap [of i] i lt f by (simp add: key)
    next
      case 4 then show ?thesis using heap [of i] i by (simp add: key)
    qed
  qed
  moreover have "keyAt ?pq (?f div 2) \<le> keyAt ?pq j"
    if j: "j < proLen ?pq" "2 \<le> ?f" "j div 2 = ?f" for j
  proof -
    have up2: "keyAt pq (?f div 2) \<le> keyAt pq ?f" using heap [of ?f] j f by simp
    have ff: "?f div 2 \<noteq> c" "?f div 2 \<noteq> ?f" using j f by auto
    show ?thesis
    proof (cases "j = c")
      case True then show ?thesis using up2 ff by (simp add: key)
    next
      case False
      then have "j \<noteq> ?f" "keyAt pq ?f \<le> keyAt pq j" using j heap [of j] by auto
      then show ?thesis using up2 ff False by (simp add: key)
    qed
  qed
  ultimately show ?thesis
    using f c bufWf_swap [of pq c ?f] by (simp add: upInv_def)
qed

lemma siftUp_correct:
  "upInv pq c \<Longrightarrow> \<exists>pq'. siftUp pq c = Some pq' \<and> heapInv pq' \<and> contents pq' = contents pq
     \<and> sameSettings pq pq' \<and> proLen pq' = proLen pq"
proof (induction pq c rule: siftUp.induct)
  case (1 pq c)
  let ?f = "c div 2"
  have c: "1 \<le> c" "c < proLen pq" "bufWf pq" using "1.prems" by (auto simp: upInv_def)
  show ?case
  proof (cases "c = 1")
    case True
    then have "heapInv pq" using "1.prems" by (auto simp: upInv_def heapInv_def)
    with True show ?thesis by (auto simp: siftUp.simps [of pq])
  next
    case False
    then have f: "0 < ?f" "?f < proLen pq" using c by auto
    have less: "proLess pq c ?f = Some (keyAt pq c < keyAt pq ?f)"
      using c f by (simp add: bufWf_proLess)
    show ?thesis
    proof (cases "keyAt pq c < keyAt pq ?f")
      case True
      have "\<exists>pq'. siftUp (proSwap pq c ?f) ?f = Some pq' \<and> heapInv pq'
          \<and> contents pq' = contents (proSwap pq c ?f) \<and> sameSettings (proSwap pq c ?f) pq'
          \<and> proLen pq' = proLen (proSwap pq c ?f)"
        by (rule "1.IH" [OF False refl less True upInv_swap [OF "1.prems" False True]])
      then show ?thesis
        using True False less c f sameSettings_trans [OF sameSettings_swap]
        by (auto simp: siftUp.simps [of pq c] contents_swap)
    next
      case ge: False
      have "heapInv pq"
        using "1.prems" ge by (auto simp: upInv_def heapInv_def not_less)
      then show ?thesis using False less ge by (auto simp: siftUp.simps [of pq c])
    qed
  qed
qed

subsection \<open>Moving down\<close>

lemma smallChild_cases:
  assumes wf: "bufWf pq" and c: "1 \<le> c"
  obtains "proLen pq \<le> 2 * c" "smallChild pq c = Some None"
  | t where "smallChild pq c = Some (Some t)" "t div 2 = c" "t < proLen pq" "2 \<le> t"
      "\<And>j. j < proLen pq \<Longrightarrow> j div 2 = c \<Longrightarrow> keyAt pq t \<le> keyAt pq j"
proof (cases "proLen pq \<le> c * 2 + 1")
  case True
  show ?thesis
  proof (cases "proLen pq \<le> c * 2")
    case le: True
    then show ?thesis using True that(1) by (simp add: smallChild_def mult.commute)
  next
    case False
    have only: "j = c * 2" if "j < proLen pq" "j div 2 = c" for j
    proof -
      have "j < c * 2 + 1" using True that(1) by (rule less_le_trans [rotated])
      with that(2) show ?thesis by presburger
    qed
    show ?thesis
    proof (rule that(2) [of "c * 2"])
      show "smallChild pq c = Some (Some (c * 2))" using True False by (simp add: smallChild_def)
      show "c * 2 div 2 = c" "c * 2 < proLen pq" "2 \<le> c * 2" using False c by simp_all
      show "keyAt pq (c * 2) \<le> keyAt pq j" if "j < proLen pq" "j div 2 = c" for j
        using only [OF that] by simp
    qed
  qed
next
  case False
  let ?l = "c * 2" and ?r = "c * 2 + 1"
  let ?t = "if keyAt pq ?r < keyAt pq ?l then ?r else ?l"
  have "proLess pq ?r ?l = Some (keyAt pq ?r < keyAt pq ?l)"
    using wf c False by (intro bufWf_proLess) auto
  then have small: "smallChild pq c = Some (Some ?t)" using False by (simp add: smallChild_def)
  have least: "keyAt pq ?t \<le> keyAt pq j" if "j div 2 = c" for j
  proof -
    have "j = ?l \<or> j = ?r" using that by presburger
    then show ?thesis by (elim disjE) simp_all
  qed
  show ?thesis
  proof (rule that(2) [OF small])
    show "?t div 2 = c" "?t < proLen pq" "2 \<le> ?t" using False c by simp_all
  qed (rule least)
qed

lemma downInv_swap:
  assumes down: "downInv pq c" and t: "t div 2 = c" "t < proLen pq" "2 \<le> t"
    and least: "\<And>j. j < proLen pq \<Longrightarrow> j div 2 = c \<Longrightarrow> keyAt pq t \<le> keyAt pq j"
    and lt: "keyAt pq t < keyAt pq c"
  shows "downInv (proSwap pq t c) t"
proof -
  let ?pq = "proSwap pq t c"
  have c: "1 \<le> c" "c < t" "c < proLen pq" "bufWf pq" using down t by (auto simp: downInv_def)
  have key: "keyAt ?pq k = (if k = t then keyAt pq c else if k = c then keyAt pq t else keyAt pq k)" for k
    using c t by (simp add: keyAt_swap)
  have heap: "keyAt pq (i div 2) \<le> keyAt pq i" if "2 \<le> i" "i < proLen pq" "i div 2 \<noteq> c" for i
    using down that by (auto simp: downInv_def)
  have above: "keyAt pq (c div 2) \<le> keyAt pq j" if "j < proLen pq" "2 \<le> c" "j div 2 = c" for j
    using down that by (auto simp: downInv_def)
  have "keyAt ?pq (i div 2) \<le> keyAt ?pq i" if i: "2 \<le> i" "i < proLen ?pq" "i div 2 \<noteq> t" for i
  proof -
    have lt': "i div 2 < i" using i by simp
    consider "i div 2 = c" "i = t" | "i div 2 = c" "i \<noteq> t" | "i = c" "i div 2 \<noteq> c"
      | "i \<noteq> c" "i div 2 \<noteq> c" "i \<noteq> t"
      using t by blast
    then show ?thesis
    proof cases
      case 1 then show ?thesis using lt c by (simp add: key)
    next
      case 2 then show ?thesis using least [of i] i c lt' by (simp add: key)
    next
      case 3 then show ?thesis using above [of t] i t c by (simp add: key)
    next
      case 4 then show ?thesis using heap [of i] i by (simp add: key)
    qed
  qed
  moreover have "keyAt ?pq (t div 2) \<le> keyAt ?pq j" if j: "j < proLen ?pq" "j div 2 = t" for j
  proof -
    have "2 \<le> j" "j \<noteq> t" "j \<noteq> c" "j div 2 \<noteq> c" using j t c by auto
    then show ?thesis using heap [of j] j t c by (simp add: key)
  qed
  ultimately show ?thesis
    using t c bufWf_swap [of pq t c] by (simp add: downInv_def)
qed

lemma siftDown_correct:
  "downInv pq c \<Longrightarrow> \<exists>pq'. siftDown pq c = Some pq' \<and> heapInv pq' \<and> contents pq' = contents pq
     \<and> sameSettings pq pq' \<and> proLen pq' = proLen pq"
proof (induction pq c rule: siftDown.induct)
  case (1 pq c)
  have c: "1 \<le> c" "bufWf pq" using "1.prems" by (auto simp: downInv_def)
  show ?case
  proof (rule smallChild_cases [OF c(2,1)])
    assume leaf: "proLen pq \<le> 2 * c" "smallChild pq c = Some None"
    then have "i div 2 \<noteq> c" if "i < proLen pq" for i using that by auto
    then have "heapInv pq" using "1.prems" by (auto simp: downInv_def heapInv_def)
    with leaf show ?thesis by (auto simp: siftDown.simps [of pq c])
  next
    fix t
    assume t: "smallChild pq c = Some (Some t)" "t div 2 = c" "t < proLen pq" "2 \<le> t"
      and least: "\<And>j. j < proLen pq \<Longrightarrow> j div 2 = c \<Longrightarrow> keyAt pq t \<le> keyAt pq j"
    have ct: "c < proLen pq" using t by auto
    have less: "proLess pq t c = Some (keyAt pq t < keyAt pq c)"
      using c t ct by (intro bufWf_proLess) auto
    show ?thesis
    proof (cases "keyAt pq t < keyAt pq c")
      case True
      have "\<exists>pq'. siftDown (proSwap pq t c) t = Some pq' \<and> heapInv pq'
          \<and> contents pq' = contents (proSwap pq t c) \<and> sameSettings (proSwap pq t c) pq'
          \<and> proLen pq' = proLen (proSwap pq t c)"
        by (rule "1.IH" [OF t(1) refl less True
              downInv_swap [OF "1.prems" t(2,3,4) least True]])
      then show ?thesis
        using True t less ct sameSettings_trans [OF sameSettings_swap]
        by (auto simp: siftDown.simps [of pq c] contents_swap)
    next
      case False
      have "keyAt pq (i div 2) \<le> keyAt pq i" if "2 \<le> i" "i < proLen pq" for i
      proof (cases "i div 2 = c")
        case True
        with least [of i] that False show ?thesis by simp
      next
        case False
        with that "1.prems" show ?thesis by (simp add: downInv_def)
      qed
      then have "heapInv pq" using c by (simp add: heapInv_def)
      then show ?thesis using t less False by (auto simp: siftDown.simps [of pq c])
    qed
  qed
qed

subsection \<open>The root is least\<close>

lemma heapInv_root_least:
  "heapInv pq \<Longrightarrow> 1 \<le> i \<Longrightarrow> i < proLen pq \<Longrightarrow> keyAt pq 1 \<le> keyAt pq i"
proof (induction i rule: less_induct)
  case (less i)
  show ?case
  proof (cases "i = 1")
    case False
    then have "1 \<le> i div 2" "i div 2 < i" using less.prems by auto
    then have "keyAt pq 1 \<le> keyAt pq (i div 2)" using less by auto
    also have "\<dots> \<le> keyAt pq i" using less.prems False by (auto simp: heapInv_def)
    finally show ?thesis .
  qed simp
qed

lemma bufWf_pros:
  "bufWf pq \<Longrightarrow> pros pq = None # map Some (map the (tl (pros pq)))"
proof -
  assume wf: "bufWf pq"
  then obtain xs where xs: "pros pq = None # xs"
    by (cases "pros pq") (auto simp: bufWf_def proLen_def)
  have "map (\<lambda>x. Some (the x)) xs = xs"
  proof (rule nth_equalityI)
    fix i assume "i < length (map (\<lambda>x. Some (the x)) xs)"
    then have i: "i < length xs" by simp
    with wf xs have "\<forall>k < Suc (length xs). ((None # xs) ! k = None) = (k = 0)"
      by (simp add: bufWf_def proLen_def)
    then have "((None # xs) ! Suc i = None) = (Suc i = 0)" using i by blast
    then have "xs ! i \<noteq> None" by simp
    with i show "map (\<lambda>x. Some (the x)) xs ! i = xs ! i" by auto
  qed simp
  then show ?thesis by (simp add: xs o_def)
qed

lemma contents_tl: "bufWf pq \<Longrightarrow> contents pq = mset (map the (tl (pros pq)))"
  by (subst contents_def, subst bufWf_pros) (simp_all add: image_mset.compositionality o_def)

lemma in_contents_iff:
  "bufWf pq \<Longrightarrow> p \<in># contents pq \<longleftrightarrow> (\<exists>i. 1 \<le> i \<and> i < proLen pq \<and> p = the (pros pq ! i))"
proof -
  assume wf: "bufWf pq"
  have len: "proLen pq = Suc (length (tl (pros pq)))"
    using wf by (cases "pros pq") (auto simp: bufWf_def proLen_def)
  have nth: "pros pq ! Suc k = tl (pros pq) ! k" if "k < length (tl (pros pq))" for k
    using that by (simp add: nth_tl)
  have "p \<in># contents pq \<longleftrightarrow> (\<exists>k < length (tl (pros pq)). p = the (tl (pros pq) ! k))"
    by (simp only: contents_tl [OF wf] set_mset_mset set_map image_iff Bex_def in_set_conv_nth) blast
  also have "\<dots> \<longleftrightarrow> (\<exists>i. 1 \<le> i \<and> i < proLen pq \<and> p = the (pros pq ! i))"
  proof
    assume "\<exists>k < length (tl (pros pq)). p = the (tl (pros pq) ! k)"
    then obtain k where "k < length (tl (pros pq))" "p = the (tl (pros pq) ! k)" by blast
    then have "1 \<le> Suc k \<and> Suc k < proLen pq \<and> p = the (pros pq ! Suc k)"
      by (simp only: nth len) simp
    then show "\<exists>i. 1 \<le> i \<and> i < proLen pq \<and> p = the (pros pq ! i)" by blast
  next
    assume "\<exists>i. 1 \<le> i \<and> i < proLen pq \<and> p = the (pros pq ! i)"
    then obtain i where i: "1 \<le> i" "i < proLen pq" "p = the (pros pq ! i)" by blast
    then obtain k where "i = Suc k" by (cases i) auto
    with i show "\<exists>k < length (tl (pros pq)). p = the (tl (pros pq) ! k)"
      by (metis Suc_less_eq len nth)
  qed
  finally show ?thesis .
qed

lemma size_contents: "bufWf pq \<Longrightarrow> Amount pq = int (size (contents pq))"
  by (cases "pros pq") (auto simp: contents_tl Amount_def bufWf_def proLen_def)

subsection \<open>Push and Pop\<close>

lemma Push_correct:
  assumes inv: "heapInv pq"
  shows "\<exists>pq'. Push pq x = Some pq' \<and> heapInv pq' \<and> contents pq' = add_mset x (contents pq)
     \<and> sameSettings pq pq'"
proof -
  define pq1 where "pq1 = pq\<lparr>pros := pros pq @ [Some x]\<rparr>"
  have wf: "bufWf pq" using inv by (simp add: heapInv_def)
  have len: "proLen pq1 = Suc (proLen pq)" by (simp add: pq1_def proLen_def)
  have key: "keyAt pq1 i = keyAt pq i" if "i < proLen pq" for i
    using that by (simp add: keyAt_def pq1_def prioOf_def proLen_def nth_append)
  have wf1: "bufWf pq1"
    using wf by (auto simp: bufWf_def pq1_def proLen_def nth_append less_Suc_eq)
  have "keyAt pq1 (i div 2) \<le> keyAt pq1 i" if "2 \<le> i" "i < proLen pq1" "i \<noteq> proLen pq" for i
    using that inv by (simp add: len key heapInv_def)
  moreover have "j div 2 \<noteq> proLen pq" if "j < proLen pq1" "2 \<le> proLen pq" for j
    using that len by (intro notI) simp
  ultimately have "upInv pq1 (proLen pq)"
    using wf1 wf len by (auto simp: upInv_def bufWf_def)
  from siftUp_correct [OF this] obtain pq' where pq': "siftUp pq1 (proLen pq) = Some pq'"
    "heapInv pq'" "contents pq' = contents pq1" "sameSettings pq1 pq'" by blast
  have "contents pq1 = add_mset x (contents pq)"
    using wf wf1 by (simp add: contents_tl) (auto simp: pq1_def bufWf_def proLen_def)
  moreover have "sameSettings pq pq1" by (simp add: sameSettings_def pq1_def)
  ultimately show ?thesis
    using pq' len sameSettings_trans by (auto simp: Push_def pq1_def [symmetric] Let_def)
qed

lemma Pop_blocked:
  assumes inv: "heapInv pq" and all: "\<forall>p \<in># contents pq. priorThreshold pq < prioOf pq p"
  shows "Pop pq = Some (None, pq)"
proof (cases "proLen pq = 1")
  case True
  then show ?thesis by (simp add: Pop_def proLen_def)
next
  case False
  have wf: "bufWf pq" using inv by (simp add: heapInv_def)
  with False have "1 < proLen pq" by (auto simp: bufWf_def)
  then have "proGet pq 1 = Some (the (pros pq ! 1))" "the (pros pq ! 1) \<in># contents pq"
    using wf by (auto simp: bufWf_proGet in_contents_iff)
  then show ?thesis using all False by (simp add: Pop_def proLen_def)
qed

lemma Pop_least:
  assumes inv: "heapInv pq" and some: "\<exists>p \<in># contents pq. prioOf pq p \<le> priorThreshold pq"
  shows "\<exists>p pq'. Pop pq = Some (Some p, pq') \<and> heapInv pq' \<and> contents pq = add_mset p (contents pq')
     \<and> (\<forall>r \<in># contents pq. prioOf pq p \<le> prioOf pq r) \<and> prioOf pq p \<le> priorThreshold pq
     \<and> sameSettings pq pq'"
proof -
  have wf: "bufWf pq" using inv by (simp add: heapInv_def)
  define n where "n = proLen pq - 1"
  obtain p0 where p0: "p0 \<in># contents pq" "prioOf pq p0 \<le> priorThreshold pq" using some by blast
  then obtain i0 where "1 \<le> i0" "i0 < proLen pq" using in_contents_iff [OF wf] by blast
  then have n: "1 \<le> n" "proLen pq = Suc n" by (auto simp: n_def)
  define p where "p = the (pros pq ! 1)"
  define root where "root = the (pros pq ! n)"
  define pq1 where "pq1 = pq\<lparr>pros := butlast ((pros pq)[1 := Some root])\<rparr>"
  have get: "proGet pq 1 = Some p" "proGet pq n = Some root" "pros pq ! 1 = Some p" "pros pq ! n = Some root"
    using wf n by (auto simp: bufWf_proGet p_def root_def) (auto simp: bufWf_def)
  have least: "prioOf pq p \<le> prioOf pq r" if "r \<in># contents pq" for r
    using that heapInv_root_least [OF inv] by (auto simp: in_contents_iff [OF wf] keyAt_def p_def)
  then have low: "prioOf pq p \<le> priorThreshold pq" using p0 by force
  have len1: "proLen pq1 = n" using n by (simp add: pq1_def proLen_def)
  have key1: "keyAt pq1 i = (if i = 1 then keyAt pq n else keyAt pq i)" if "i < n" for i
    using that n get by (simp add: keyAt_def pq1_def prioOf_def proLen_def nth_butlast nth_list_update)
  have wf1: "bufWf pq1"
    using wf n by (auto simp: bufWf_def len1) (auto simp: pq1_def proLen_def nth_butlast nth_list_update
        split: if_splits)
  have "keyAt pq1 (i div 2) \<le> keyAt pq1 i" if i: "2 \<le> i" "i < n" "i div 2 \<noteq> 1" for i
  proof -
    have "i div 2 < n" using i by linarith
    then show ?thesis using i inv n by (simp add: key1 heapInv_def)
  qed
  then have "downInv pq1 1" using wf1 by (simp add: downInv_def len1)
  from siftDown_correct [OF this] obtain pq' where pq': "siftDown pq1 1 = Some pq'" "heapInv pq'"
    "contents pq' = contents pq1" "sameSettings pq1 pq'" by blast
  define ys where "ys = (pros pq)[1 := Some root]"
  have ys: "ys \<noteq> []" "last ys = Some root" "mset ys = add_mset (Some root) (mset (pros pq) - {#Some p#})"
  proof -
    show "ys \<noteq> []" using n by (auto simp: ys_def proLen_def)
    then show "last ys = Some root"
      using n get by (simp add: last_conv_nth) (simp add: ys_def proLen_def nth_list_update)
    show "mset ys = add_mset (Some root) (mset (pros pq) - {#Some p#})"
      using n get by (simp add: ys_def mset_update proLen_def)
  qed
  have "mset ys = mset (butlast ys @ [last ys])" using ys(1) by simp
  then have "mset (butlast ys) = mset (pros pq) - {#Some p#}" using ys by simp
  moreover have "Some p \<in># mset (pros pq)"
    using get n by (metis in_multiset_in_set less_eq_Suc_le less_Suc_eq_le nth_mem proLen_def)
  then obtain M where "mset (pros pq) = add_mset (Some p) M" by (blast dest: multi_member_split)
  moreover have "contents pq1 = image_mset the (mset (butlast ys) - {#None#})"
    unfolding contents_def pq1_def ys_def by simp
  ultimately have "contents pq = add_mset p (contents pq1)"
    by (simp add: contents_def diff_add_mset_swap)
  moreover have "sameSettings pq pq1" by (simp add: sameSettings_def pq1_def)
  moreover have "Pop pq = Some (Some p, pq')"
    using n get low pq' by (simp add: Pop_def proLen_def pq1_def not_less)
  ultimately have "Pop pq = Some (Some p, pq')" "heapInv pq'"
    "contents pq = add_mset p (contents pq')" "sameSettings pq pq'"
    using pq' by (auto intro: sameSettings_trans)
  then show ?thesis using least low by (intro exI [of _ p] exI [of _ pq']) simp
qed

subsection \<open>The contract of the buffer\<close>

text \<open>What the consensus components rely on: a bounded priority queue.  \<open>popAll\<close> is the
  loop that empties a buffer (\<^verbatim>\<open>_generateMsg\<close> of
  \<^verbatim>\<open>src/Comm/IdChainComm/Com_ProposalBufferMigrate.go\<close>); its fuel is the number of
  \<open>Pop\<close> calls allowed, and one more than the number of queued proposals is enough.\<close>

fun popAll :: "('q \<Rightarrow> ('p option \<times> 'q) option) \<Rightarrow> nat \<Rightarrow> 'q \<Rightarrow> ('p list \<times> 'q) option" where
  "popAll pop 0 q = None"
| "popAll pop (Suc n) q =
     do { (r, q') \<leftarrow> pop q;
          case r of None \<Rightarrow> Some ([], q')
          | Some p \<Rightarrow> do { (ps, q'') \<leftarrow> popAll pop n q'; Some (p # ps, q'') } }"

locale priority_buffer =
  fixes push :: "'q \<Rightarrow> 'p \<Rightarrow> 'q option"
    and pop :: "'q \<Rightarrow> ('p option \<times> 'q) option"
    and key :: "'q \<Rightarrow> 'p \<Rightarrow> int"
    and limit :: "'q \<Rightarrow> int"
    and elems :: "'q \<Rightarrow> 'p multiset"
    and inv :: "'q \<Rightarrow> bool"
  assumes push_law: "inv q \<Longrightarrow> \<exists>q'. push q x = Some q' \<and> inv q' \<and> elems q' = add_mset x (elems q)
      \<and> key q' = key q \<and> limit q' = limit q"
    and pop_none: "inv q \<Longrightarrow> \<forall>p \<in># elems q. limit q < key q p \<Longrightarrow> pop q = Some (None, q)"
    and pop_some: "inv q \<Longrightarrow> \<exists>p \<in># elems q. key q p \<le> limit q \<Longrightarrow>
      \<exists>p q'. pop q = Some (Some p, q') \<and> inv q' \<and> elems q = add_mset p (elems q')
        \<and> (\<forall>r \<in># elems q. key q p \<le> key q r) \<and> key q p \<le> limit q
        \<and> key q' = key q \<and> limit q' = limit q"
begin

lemma pop_total:
  assumes "inv q"
  obtains "\<forall>p \<in># elems q. limit q < key q p" "pop q = Some (None, q)"
  | p q' where "pop q = Some (Some p, q')" "inv q'" "elems q = add_mset p (elems q')"
      "\<forall>r \<in># elems q. key q p \<le> key q r" "key q p \<le> limit q" "key q' = key q" "limit q' = limit q"
proof (cases "\<forall>p \<in># elems q. limit q < key q p")
  case True
  then show ?thesis using pop_none [OF assms] that(1) by blast
next
  case False
  then have "\<exists>p \<in># elems q. key q p \<le> limit q" by (auto simp: not_less)
  from pop_some [OF assms this] show ?thesis using that(2) by blast
qed

lemma popAll_law:
  "inv q \<Longrightarrow> size (elems q) < n \<Longrightarrow>
   \<exists>ps q'. popAll pop n q = Some (ps, q') \<and> sorted (map (key q) ps)
     \<and> mset ps = filter_mset (\<lambda>p. key q p \<le> limit q) (elems q)
     \<and> elems q' = filter_mset (\<lambda>p. limit q < key q p) (elems q)
     \<and> inv q' \<and> key q' = key q \<and> limit q' = limit q"
proof (induction n arbitrary: q)
  case (Suc n)
  from Suc.prems(1) show ?case
  proof (cases rule: pop_total)
    case 1
    then have "filter_mset (\<lambda>p. key q p \<le> limit q) (elems q) = {#}"
      "filter_mset (\<lambda>p. limit q < key q p) (elems q) = elems q"
      by (auto simp: filter_mset_eq_mempty_iff filter_mset_eq_conv)
    then show ?thesis using 1 Suc.prems(1) by auto
  next
    case (2 p q')
    then have "size (elems q') < n" using Suc.prems(2) by simp
    from Suc.IH [OF 2(2) this] obtain ps q'' where IH: "popAll pop n q' = Some (ps, q'')"
      "sorted (map (key q') ps)" "mset ps = filter_mset (\<lambda>p. key q' p \<le> limit q') (elems q')"
      "elems q'' = filter_mset (\<lambda>p. limit q' < key q' p) (elems q')"
      "inv q''" "key q'' = key q'" "limit q'' = limit q'" by blast
    have "set ps \<subseteq> set_mset (elems q')"
      using arg_cong [OF IH(3), of set_mset] by auto
    then have "\<forall>r \<in> set ps. key q p \<le> key q r" using 2 by auto
    then show ?thesis using 2 IH by auto
  qed
qed simp

end

interpretation pb: priority_buffer Push Pop prioOf priorThreshold contents heapInv
proof
  fix q x
  assume "heapInv q"
  from Push_correct [OF this, of x] show "\<exists>q'. Push q x = Some q' \<and> heapInv q' \<and>
      contents q' = add_mset x (contents q) \<and> prioOf q' = prioOf q \<and>
      priorThreshold q' = priorThreshold q"
    by (metis sameSettings_def sameSettings_prioOf)
next
  fix q
  assume "heapInv q" "\<exists>p \<in># contents q. prioOf q p \<le> priorThreshold q"
  from Pop_least [OF this] obtain p q' where q': "Pop q = Some (Some p, q')" "heapInv q'"
    "contents q = add_mset p (contents q')" "\<forall>r \<in># contents q. prioOf q p \<le> prioOf q r"
    "prioOf q p \<le> priorThreshold q" "sameSettings q q'"
    by blast
  from q'(6) have "prioOf q' = prioOf q" "priorThreshold q' = priorThreshold q"
    by (rule sameSettings_prioOf) (use q'(6) in \<open>simp add: sameSettings_def\<close>)
  with q' show "\<exists>p q'. Pop q = Some (Some p, q') \<and> heapInv q' \<and>
      contents q = add_mset p (contents q') \<and> (\<forall>r \<in># contents q. prioOf q p \<le> prioOf q r) \<and>
      prioOf q p \<le> priorThreshold q \<and> prioOf q' = prioOf q \<and> priorThreshold q' = priorThreshold q"
    by (intro exI [of _ p] exI [of _ q']) simp
qed (rule Pop_blocked)

subsection \<open>Properties\<close>

lemma heapInv_New: "heapInv NewProposalBuffer" "contents NewProposalBuffer = {#}"
  by (auto simp: heapInv_def bufWf_def contents_def NewProposalBuffer_def proLen_def)

lemma heapInv_SetThreshold:
  "heapInv pq \<Longrightarrow> heapInv (SetThreshold pq t) \<and> contents (SetThreshold pq t) = contents pq"
  by (simp add: heapInv_def bufWf_def contents_def SetThreshold_def proLen_def keyAt_def prioOf_def)

lemma heapInv_SetPriority:
  assumes "heapInv pq" and "\<forall>p \<in># contents pq. ReqType p \<noteq> t"
  shows "heapInv (SetPriority pq t v) \<and> contents (SetPriority pq t v) = contents pq"
proof -
  have wf: "bufWf pq" using assms(1) by (simp add: heapInv_def)
  have "keyAt (SetPriority pq t v) i = keyAt pq i" if "1 \<le> i" "i < proLen pq" for i
  proof -
    have "the (pros pq ! i) \<in># contents pq" using that in_contents_iff [OF wf] by blast
    then have "ReqType (the (pros pq ! i)) \<noteq> t" using assms(2) by blast
    then show ?thesis by (simp add: keyAt_def prioOf_def SetPriority_def)
  qed
  then have "keyAt (SetPriority pq t v) (i div 2) \<le> keyAt (SetPriority pq t v) i"
    if "2 \<le> i" "i < proLen pq" for i
    using that assms(1) by (simp add: heapInv_def)
  moreover have "proLen (SetPriority pq t v) = proLen pq" "bufWf (SetPriority pq t v)"
    using wf by (simp_all add: SetPriority_def proLen_def bufWf_def)
  ultimately show ?thesis by (simp add: heapInv_def contents_def) (simp add: SetPriority_def)
qed

text \<open>A buffer with three queued proposals, one of them above the threshold, for the
  witnesses.\<close>

definition demoPro :: "bytes \<Rightarrow> Proposal" where
  "demoPro t = \<lparr>ReqType = t, Vars = []\<rparr>"

definition demoBuffer :: ProposalBuffer where
  "demoBuffer = \<lparr>pros = [None, Some (demoPro ''EpochReset''), Some (demoPro ''InternalTx''),
       Some (demoPro ''EpochReset'')],
     priority = [(''EpochReset'', Now), (''InternalTx'', NormalPriority)], priorThreshold = 100\<rparr>"

lemma heapInv_demo: "heapInv demoBuffer" "size (contents demoBuffer) = 3"
proof -
  have "i = 2 \<or> i = 3" if "2 \<le> i" "i < proLen demoBuffer" for i
    using that by (auto simp: proLen_def demoBuffer_def)
  then have "keyAt demoBuffer (i div 2) \<le> keyAt demoBuffer i" if "2 \<le> i" "i < proLen demoBuffer" for i
    using that by (fastforce simp: keyAt_def prioOf_def demoBuffer_def demoPro_def Now_def NormalPriority_def)
  moreover have "bufWf demoBuffer"
    by (auto simp: bufWf_def proLen_def demoBuffer_def less_Suc_eq)
  ultimately show "heapInv demoBuffer" by (simp add: heapInv_def)
  show "size (contents demoBuffer) = 3" by (simp add: contents_def demoBuffer_def)
qed

text \<open>\<open>Push\<close> on a well-formed buffer never panics, keeps the heap order and adds exactly the
  proposal pushed.\<close>
theorem Push_keeps_heap:
  "heapInv pq \<Longrightarrow>
   \<exists>pq'. Push pq x = Some pq' \<and> heapInv pq' \<and> contents pq' = add_mset x (contents pq)
     \<and> Amount pq' = Amount pq + 1"
  using Push_correct [of pq x] by (auto simp: heapInv_def size_contents)

theorem Push_keeps_heap_witness:
  "\<exists>pq'. Push demoBuffer \<lparr>ReqType = ''Empty'', Vars = []\<rparr> = Some pq' \<and> heapInv pq'
     \<and> contents pq' = add_mset \<lparr>ReqType = ''Empty'', Vars = []\<rparr> (contents demoBuffer)
     \<and> Amount pq' = Amount demoBuffer + 1"
  by (rule Push_keeps_heap) (rule heapInv_demo)

text \<open>\<open>Pop\<close> on a well-formed buffer never panics.  It answers \<open>nil\<close>, changing nothing,
  exactly when every queued proposal is above the threshold (or none is queued); otherwise
  it removes one proposal, and none of the queued ones is more urgent.\<close>
theorem Pop_most_urgent:
  assumes "heapInv pq"
  shows "\<exists>r pq'. Pop pq = Some (r, pq') \<and> heapInv pq' \<and>
    (case r of
       None \<Rightarrow> pq' = pq \<and> (\<forall>q \<in># contents pq. priorThreshold pq < prioOf pq q)
     | Some p \<Rightarrow> contents pq = add_mset p (contents pq')
         \<and> prioOf pq p \<le> priorThreshold pq \<and> (\<forall>q \<in># contents pq. prioOf pq p \<le> prioOf pq q))"
  using assms
proof (cases rule: pb.pop_total)
  case 1
  then show ?thesis using assms by simp
next
  case (2 p q')
  then show ?thesis by (intro exI [of _ "Some p"] exI [of _ q']) simp
qed

theorem Pop_most_urgent_witness:
  "\<exists>r pq'. Pop demoBuffer = Some (r, pq') \<and> heapInv pq' \<and>
    (case r of
       None \<Rightarrow> pq' = demoBuffer
         \<and> (\<forall>q \<in># contents demoBuffer. priorThreshold demoBuffer < prioOf demoBuffer q)
     | Some p \<Rightarrow> contents demoBuffer = add_mset p (contents pq')
         \<and> prioOf demoBuffer p \<le> priorThreshold demoBuffer
         \<and> (\<forall>q \<in># contents demoBuffer. prioOf demoBuffer p \<le> prioOf demoBuffer q))"
  by (rule Pop_most_urgent) (rule heapInv_demo)

text \<open>C36: emptying a buffer by repeated \<open>Pop\<close> returns, in non-decreasing priority, exactly the
  queued proposals at or below the threshold and leaves exactly the others.\<close>
theorem popAll_sorted:
  assumes "heapInv pq" and "size (contents pq) < n"
  shows "\<exists>ps pq'. popAll Pop n pq = Some (ps, pq') \<and> sorted (map (prioOf pq) ps)
     \<and> mset ps = filter_mset (\<lambda>p. prioOf pq p \<le> priorThreshold pq) (contents pq)
     \<and> contents pq' = filter_mset (\<lambda>p. priorThreshold pq < prioOf pq p) (contents pq)"
  using pb.popAll_law [OF assms] by blast

theorem popAll_sorted_witness:
  "\<exists>ps pq'. popAll Pop 4 demoBuffer = Some (ps, pq') \<and> sorted (map (prioOf demoBuffer) ps)
     \<and> mset ps = filter_mset (\<lambda>p. prioOf demoBuffer p \<le> priorThreshold demoBuffer) (contents demoBuffer)
     \<and> contents pq' = filter_mset (\<lambda>p. priorThreshold demoBuffer < prioOf demoBuffer p) (contents demoBuffer)"
  by (rule popAll_sorted) (simp_all add: heapInv_demo)

end
