(* ===== verification/Wire.thy ===== *)
theory Wire
  imports Content Config "HOL-Library.Sublist"
begin

text \<open>
  Messages on the wire: \<^verbatim>\<open>src/message/message.go\<close>, the framing of
  \<^verbatim>\<open>src/networks/p2pNetwork.go\<close>, the read loop of \<^verbatim>\<open>src/launch/msgReceive.go\<close>, the signing done
  when a message is launched (\<^verbatim>\<open>src/launch/msgLaunch.go\<close>) and undone when it is selected
  (\<^verbatim>\<open>src/consensus_shard/Selector.go\<close>).

  A connection is the list of all bytes the peer sends before it closes.  \<open>io.ReadFull\<close> returns
  \<open>io.EOF\<close> when no byte is left and another error when some but too few are left; the read loop
  tells the two apart, and so does \<open>handleRequest\<close>.
\<close>

record Message =
  MsgType :: bytes
  MsgContent :: bytes
  RemoteInfo :: bytes

definition EncodeMsg :: "bytes \<Rightarrow> bytes \<Rightarrow> bytes option" where
  \<comment> \<open>\<open>make([]byte, n)\<close> panics for a negative \<open>n\<close>; the length is truncated to 32 bits\<close>
  "EncodeMsg msgType content =
     (if length msgType > PrefixMsgTypeLen then None
      else Some (beBytes 4 (length content mod 2 ^ 32) @
                 (msgType @ replicate (PrefixMsgTypeLen - length msgType) (CHR 0x00)) @ content))"

datatype ReadEnd =
    ClientClosed   \<comment> \<open>end of stream, on which a Monosulfide node saves its chain and stops\<close>
  | ReadPanic

definition TrimRight0 :: "bytes \<Rightarrow> bytes" where
  "TrimRight0 b = rev (dropWhile (\<lambda>c. c = CHR 0x00) (rev b))"

function handleRequest :: "bytes \<Rightarrow> bytes \<Rightarrow> Message list \<times> ReadEnd" where
  \<comment> \<open>the messages in the order in which they are cut from the stream; \<open>go _delaySending\<close> gives each to its own goroutine\<close>
  "handleRequest senderAddr stream =
     (if stream = [] then ([], ClientClosed)
      else if length stream < 4 then ([], ReadPanic)
      else let len = beNat (take 4 stream); s1 = drop 4 stream
           in if length s1 < PrefixMsgTypeLen then ([], ReadPanic)
              else let msgType = TrimRight0 (take PrefixMsgTypeLen s1); s2 = drop PrefixMsgTypeLen s1
                   in if len > 0 \<and> s2 = [] then ([], ClientClosed)
                      else if length s2 < len then ([], ReadPanic)
                      else let (ms, end') = handleRequest senderAddr (drop len s2)
                           in (\<lparr>MsgType = msgType, MsgContent = take len s2, RemoteInfo = senderAddr\<rparr> # ms,
                               end'))"
  by pat_completeness auto
termination
  by (relation "measure (\<lambda>(a, s). length s)") auto

declare handleRequest.simps [simp del]

definition SplitMessage :: "bytes \<Rightarrow> (bytes \<times> bytes) option" where
  "SplitMessage message =
     (if length message < PrefixMsgTypeLen then None
      else Some (filter (\<lambda>v. v \<noteq> CHR 0x00) (take PrefixMsgTypeLen message), drop PrefixMsgTypeLen message))"

definition SignAndLaunch :: "bytes \<Rightarrow> Message \<Rightarrow> nat \<Rightarrow> Message" where
  \<comment> \<open>the message put on \<open>LaunchPool\<close>, for the node whose key is \<open>self\<close>; \<open>launch.SendMsg\<close> does the
     same with the id of the consensus\<close>
  "SignAndLaunch self m modId =
     m\<lparr>MsgContent := Sign (Sign (MsgContent m) self) (natDec modId)\<rparr>"

definition SelectorOpen :: "Message \<Rightarrow> Message \<times> int \<times> bytes" where
  \<comment> \<open>the first steps of the loop of \<open>Selector\<close>: the two signatures are read and removed, the sender's
     key replaces the address; \<open>strconv.Atoi\<close> gives 0 when it fails\<close>
  "SelectorOpen msg =
     (let (modeStr, c1) = CheckSign (MsgContent msg);
          (remoteId, c2) = CheckSign c1
      in (msg\<lparr>MsgContent := c2, RemoteInfo := remoteId\<rparr>, Atoi modeStr, modeStr))"

definition SelectorBuffer :: "Message \<Rightarrow> bytes \<Rightarrow> Message" where
  \<comment> \<open>a message that no one could handle yet is signed again and kept in \<open>MsgBuffer\<close>\<close>
  "SelectorBuffer msg modeStr =
     msg\<lparr>MsgContent := Sign (Sign (MsgContent msg) (RemoteInfo msg)) modeStr\<rparr>"

definition RequestTypeOf :: "bytes \<Rightarrow> bytes" where
  "RequestTypeOf ct = ct @ ''REQ''"

definition ResponseTypeOf :: "bytes \<Rightarrow> bytes" where
  "ResponseTypeOf ct = ct @ ''RES''"

definition IsReq :: "bytes \<Rightarrow> bool option" where
  \<comment> \<open>\<open>mt[len(mt)-1]\<close> panics for the empty type\<close>
  "IsReq mt = (if mt = [] then None else Some (last mt = CHR ''Q''))"

subsection \<open>Framing\<close>

definition wireType :: "bytes \<Rightarrow> bool" where
  \<comment> \<open>a message type that survives the padding\<close>
  "wireType t \<longleftrightarrow> length t \<le> PrefixMsgTypeLen \<and> (t \<noteq> [] \<longrightarrow> last t \<noteq> CHR 0x00)"

definition frame :: "Message \<Rightarrow> bytes" where
  "frame m = (case EncodeMsg (MsgType m) (MsgContent m) of Some b \<Rightarrow> b | None \<Rightarrow> [])"

lemma TrimRight0_pad: "t \<noteq> [] \<longrightarrow> last t \<noteq> CHR 0x00 \<Longrightarrow> TrimRight0 (t @ replicate k (CHR 0x00)) = t"
  by (cases t rule: rev_cases) (auto simp: TrimRight0_def dropWhile_append3 dropWhile_append)

lemma EncodeMsg_frame: "wireType (MsgType m) \<Longrightarrow> EncodeMsg (MsgType m) (MsgContent m) = Some (frame m)"
  by (simp add: frame_def EncodeMsg_def wireType_def)

definition whole :: "bytes \<Rightarrow> bool" where
  \<comment> \<open>the bytes begin with a whole frame\<close>
  "whole s \<longleftrightarrow> 4 + PrefixMsgTypeLen + beNat (take 4 s) \<le> length s"

definition headMsg :: "bytes \<Rightarrow> bytes \<Rightarrow> Message" where
  "headMsg addr s =
     \<lparr>MsgType = TrimRight0 (take PrefixMsgTypeLen (drop 4 s)),
      MsgContent = take (beNat (take 4 s)) (drop (4 + PrefixMsgTypeLen) s), RemoteInfo = addr\<rparr>"

lemma handleRequest_whole:
  "whole s \<Longrightarrow> handleRequest addr s =
     (let r = handleRequest addr (drop (4 + PrefixMsgTypeLen + beNat (take 4 s)) s)
      in (headMsg addr s # fst r, snd r))"
  by (subst handleRequest.simps)
     (auto simp: whole_def headMsg_def Let_def split_beta add.commute PrefixMsgTypeLen_def)

lemma handleRequest_partial: "\<not> whole s \<Longrightarrow> fst (handleRequest addr s) = []"
  by (subst handleRequest.simps) (auto simp: whole_def Let_def)

lemma handleRequest_frame:
  assumes "wireType (MsgType m)" "length (MsgContent m) < 2 ^ 32"
  shows "handleRequest addr (frame m @ rest) =
         (m\<lparr>RemoteInfo := addr\<rparr> # fst (handleRequest addr rest), snd (handleRequest addr rest))"
proof -
  let ?t = "MsgType m" and ?c = "MsgContent m"
  define h where "h = beBytes 4 (length ?c)"
  define p where "p = ?t @ replicate (PrefixMsgTypeLen - length ?t) (CHR 0x00)"
  have eq: "frame m @ rest = h @ p @ ?c @ rest"
    using assms by (simp add: frame_def EncodeMsg_def wireType_def h_def p_def)
  have len: "length h = 4" "length p = PrefixMsgTypeLen"
    using assms(1) by (simp_all add: wireType_def h_def p_def)
  have num: "beNat h = length ?c" using assms(2) by (simp add: beNat_beBytes h_def)
  have type: "TrimRight0 p = ?t"
    using assms(1) unfolding p_def by (intro TrimRight0_pad) (simp add: wireType_def)
  have "whole (h @ p @ ?c @ rest)" by (simp add: whole_def len num)
  from handleRequest_whole[OF this, of addr] show ?thesis
    unfolding eq by (simp add: headMsg_def len num type Let_def)
qed

lemma handleRequest_frames:
  assumes "\<forall>m \<in> set ms. wireType (MsgType m) \<and> length (MsgContent m) < 2 ^ 32"
  shows "handleRequest addr (concat (map frame ms) @ rest) =
         (map (\<lambda>m. m\<lparr>RemoteInfo := addr\<rparr>) ms @ fst (handleRequest addr rest),
          snd (handleRequest addr rest))"
  using assms by (induction ms) (simp_all add: handleRequest_frame)

lemma handleRequest_Nil [simp]: "handleRequest addr [] = ([], ClientClosed)"
  by (subst handleRequest.simps) simp

text \<open>whatever arrives, cutting the connection earlier only loses messages at the end: what the
  loop delivers from a prefix of the stream is a prefix of what it delivers from the stream.\<close>
theorem handleRequest_prefix:
  "prefix (fst (handleRequest addr (take k stream))) (fst (handleRequest addr stream))"
proof (induction "length stream" arbitrary: stream k rule: less_induct)
  case less
  show ?case
  proof (cases "whole (take k stream)")
    case False
    then show ?thesis by (simp add: handleRequest_partial)
  next
    case True
    let ?n = "4 + PrefixMsgTypeLen + beNat (take 4 stream)"
    have k: "4 \<le> k" "?n \<le> k" "?n \<le> length stream"
      using True by (auto simp: whole_def min_def split: if_splits)
    then have head: "headMsg addr (take k stream) = headMsg addr stream"
      by (simp add: headMsg_def drop_take min_def)
    have "prefix (fst (handleRequest addr (take (k - ?n) (drop ?n stream))))
                 (fst (handleRequest addr (drop ?n stream)))"
      using k by (intro less) (auto simp: PrefixMsgTypeLen_def)
    moreover have "whole stream" using k by (simp add: whole_def)
    ultimately show ?thesis
      using True k head by (simp add: handleRequest_whole Let_def drop_take min_def)
  qed
qed

text \<open>C39: whatever follows them, the read loop cuts exactly the messages that were written to the connection from the stream, in order
  and with their contents unchanged, and goes on with what follows; and wherever the connection is cut, it delivers the first ones of them.
  (Each is then given to a goroutine of its own, so that this is the order of the stream and not the one in which they are handled.)\<close>
theorem handleRequest_EncodeMsg:
  assumes "\<forall>m \<in> set ms. wireType (MsgType m) \<and> length (MsgContent m) < 2 ^ 32"
    and "list_all2 (\<lambda>m b. EncodeMsg (MsgType m) (MsgContent m) = Some b) ms bs"
  shows "handleRequest addr (concat bs @ rest) =
      (map (\<lambda>m. m\<lparr>RemoteInfo := addr\<rparr>) ms @ fst (handleRequest addr rest), snd (handleRequest addr rest)) \<and>
    (\<forall>k. prefix (fst (handleRequest addr (take k (concat bs)))) (map (\<lambda>m. m\<lparr>RemoteInfo := addr\<rparr>) ms))"
proof -
  have bs: "bs = map frame ms"
    using assms by (intro nth_equalityI) (auto simp: list_all2_conv_all_nth EncodeMsg_frame)
  have "fst (handleRequest addr (concat bs)) = map (\<lambda>m. m\<lparr>RemoteInfo := addr\<rparr>) ms"
    using bs handleRequest_frames[OF assms(1), of addr "[]"] by simp
  then show ?thesis using bs handleRequest_frames[OF assms(1)] handleRequest_prefix[of addr _ "concat bs"] by simp
qed

theorem handleRequest_EncodeMsg_witness:
  "fst (handleRequest ''peer'' (concat [beBytes 4 1 @ ''relay'' @ replicate 35 (CHR 0x00) @ ''a'',
                                   beBytes 4 0 @ ''TxEOF'' @ replicate 35 (CHR 0x00)] @ ''rest'')) =
   [\<lparr>MsgType = ''relay'', MsgContent = ''a'', RemoteInfo = ''peer''\<rparr>,
     \<lparr>MsgType = ''TxEOF'', MsgContent = [], RemoteInfo = ''peer''\<rparr>] @ fst (handleRequest ''peer'' ''rest'')"
  using handleRequest_EncodeMsg
    [of "[\<lparr>MsgType = ''relay'', MsgContent = ''a'', RemoteInfo = []\<rparr>,
          \<lparr>MsgType = ''TxEOF'', MsgContent = [], RemoteInfo = []\<rparr>]"
        "[beBytes 4 1 @ ''relay'' @ replicate 35 (CHR 0x00) @ ''a'',
          beBytes 4 0 @ ''TxEOF'' @ replicate 35 (CHR 0x00)]" "''peer''" "''rest''"]
  by (simp add: wireType_def EncodeMsg_def PrefixMsgTypeLen_def)

subsection \<open>From one node's pool to the other's selector\<close>

definition receiveOne :: "bytes \<Rightarrow> Message \<Rightarrow> (Message \<times> int \<times> bytes) option" where
  \<comment> \<open>sign, encode, read from the connection, open: the path of one message\<close>
  "receiveOne addr m =
     do { b \<leftarrow> EncodeMsg (MsgType m) (MsgContent m);
          case fst (handleRequest addr b) of
            [] \<Rightarrow> None
          | r # _ \<Rightarrow> Some (SelectorOpen r) }"

text \<open>what a consensus sends reaches the selector of the peer: the fields of the content, the key
  of the sender in place of its address, and the id of the consensus that has to handle it.\<close>
theorem send_select_roundtrip:
  assumes "wireType t" "fs \<noteq> []" "int modId \<le> maxInt64"
    and "length (MsgContent (SignAndLaunch key
           \<lparr>MsgType = t, MsgContent = NewByteContent fs, RemoteInfo = dest\<rparr> modId)) < 2 ^ 32"
  shows "receiveOne addr (SignAndLaunch key
           \<lparr>MsgType = t, MsgContent = NewByteContent fs, RemoteInfo = dest\<rparr> modId) =
         Some (\<lparr>MsgType = t, MsgContent = NewByteContent fs, RemoteInfo = key\<rparr>, int modId, natDec modId)"
proof -
  let ?m = "SignAndLaunch key \<lparr>MsgType = t, MsgContent = NewByteContent fs, RemoteInfo = dest\<rparr> modId"
  have c: "MsgContent ?m = NewByteContent ((fs @ [key]) @ [natDec modId])" "MsgType ?m = t"
    using assms(2) by (simp_all add: SignAndLaunch_def Sign_New)
  have enc: "EncodeMsg (MsgType ?m) (MsgContent ?m) = Some (frame ?m)"
    using assms(1) c(2) by (intro EncodeMsg_frame) simp
  have rec: "fst (handleRequest addr (frame ?m)) = [?m\<lparr>RemoteInfo := addr\<rparr>]"
    using handleRequest_frame[of ?m addr "[]"] assms(1,4) c(2) by simp
  have "SelectorOpen (?m\<lparr>RemoteInfo := addr\<rparr>) =
        (\<lparr>MsgType = t, MsgContent = NewByteContent fs, RemoteInfo = key\<rparr>, int modId, natDec modId)"
    using assms(2,3) c
    by (simp add: SelectorOpen_def CheckSign_New Atoi_natDec SignAndLaunch_def del: append_assoc)
  with enc rec show ?thesis by (simp add: receiveOne_def)
qed

theorem send_select_roundtrip_witness:
  "receiveOne ''10.0.0.1:7'' (SignAndLaunch ''key''
     \<lparr>MsgType = ''MigrateProREQ'', MsgContent = NewByteContent [''a'', [tabByte]], RemoteInfo = ''dest''\<rparr> 2) =
   Some (\<lparr>MsgType = ''MigrateProREQ'', MsgContent = NewByteContent [''a'', [tabByte]],
          RemoteInfo = ''key''\<rparr>, 2, ''2'')"
proof -
  have n: "natDec 2 = ''2''" by code_simp
  have l: "length (MsgContent (SignAndLaunch ''key'' \<lparr>MsgType = ''MigrateProREQ'',
      MsgContent = NewByteContent [''a'', [tabByte]], RemoteInfo = ''dest''\<rparr> 2)) = 10"
    by code_simp
  show ?thesis
    using send_select_roundtrip[of "''MigrateProREQ''" "[''a'', [tabByte]]" 2 "''key''" "''dest''" "''10.0.0.1:7''"]
    by (simp add: wireType_def PrefixMsgTypeLen_def maxInt64_def n l)
qed

end
