(* ===== verification/Transaction.thy ===== *)
theory Transaction
  imports Config
begin

text \<open>
  \<^verbatim>\<open>src/Tx/transaction.go\<close> and the checks of \<^verbatim>\<open>src/Tx/Verify.go\<close>: transactions, the shards
  they belong to, the splitting of a relay transaction along its route, and Merkle roots.
  \<open>tx.Hash()\<close> is SHA-256 of the JSON form of the transaction; the definitions that use it take
  the composed function \<open>txHash\<close> as an argument.  \<open>nil\<close> for \<open>Value\<close> and \<open>Interface\<close> is \<open>None\<close>.
\<close>

record Transaction =
  Sender :: bytes
  Recipient :: bytes
  Amnt :: "int option"   \<comment> \<open>the field \<open>Value\<close>\<close>
  Nonce :: "64 word"
  TxType :: nat
  Interface :: "bytes option"
  Time :: int

definition RegisterTx :: nat where "RegisterTx = 0"
definition PryTx :: nat where "PryTx = 1"
definition RelayTx :: nat where "RelayTx = 2"
definition RelayDump :: nat where "RelayDump = 3"

type_synonym txHasher = "Transaction \<Rightarrow> hash"

subsection \<open>Merkle roots\<close>

fun merkleLevel :: "(bytes \<Rightarrow> bytes) \<Rightarrow> bytes list \<Rightarrow> bytes list" where
  \<comment> \<open>the inner loop, on an even number of hashes\<close>
  "merkleLevel sha (x # y # hs) = sha (x @ y) # merkleLevel sha hs"
| "merkleLevel sha _ = []"

definition padLast :: "bytes list \<Rightarrow> bytes list" where
  "padLast hashes = (if odd (length hashes) then hashes @ [last hashes] else hashes)"

lemma length_merkleLevel: "length (merkleLevel sha hs) = length hs div 2"
  by (induction sha hs rule: merkleLevel.induct) auto

lemma length_padLast: "length (padLast hs) = (if odd (length hs) then Suc (length hs) else length hs)"
  by (simp add: padLast_def)

lemma merkle_shrinks:
  "1 < length hs \<Longrightarrow> length (merkleLevel sha (padLast hs)) < length hs"
  by (simp add: length_merkleLevel length_padLast) presburger

function GenMPTRoot :: "(bytes \<Rightarrow> bytes) \<Rightarrow> bytes list \<Rightarrow> bytes" where
  \<comment> \<open>\<open>nil\<close>, the root of no hash, is the empty list of bytes\<close>
  "GenMPTRoot sha hashes =
     (if hashes = [] then []
      else if length hashes > 1 then GenMPTRoot sha (merkleLevel sha (padLast hashes))
      else hd hashes)"
  by pat_completeness auto
termination
  by (relation "measure (\<lambda>(sha, hs). length hs)") (use merkle_shrinks in auto)

declare GenMPTRoot.simps [simp del]

definition GenTxRoot :: "(bytes \<Rightarrow> bytes) \<Rightarrow> txHasher \<Rightarrow> Transaction list \<Rightarrow> bytes" where
  "GenTxRoot sha txHash txs = GenMPTRoot sha (map txHash txs)"

subsection \<open>Construction\<close>

definition NewTransaction :: "bytes \<Rightarrow> bytes \<Rightarrow> int option \<Rightarrow> 64 word \<Rightarrow> nat \<Rightarrow> Transaction" where
  "NewTransaction sender recipient val nonce txType =
     \<lparr>Sender = sender, Recipient = recipient, Amnt = val, Nonce = nonce, TxType = txType,
      Interface = None, Time = 0\<rparr>"

definition GenerateRegisterTx :: "bytes \<Rightarrow> bytes \<Rightarrow> 64 word \<Rightarrow> Transaction" where
  "GenerateRegisterTx nid addr nonce = NewTransaction nid addr None nonce RegisterTx"

subsection \<open>Shards\<close>

definition hexVal :: "char \<Rightarrow> nat option" where
  "hexVal c =
     (let n = of_char c in
      if 48 \<le> n \<and> n \<le> 57 then Some (n - 48)
      else if 97 \<le> n \<and> n \<le> 102 then Some (n - 87)
      else if 65 \<le> n \<and> n \<le> 70 then Some (n - 55) else None)"

fun parseHex :: "nat \<Rightarrow> bytes \<Rightarrow> nat option" where
  \<comment> \<open>\<open>strconv.ParseUint(s, 16, 64)\<close> on a non-empty text that fits in 64 bits\<close>
  "parseHex acc [] = Some acc"
| "parseHex acc (c # cs) = do { d \<leftarrow> hexVal c; parseHex (16 * acc + d) cs }"

definition inShard :: "Conf \<Rightarrow> bytes \<Rightarrow> nat option" where
  \<comment> \<open>\<open>_inShard_\<close>; a slice out of range, a bad digit and a remainder by 0 panic\<close>
  "inShard conf addr =
     (if length addr < 8 then None
      else do { num \<leftarrow> parseHex 0 (drop (length addr - 8) addr);
                if pyrEnable (pyrConf conf)
                then (if pyrShardAmount (pyrConf conf) = 0 then None
                      else Some (num mod pyrShardAmount (pyrConf conf)))
                else if fideEnable (fideConf conf)
                then (if fideShardAmount (fideConf conf) = 0 then None
                      else Some (num mod fideShardAmount (fideConf conf)))
                else if monoEnable (monoConf conf)
                then (if monoShardAmount (monoConf conf) = 0 then None
                      else Some (num mod monoShardAmount (monoConf conf)))
                else Some 0 })"

definition RInShard :: "Conf \<Rightarrow> Transaction \<Rightarrow> nat option" where
  "RInShard conf tx = (if TxType tx = RegisterTx then Some 0 else inShard conf (Recipient tx))"

definition SInShard :: "Conf \<Rightarrow> Transaction \<Rightarrow> nat option" where
  "SInShard conf tx = (if TxType tx = RegisterTx then Some 0 else inShard conf (Sender tx))"

definition relatedTo :: "PyramidConfig \<Rightarrow> nat \<Rightarrow> nat \<Rightarrow> nat \<Rightarrow> bool option" where
  \<comment> \<open>the body of the pyramid loop of \<open>RelatedShards\<close>\<close>
  "relatedTo pyr s r i =
     do { a \<leftarrow> cell (ShardDistribution pyr) i r;
          b \<leftarrow> (if a then Some True else cell (ShardDistribution pyr) i s);
          if b then Some True else InRoute pyr i r s }"

fun filterM :: "('a \<Rightarrow> bool option) \<Rightarrow> 'a list \<Rightarrow> 'a list option" where
  "filterM p [] = Some []"
| "filterM p (x # xs) = do { b \<leftarrow> p x; ys \<leftarrow> filterM p xs; Some (if b then x # ys else ys) }"

definition RelatedShards :: "Conf \<Rightarrow> Transaction \<Rightarrow> nat list option" where
  "RelatedShards conf tx =
     do { s \<leftarrow> SInShard conf tx;
          r \<leftarrow> RInShard conf tx;
          if pyrEnable (pyrConf conf)
          then filterM (relatedTo (pyrConf conf) s r) [0..<pyrShardAmount (pyrConf conf)]
          else if fideEnable (fideConf conf)
          then (if txTest conf then Some [0..<fideShardAmount (fideConf conf)] else Some [s])
          else if monoEnable (monoConf conf) then Some [0..<monoShardAmount (monoConf conf)]
          else Some [] }"

definition genRtx :: "Conf \<Rightarrow> Transaction \<Rightarrow> nat \<Rightarrow> nat \<Rightarrow> Transaction option" where
  "genRtx conf rtx pre sid =
     do { a \<leftarrow> slot (DefaultAddr (pyrConf conf)) pre;
          b \<leftarrow> slot (DefaultAddr (pyrConf conf)) sid;
          Some (NewTransaction a b (Amnt rtx) (Nonce rtx) RelayTx) }"

definition SplitRelay :: "Conf \<Rightarrow> Transaction \<Rightarrow> Transaction list option" where
  "SplitRelay conf rtx =
     do { s \<leftarrow> SInShard conf rtx;
          r \<leftarrow> RInShard conf rtx;
          path \<leftarrow> GetRoute (pyrConf conf) s r;
          mapM (\<lambda>i. genRtx conf rtx (path ! (i - 1)) (path ! i)) [1..<length path] }"

subsection \<open>Accounts\<close>

record Account =
  Balance :: int
  accNonce :: "64 word"

definition CheckNonce :: "Account \<Rightarrow> 64 word \<Rightarrow> bool" where
  \<comment> \<open>\<open>True\<close> for no error\<close>
  "CheckNonce acct txNonce = (txNonce = accNonce acct)"

definition CheckBalance :: "Account \<Rightarrow> int \<Rightarrow> bool" where
  "CheckBalance acct val = (\<not> Balance acct < val)"

definition newAccount :: Account where
  \<comment> \<open>the account \<open>GetOrCreateAccount\<close> starts an unknown address with\<close>
  "newAccount = \<lparr>Balance = 10 ^ 20, accNonce = 0\<rparr>"

subsection \<open>What a Merkle root binds\<close>

fun levelInputs :: "bytes list \<Rightarrow> bytes set" where
  "levelInputs (x # y # hs) = insert (x @ y) (levelInputs hs)"
| "levelInputs _ = {}"

function merkleInputs :: "(bytes \<Rightarrow> bytes) \<Rightarrow> bytes list \<Rightarrow> bytes set" where
  \<comment> \<open>everything that is hashed on the way to the root\<close>
  "merkleInputs sha hashes =
     (if length hashes > 1
      then levelInputs (padLast hashes) \<union> merkleInputs sha (merkleLevel sha (padLast hashes))
      else {})"
  by pat_completeness auto
termination
  by (relation "measure (\<lambda>(sha, hs). length hs)") (use merkle_shrinks in auto)

declare merkleInputs.simps [simp del]

lemma merkleLevel_inj:
  "\<lbrakk>merkleLevel sha hs = merkleLevel sha hs'; length hs = length hs'; even (length hs);
    \<forall>h \<in> set hs \<union> set hs'. length h = L; inj_on sha (levelInputs hs \<union> levelInputs hs')\<rbrakk> \<Longrightarrow> hs = hs'"
proof (induction sha hs arbitrary: hs' rule: merkleLevel.induct)
  case (1 sha x y hs)
  then obtain x' y' hs2 where hs': "hs' = x' # y' # hs2"
    by (cases hs' rule: levelInputs.cases) auto
  have "sha (x @ y) = sha (x' @ y')" using 1(2) hs' by simp
  then have "x @ y = x' @ y'" by (rule inj_onD[OF 1(6)]) (simp_all add: hs')
  moreover have "length x = length x'" using 1(5) hs' by simp
  moreover have "hs = hs2"
    by (rule 1(1)) (use 1(2-6) hs' in \<open>auto intro: inj_on_subset\<close>)
  ultimately show ?case using hs' by simp
qed (auto simp: length_Suc_conv)

lemma padLast_inj: "padLast hs = padLast hs' \<Longrightarrow> length hs = length hs' \<Longrightarrow> hs = hs'"
  by (auto simp: padLast_def split: if_splits)

lemma set_padLast: "hs \<noteq> [] \<Longrightarrow> set (padLast hs) = set hs"
  by (auto simp: padLast_def)

lemma even_padLast: "even (length (padLast hs))"
  by (simp add: length_padLast)

lemma merkleLevel_length: "h \<in> set (merkleLevel sha hs) \<Longrightarrow> \<forall>x. length (sha x) = L \<Longrightarrow> length h = L"
  by (induction sha hs rule: merkleLevel.induct) auto

lemma GenMPTRoot_inj:
  "\<lbrakk>GenMPTRoot sha hs = GenMPTRoot sha hs'; length hs = length hs';
    \<forall>h \<in> set hs \<union> set hs'. length h = L; \<forall>x. length (sha x) = L;
    inj_on sha (merkleInputs sha hs \<union> merkleInputs sha hs')\<rbrakk> \<Longrightarrow> hs = hs'"
proof (induction sha hs arbitrary: hs' rule: GenMPTRoot.induct)
  case (1 sha hs)
  show ?case
  proof (cases "length hs > 1")
    case True
    then have ne: "hs \<noteq> []" "hs' \<noteq> []" "length hs' > 1" using 1(3) by auto
    let ?l = "merkleLevel sha (padLast hs)" and ?l' = "merkleLevel sha (padLast hs')"
    have inputs: "merkleInputs sha hs = levelInputs (padLast hs) \<union> merkleInputs sha ?l"
      "merkleInputs sha hs' = levelInputs (padLast hs') \<union> merkleInputs sha ?l'"
      using True ne(3) by (subst merkleInputs.simps, simp)+
    have "GenMPTRoot sha ?l = GenMPTRoot sha ?l'"
      using 1(2) True ne by (simp add: GenMPTRoot.simps[of sha hs] GenMPTRoot.simps[of sha hs'])
    moreover have "length ?l = length ?l'" using 1(3) by (simp add: length_merkleLevel length_padLast)
    moreover have "\<forall>h \<in> set ?l \<union> set ?l'. length h = L"
      using 1(5) merkleLevel_length by blast
    moreover have "inj_on sha (merkleInputs sha ?l \<union> merkleInputs sha ?l')"
      by (rule inj_on_subset[OF 1(6)]) (auto simp: inputs)
    ultimately have "?l = ?l'" using 1(1)[OF ne(1) True] 1(5) by blast
    then have "padLast hs = padLast hs'"
    proof (rule merkleLevel_inj)
      show "inj_on sha (levelInputs (padLast hs) \<union> levelInputs (padLast hs'))"
        by (rule inj_on_subset[OF 1(6)]) (auto simp: inputs)
    qed (use 1(3,4) ne set_padLast even_padLast in \<open>auto simp: length_padLast\<close>)
    then show ?thesis using 1(3) by (rule padLast_inj)
  next
    case False
    then show ?thesis
      using 1(2,3)
      by (cases hs; cases hs') (auto simp: GenMPTRoot.simps[of sha "[_]"])
  qed
qed

text \<open>C32: a Merkle root binds the transactions below it: two different blocks of the same number of
  transactions have different roots, as long as no two of the strings hashed on the way to the two
  roots collide and the hash has a fixed length.\<close>
theorem GenTxRoot_binding:
  assumes "length txs = length txs'" "map txHash txs \<noteq> map txHash txs'"
    and "\<And>tx. length (txHash tx) = L" "\<And>x. length (sha x) = L"
    and "inj_on sha (merkleInputs sha (map txHash txs) \<union> merkleInputs sha (map txHash txs'))"
  shows "GenTxRoot sha txHash txs \<noteq> GenTxRoot sha txHash txs'"
proof
  assume "GenTxRoot sha txHash txs = GenTxRoot sha txHash txs'"
  then have "map txHash txs = map txHash txs'"
    unfolding GenTxRoot_def by (rule GenMPTRoot_inj[where L = L]) (use assms in auto)
  with assms(2) show False ..
qed

text \<open>the padding makes the root ambiguous when the number of transactions may vary: a block with
  an odd number of transactions, three or more, has the root of the block in which the last one
  is there twice.\<close>
theorem GenTxRoot_duplicate_last:
  assumes "even (length txs)" "txs \<noteq> []"
  shows "GenTxRoot sha txHash (txs @ [tx]) = GenTxRoot sha txHash (txs @ [tx, tx])"
  using assms
  by (simp add: GenTxRoot_def GenMPTRoot.simps[of sha "map txHash txs @ _"] padLast_def)

definition oneByteHash :: "bytes \<Rightarrow> bytes" where
  \<comment> \<open>a hash of fixed length to evaluate examples with\<close>
  "oneByteHash x = [char_of (foldl (\<lambda>a c. 3 * a + of_char c) 7 x :: nat)]"

theorem GenTxRoot_binding_witness:
  "GenTxRoot oneByteHash (\<lambda>tx. oneByteHash (Sender tx))
     [NewTransaction ''a'' [] None 0 1, NewTransaction ''b'' [] None 0 1] \<noteq>
   GenTxRoot oneByteHash (\<lambda>tx. oneByteHash (Sender tx))
     [NewTransaction ''a'' [] None 0 1, NewTransaction ''c'' [] None 0 1]"
proof (rule GenTxRoot_binding[where L = 1])
  show "inj_on oneByteHash
     (merkleInputs oneByteHash (map (\<lambda>tx. oneByteHash (Sender tx))
        [NewTransaction ''a'' [] None 0 1, NewTransaction ''b'' [] None 0 1]) \<union>
      merkleInputs oneByteHash (map (\<lambda>tx. oneByteHash (Sender tx))
        [NewTransaction ''a'' [] None 0 1, NewTransaction ''c'' [] None 0 1]))"
    by (simp add: merkleInputs.simps padLast_def NewTransaction_def oneByteHash_def)
qed (simp_all add: NewTransaction_def oneByteHash_def)

theorem GenTxRoot_duplicate_last_witness:
  "GenTxRoot oneByteHash Sender [NewTransaction ''a'' [] None 0 1, NewTransaction ''b'' [] None 0 1, NewTransaction ''c'' [] None 0 1] =
   GenTxRoot oneByteHash Sender [NewTransaction ''a'' [] None 0 1, NewTransaction ''b'' [] None 0 1, NewTransaction ''c'' [] None 0 1,
                      NewTransaction ''c'' [] None 0 1]"
  using GenTxRoot_duplicate_last[of "[NewTransaction ''a'' [] None 0 1, NewTransaction ''b'' [] None 0 1]"
      oneByteHash Sender "NewTransaction ''c'' [] None 0 1"] by simp

subsection \<open>Addresses and shards\<close>

lemma hexVal_hexDigit: "d < 16 \<Longrightarrow> hexVal (hexDigit d) = Some d"
  by (simp add: hexVal_def hexDigit_def)

lemma parseHex_append: "parseHex acc (xs @ ys) = do { a \<leftarrow> parseHex acc xs; parseHex a ys }"
  by (induction xs arbitrary: acc) (auto split: Option.bind_split)

lemma parseHex_hexPad: "parseHex acc (hexPad k n) = Some (acc * 16 ^ k + n mod 16 ^ k)"
proof (induction k arbitrary: n)
  case (Suc k)
  have "n mod 16 ^ Suc k = 16 * (n div 16 mod 16 ^ k) + n mod 16"
    using mod_mult2_eq[of n 16 "16 ^ k"] by simp
  then show ?case by (simp add: Suc parseHex_append hexVal_hexDigit algebra_simps)
qed simp

lemma length_hexPad [simp]: "length (hexPad k n) = k"
  by (induction k arbitrary: n) auto

lemma hexPad_add: "hexPad (k + m) n = hexPad k (n div 16 ^ m) @ hexPad m n"
  by (induction m arbitrary: n) (auto simp: div_mult2_eq)

lemma drop_hexPad: "drop (length (xs @ hexPad 16 n) - 8) (xs @ hexPad 16 n) = hexPad 8 n"
  using hexPad_add[of 8 8 n] by simp

lemma inShard_default:
  assumes "n < 16 ^ 8"
  shows "inShard conf (xs @ hexPad 16 n) =
         (if pyrEnable (pyrConf conf) then if pyrShardAmount (pyrConf conf) = 0 then None
            else Some (n mod pyrShardAmount (pyrConf conf))
          else if fideEnable (fideConf conf) then if fideShardAmount (fideConf conf) = 0 then None
            else Some (n mod fideShardAmount (fideConf conf))
          else if monoEnable (monoConf conf) then if monoShardAmount (monoConf conf) = 0 then None
            else Some (n mod monoShardAmount (monoConf conf))
          else Some 0)"
proof -
  have "parseHex 0 (drop (length (xs @ hexPad 16 n) - 8) (xs @ hexPad 16 n)) = Some n"
    using assms by (simp only: drop_hexPad parseHex_hexPad) simp
  then show ?thesis by (simp add: inShard_def)
qed

lemma inShard_less:
  "inShard conf addr = Some s \<Longrightarrow>
   (pyrEnable (pyrConf conf) \<longrightarrow> s < pyrShardAmount (pyrConf conf)) \<and>
   (\<not> pyrEnable (pyrConf conf) \<and> fideEnable (fideConf conf) \<longrightarrow> s < fideShardAmount (fideConf conf)) \<and>
   (\<not> pyrEnable (pyrConf conf) \<and> \<not> fideEnable (fideConf conf) \<and> monoEnable (monoConf conf) \<longrightarrow>
      s < monoShardAmount (monoConf conf))"
  by (cases "pyrEnable (pyrConf conf)"; cases "fideEnable (fideConf conf)")
     (auto simp: inShard_def bind_eq_Some_conv split: if_splits)

subsection \<open>The configuration of the pyramid protocol\<close>

lemma mkConf_pyr:
  assumes "mkConf sha csc amount maxBlock = Some conf"
  shows "pyrShardAmount (pyrConf conf) = 6" "ShardDistribution (pyrConf conf) = initDistribution"
    "shardRoute (pyrConf conf) = shardRoute (route shipped)" "pyrEnable (pyrConf conf) = (csc = Pyramid)"
    "mapM (\<lambda>i. GenerateShardAddress sha (int i)) [0..<6] = Some (DefaultAddr (pyrConf conf))"
    "ShardAmount conf = amount" "MaxBlockSize conf = maxBlock" "txTest conf"
    "fideConf conf = InitFideConfig csc amount" "monoConf conf = InitMonoxideConfig csc amount"
  using assms shipped_connected
  by (auto simp: mkConf_def InitShardConfig_def bind_eq_Some_conv Let_def route_def shipped_def
      PyrShardAmount_def)

lemma GenerateShardAddress_suffix:
  assumes "GenerateShardAddress sha (int i) = Some a"
  shows "\<exists>xs. a = xs @ hexPad 16 i"
proof -
  have "a = (''0x'' @ take (length (hexEncode (sha (''shard-'' @ natDec i))) - 8)
                       (hexEncode (sha (''shard-'' @ natDec i)))) @ hexPad 16 i"
    using assms by (auto simp: GenerateShardAddress_def Let_def split: if_splits)
  then show ?thesis ..
qed

lemma mkConf_addr:
  assumes "mkConf sha csc amount maxBlock = Some conf" "i < 6"
  shows "\<exists>xs. DefaultAddr (pyrConf conf) ! i = xs @ hexPad 16 i" "length (DefaultAddr (pyrConf conf)) = 6"
proof -
  have a: "list_all2 (\<lambda>i y. GenerateShardAddress sha (int i) = Some y) [0..<6] (DefaultAddr (pyrConf conf))"
    using mkConf_pyr(5)[OF assms(1)] by (simp add: mapM_eq_Some)
  then show len: "length (DefaultAddr (pyrConf conf)) = 6" by (auto dest: list_all2_lengthD)
  have "GenerateShardAddress sha (int i) = Some (DefaultAddr (pyrConf conf) ! i)"
    using a assms(2) by (auto simp: list_all2_conv_all_nth)
  then show "\<exists>xs. DefaultAddr (pyrConf conf) ! i = xs @ hexPad 16 i"
    using GenerateShardAddress_suffix by fastforce
qed

lemma default_in_shard:
  assumes "mkConf sha Pyramid amount maxBlock = Some conf" "i < 6"
  shows "inShard conf (DefaultAddr (pyrConf conf) ! i) = Some i"
  using mkConf_addr(1)[OF assms] mkConf_pyr(1,4)[OF assms(1)] assms(2) inShard_default[of i conf]
  by auto

lemma shipped_route_ok:
  "s < 6 \<Longrightarrow> r < 6 \<Longrightarrow>
   \<exists>path. cell (shardRoute (route shipped)) s r = Some path \<and>
          (path = [] \<or> hd path = s \<and> last path = r \<and> set path \<subseteq> {..<6})"
proof -
  have "list_all (\<lambda>s. list_all (\<lambda>r. case cell (shardRoute (route shipped)) s r of None \<Rightarrow> False
          | Some path \<Rightarrow> path = [] \<or> hd path = s \<and> last path = r \<and> list_all (\<lambda>x. x < 6) path) [0..<6]) [0..<6]"
    by code_simp
  moreover assume "s < 6" "r < 6"
  ultimately have "case cell (shardRoute (route shipped)) s r of None \<Rightarrow> False
          | Some path \<Rightarrow> path = [] \<or> hd path = s \<and> last path = r \<and> list_all (\<lambda>x. x < 6) path"
    unfolding list_all_iff by simp
  then show ?thesis by (auto simp: list_all_iff split: option.splits)
qed

text \<open>a relay transaction of the pyramid protocol is split into a chain: one transaction per hop of
  the route, each leaving the shard the one before it arrived in, from the sender's shard to the
  recipient's, all with the value and the nonce of the transaction that is split.\<close>
theorem SplitRelay_chain:
  assumes "mkConf sha Pyramid amount maxBlock = Some conf"
    and "SInShard conf tx = Some s" "RInShard conf tx = Some r"
  shows "\<exists>path rtxs. GetRoute (pyrConf conf) s r = Some path \<and> SplitRelay conf tx = Some rtxs \<and>
           map (\<lambda>t. (SInShard conf t, RInShard conf t)) rtxs =
           map (\<lambda>(a, b). (Some a, Some b)) (zip path (tl path)) \<and>
           (path = [] \<or> hd path = s \<and> last path = r) \<and>
           (\<forall>t \<in> set rtxs. Amnt t = Amnt tx \<and> Nonce t = Nonce tx \<and> TxType t = RelayTx)"
proof -
  note pyr = mkConf_pyr[OF assms(1)]
  have less: "s < 6" "r < 6"
    using assms(2,3) pyr(1,4) inShard_less[of conf]
    by (auto simp: SInShard_def RInShard_def split: if_splits)
  obtain path where path: "GetRoute (pyrConf conf) s r = Some path"
    "path = [] \<or> hd path = s \<and> last path = r" "set path \<subseteq> {..<6}"
    using shipped_route_ok[OF less] pyr(3) by (auto simp: GetRoute_def)
  define rtx where "rtx a b = NewTransaction (DefaultAddr (pyrConf conf) ! a)
      (DefaultAddr (pyrConf conf) ! b) (Amnt tx) (Nonce tx) RelayTx" for a b
  have less6: "path ! i < 6" if "i < length path" for i
    using path(3) that by (auto simp: subset_iff)
  have addr: "length (DefaultAddr (pyrConf conf)) = 6" using mkConf_addr(2)[OF assms(1), of 0] by simp
  have "mapM (\<lambda>i. genRtx conf tx (path ! (i - 1)) (path ! i)) [1..<length path] =
        Some (map (\<lambda>i. rtx (path ! (i - 1)) (path ! i)) [1..<length path])"
    by (auto simp: mapM_eq_Some list_all2_conv_all_nth genRtx_def addr less6 rtx_def)
  then have split: "SplitRelay conf tx = Some (map (\<lambda>i. rtx (path ! (i - 1)) (path ! i)) [1..<length path])"
    using assms(2,3) path(1) by (simp add: SplitRelay_def)
  have shards: "SInShard conf (rtx a b) = Some a \<and> RInShard conf (rtx a b) = Some b" if "a < 6" "b < 6" for a b
    using default_in_shard[OF assms(1)] that
    by (simp add: rtx_def SInShard_def RInShard_def NewTransaction_def RelayTx_def RegisterTx_def)
  have "map (\<lambda>t. (SInShard conf t, RInShard conf t)) (map (\<lambda>i. rtx (path ! (i - 1)) (path ! i)) [1..<length path]) =
        map (\<lambda>(a, b). (Some a, Some b)) (zip path (tl path))"
    by (rule nth_equalityI) (auto simp: shards less6 nth_tl)
  then show ?thesis
    using path split by (intro exI conjI) (auto simp: rtx_def NewTransaction_def)
qed

subsection \<open>A configuration to evaluate examples with\<close>

definition demoSha :: "bytes \<Rightarrow> bytes" where
  "demoSha x = replicate 32 (CHR ''a'')"

definition demoConf :: "nat \<Rightarrow> Conf" where
  "demoConf csc = (case mkConf demoSha csc 6 4 of Some conf \<Rightarrow> conf | None \<Rightarrow> undefined)"

lemma length_hexEncode: "length (hexEncode bs) = 2 * length bs"
  by (induction bs) (auto simp: hexEncode_def)

lemma mkConf_succeeds:
  assumes "\<And>x. 4 \<le> length (sha x)"
  shows "mkConf sha csc amount maxBlock \<noteq> None"
proof -
  have "length (hexEncode (sha x)) \<ge> 8" for x
    using assms[of x] by (simp add: length_hexEncode)
  then have "GenerateShardAddress sha (int i) \<noteq> None" if "i < 6" for i
    using that by (simp add: GenerateShardAddress_def PyrShardAmount_def Let_def not_less)
  then have "list_all2 (\<lambda>i y. GenerateShardAddress sha (int i) = Some y) [0..<6]
      (map (\<lambda>i. the (GenerateShardAddress sha (int i))) [0..<6])"
    by (auto simp: list_all2_conv_all_nth)
  then obtain addrs where "mapM (\<lambda>i. GenerateShardAddress sha (int i)) [0..<PyrShardAmount] = Some addrs"
    unfolding PyrShardAmount_def mapM_eq_Some[symmetric] by blast
  then show ?thesis
    using shipped_connected by (simp add: mkConf_def InitShardConfig_def shipped_def Let_def)
qed

lemma demoConf: "mkConf demoSha csc 6 4 = Some (demoConf csc)"
  using mkConf_succeeds[of demoSha csc 6 4] by (auto simp: demoConf_def demoSha_def)

lemmas demoConf_simps = mkConf_pyr[OF demoConf]

definition demoTx :: "bytes \<Rightarrow> bytes \<Rightarrow> Transaction" where
  "demoTx s r = NewTransaction s r (Some 7) 1 RelayTx"

lemma demoTx_shards:
  "SInShard (demoConf Pyramid) (demoTx ''00000000'' ''00000005'') = Some 0"
  "RInShard (demoConf Pyramid) (demoTx ''00000000'' ''00000005'') = Some 5"
  by (simp_all add: SInShard_def RInShard_def inShard_def demoTx_def NewTransaction_def RelayTx_def
      RegisterTx_def hexVal_def demoConf_simps)

theorem SplitRelay_chain_witness:
  "\<exists>rtxs. SplitRelay (demoConf Pyramid) (demoTx ''00000000'' ''00000005'') = Some rtxs \<and>
          map (\<lambda>t. (SInShard (demoConf Pyramid) t, RInShard (demoConf Pyramid) t)) rtxs =
          [(Some 0, Some 1), (Some 1, Some 5)]"
  using SplitRelay_chain[OF demoConf demoTx_shards] demoConf_simps(3)[of Pyramid]
  by (auto simp: GetRoute_def shipped_routes cell_def)

end
