(* ===== verification/TxPool.thy ===== *)
theory TxPool
  imports Transaction
begin

text \<open>
  \<^verbatim>\<open>src/Tx/TxPool.go\<close> and \<^verbatim>\<open>src/Tx/TxList.go\<close>: the pool of pending transactions of a shard, a
  square of lists indexed by the sender's and the recipient's shard, each list a map from the hash
  of a transaction to the transaction.  \<open>localTxs\<close> is the list at \<open>localIndex\<close> on the diagonal:
  the code keeps a second pointer to the same object, which is never replaced.  A range loop over a
  list goes through the map in the order \<open>ord\<close>, any function that permutes; the theorems about
  packaging hold for all of them.
\<close>

type_synonym TxList = "(hash, Transaction) gomap"

definition listAppend :: "txHasher \<Rightarrow> Transaction \<Rightarrow> TxList \<Rightarrow> TxList" where
  "listAppend txHash tx lst = mput (txHash tx) tx lst"

definition listRemove :: "txHasher \<Rightarrow> Transaction \<Rightarrow> TxList \<Rightarrow> TxList" where
  "listRemove txHash tx lst = mdel (txHash tx) lst"

definition listTxExist :: "txHasher \<Rightarrow> Transaction \<Rightarrow> TxList \<Rightarrow> bool" where
  "listTxExist txHash tx lst = (mget lst (txHash tx) \<noteq> None)"

record Pool =
  TxLists :: "TxList list list"
  localIndex :: nat
  controls :: "bool list"

type_synonym mapOrder = "(hash \<times> Transaction) list \<Rightarrow> (hash \<times> Transaction) list"

definition NewTxPool :: "Conf \<Rightarrow> nat \<Rightarrow> Pool option" where
  "NewTxPool conf local =
     (let amount = ShardAmount conf; lists = replicate amount (replicate amount [])
      in do { cell lists local local;
              ctl \<leftarrow> (if pyrEnable (pyrConf conf) then slot (ShardDistribution (pyrConf conf)) local
                     else Some []);
              Some \<lparr>TxLists = lists, localIndex = local, controls = ctl\<rparr> })"

definition updList :: "nat \<Rightarrow> nat \<Rightarrow> (TxList \<Rightarrow> TxList) \<Rightarrow> Pool \<Rightarrow> Pool option" where
  \<comment> \<open>a change of the list \<open>pool.TxLists[s][r]\<close>\<close>
  "updList s r f pool =
     do { l \<leftarrow> cell (TxLists pool) s r;
          Some (pool\<lparr>TxLists := (TxLists pool)[s := (TxLists pool ! s)[r := f l]]\<rparr>) }"

definition appendHop :: "Conf \<Rightarrow> txHasher \<Rightarrow> Transaction \<Rightarrow> Pool \<Rightarrow> Pool option" where
  \<comment> \<open>the loop body of \<open>Append\<close> for one transaction of a split relay\<close>
  "appendHop conf txHash tx pool =
     do { s \<leftarrow> SInShard conf tx;
          r \<leftarrow> RInShard conf tx;
          a \<leftarrow> cell (ShardDistribution (pyrConf conf)) (localIndex pool) s;
          b \<leftarrow> (if a then Some True else cell (ShardDistribution (pyrConf conf)) (localIndex pool) r);
          if b then updList s r (listAppend txHash tx) pool else Some pool }"

definition Append :: "Conf \<Rightarrow> txHasher \<Rightarrow> Transaction \<Rightarrow> Pool \<Rightarrow> Pool option" where
  "Append conf txHash tx pool =
     do { s \<leftarrow> SInShard conf tx;
          r \<leftarrow> RInShard conf tx;
          if pyrEnable (pyrConf conf)
          then do { onRoute \<leftarrow> InRoute (pyrConf conf) (localIndex pool) r s;
                    if onRoute
                    then do { txs \<leftarrow> SplitRelay conf tx; foldM (appendHop conf txHash) txs pool }
                    else do { a \<leftarrow> slot (controls pool) s;
                              b \<leftarrow> (if a then Some True else slot (controls pool) r);
                              if b then updList s r (listAppend txHash tx) pool else Some pool } }
          else updList s r (listAppend txHash tx) pool }"

subsection \<open>Packaging\<close>

fun innerLoop :: "nat \<Rightarrow> Transaction list \<Rightarrow> Transaction list \<Rightarrow> Transaction list" where
  "innerLoop limit acc [] = acc"
| "innerLoop limit acc (tx # txs) =
     (if limit \<le> length (acc @ [tx]) then acc @ [tx] else innerLoop limit (acc @ [tx]) txs)"

definition PackageInnerTxs :: "Conf \<Rightarrow> mapOrder \<Rightarrow> Pool \<Rightarrow> Transaction list option" where
  "PackageInnerTxs conf ord pool =
     do { l \<leftarrow> cell (TxLists pool) (localIndex pool) (localIndex pool);
          Some (innerLoop (MaxBlockSize conf) [] (map snd (ord l))) }"

definition Amount :: "Pool \<Rightarrow> nat" where
  "Amount pool = sum_list (map (\<lambda>txLists. sum_list (map length txLists)) (TxLists pool))"

fun findBestLoop :: "Conf \<Rightarrow> bool list \<Rightarrow> nat \<Rightarrow> TxList list list \<Rightarrow> int \<Rightarrow> int \<Rightarrow> int option" where
  "findBestLoop conf ctl s [] maxCnt ret = Some ret"
| "findBestLoop conf ctl s (txLists # rest) maxCnt ret =
     do { take \<leftarrow> (if fideEnable (fideConf conf) \<and> StorageOptimize (fideConf conf) then slot ctl s
                  else Some True);
          if \<not> take then findBestLoop conf ctl (Suc s) rest maxCnt ret
          else let cnt = int (sum_list (map length txLists))
               in if cnt > maxCnt then findBestLoop conf ctl (Suc s) rest cnt (int s)
                  else findBestLoop conf ctl (Suc s) rest maxCnt ret }"

definition FindBest :: "Conf \<Rightarrow> Pool \<Rightarrow> int option" where
  "FindBest conf pool = findBestLoop conf (controls pool) 0 (TxLists pool) (-1) (-1)"

fun relayRound :: "nat \<Rightarrow> nat \<Rightarrow> (nat \<times> 'a list) list \<Rightarrow> 'a list list \<times> nat \<times> bool \<Rightarrow> 'a list list \<times> nat \<times> bool" where
  "relayRound limit round [] st = st"
| "relayRound limit round ((dest, list) # gs) (txs, cnt, added) =
     (let (txs', cnt', added') =
            (if length list > round then (txs[dest := txs ! dest @ [list ! round]], Suc cnt, True)
             else (txs, cnt, added))
      in if limit \<le> cnt' then (txs', cnt', added') else relayRound limit round gs (txs', cnt', added'))"

lemma relayRound_mono:
  "relayRound limit round gs (txs, cnt, added) = (txs', cnt', added') \<Longrightarrow>
   cnt \<le> cnt' \<and> (added' \<longrightarrow> added \<or> cnt < cnt')"
proof (induction limit round gs "(txs, cnt, added)" arbitrary: txs cnt added rule: relayRound.induct)
  case (2 limit round dest list gs txs cnt added)
  then show ?case by (fastforce simp: Let_def split: if_splits)
qed auto

function relayLoop :: "nat \<Rightarrow> (nat \<times> 'a list) list \<Rightarrow> nat \<Rightarrow> 'a list list \<Rightarrow> nat \<Rightarrow> 'a list list \<times> nat" where
  "relayLoop limit groups round txs cnt =
     (if cnt < limit
      then let (txs', cnt', added) = relayRound limit round groups (txs, cnt, False)
           in if added then relayLoop limit groups (Suc round) txs' cnt' else (txs', cnt')
      else (txs, cnt))"
  by pat_completeness auto
termination
proof (relation "measure (\<lambda>(limit, gs, round, txs, cnt). limit - cnt)", goal_cases)
  case (2 limit groups round txs cnt st txs' rest cnt' added)
  then show ?case using relayRound_mono[of limit round groups txs cnt False txs' cnt' added] by auto
qed simp

declare relayLoop.simps [simp del]

definition PackageRelayTxs :: "Conf \<Rightarrow> mapOrder \<Rightarrow> Pool \<Rightarrow> (Transaction list list \<times> int) option" where
  "PackageRelayTxs conf ord pool =
     (let amount = fideShardAmount (fideConf conf)
      in do { best \<leftarrow> FindBest conf pool;
              row \<leftarrow> (if best < 0 then None else slot (TxLists pool) (nat best));
              if length row > amount then None
              else let groups = map (\<lambda>list. map snd (ord list)) row @ replicate (amount - length row) [];
                       (txs, cnt) = relayLoop (MaxBlockSize conf) (zip [0..<amount] groups) 0
                                      (replicate amount []) 0
                   in Some (txs, best) })"

fun crossRound :: "nat \<Rightarrow> nat \<Rightarrow> 'a list list \<Rightarrow> 'a list \<Rightarrow> bool \<Rightarrow> 'a list \<times> bool" where
  "crossRound limit round [] acc added = (acc, added)"
| "crossRound limit round (grp # gs) acc added =
     (if round < length grp
      then let acc' = acc @ [grp ! round]
           in if limit \<le> length acc' then (acc', True) else crossRound limit round gs acc' True
      else crossRound limit round gs acc added)"

lemma crossRound_mono:
  "crossRound limit round gs acc added = (acc', added') \<Longrightarrow>
   length acc \<le> length acc' \<and> (added' \<longrightarrow> added \<or> length acc < length acc')"
  by (induction limit round gs acc added rule: crossRound.induct)
     (fastforce simp: Let_def split: if_splits)+

function crossLoop :: "nat \<Rightarrow> 'a list list \<Rightarrow> nat \<Rightarrow> 'a list \<Rightarrow> 'a list" where
  "crossLoop limit groups round acc =
     (if length acc < limit
      then let (acc', added) = crossRound limit round groups acc False
           in if added then crossLoop limit groups (Suc round) acc' else acc'
      else acc)"
  by pat_completeness auto
termination
proof (relation "measure (\<lambda>(limit, gs, round, acc). limit - length acc)", goal_cases)
  case (2 limit groups round acc st acc' added)
  then show ?case using crossRound_mono[of limit round groups acc False acc' added] by auto
qed simp

declare crossLoop.simps [simp del]

definition crossCandidate :: "Pool \<Rightarrow> nat \<times> nat \<Rightarrow> bool option" where
  \<comment> \<open>\<open>i != j && pool.controls[i] && pool.controls[j]\<close>\<close>
  "crossCandidate pool = (\<lambda>(i, j).
     if i = j then Some False
     else do { a \<leftarrow> slot (controls pool) i; if a then slot (controls pool) j else Some False })"

definition PackageCrossTxs :: "Conf \<Rightarrow> mapOrder \<Rightarrow> Pool \<Rightarrow> Transaction list option" where
  "PackageCrossTxs conf ord pool =
     (if \<not> pyrEnable (pyrConf conf) then None
      else do { ijs \<leftarrow> filterM (crossCandidate pool)
                        (concat (map (\<lambda>i. map (Pair i) [0..<length (TxLists pool ! i)])
                                     [0..<length (TxLists pool)]));
                Some (crossLoop (MaxBlockSize conf)
                        (map (\<lambda>(i, j). map snd (ord (TxLists pool ! i ! j))) ijs) 0 []) })"

definition PackageTxsFrom :: "Conf \<Rightarrow> mapOrder \<Rightarrow> Pool \<Rightarrow> nat \<Rightarrow> Transaction list option" where
  "PackageTxsFrom conf ord pool sid =
     do { row \<leftarrow> slot (TxLists pool) sid;
          let txs = concat (map (\<lambda>list. map snd (ord list)) row)
          in if monoShardAmount (monoConf conf) = 0 then None
             else Some (take (MaxBlockSize conf div monoShardAmount (monoConf conf)) txs) }"

definition PackageCrossTx :: "mapOrder \<Rightarrow> Pool \<Rightarrow> nat \<Rightarrow> Transaction list option" where
  "PackageCrossTx ord pool dest =
     do { l \<leftarrow> cell (TxLists pool) (localIndex pool) dest; Some (map snd (ord l)) }"

subsection \<open>Removal and the rest\<close>

definition TxExist :: "Conf \<Rightarrow> txHasher \<Rightarrow> Transaction \<Rightarrow> Pool \<Rightarrow> bool option" where
  "TxExist conf txHash tx pool =
     do { s \<leftarrow> SInShard conf tx;
          r \<leftarrow> RInShard conf tx;
          l \<leftarrow> cell (TxLists pool) s r;
          Some (listTxExist txHash tx l) }"

definition removeOne :: "Conf \<Rightarrow> txHasher \<Rightarrow> Transaction \<Rightarrow> Pool \<Rightarrow> Pool option" where
  "removeOne conf txHash tx pool =
     do { TxExist conf txHash tx pool;
          s \<leftarrow> SInShard conf tx;
          r \<leftarrow> RInShard conf tx;
          updList s r (listRemove txHash tx) pool }"

definition RemoveTxs :: "Conf \<Rightarrow> txHasher \<Rightarrow> Transaction list \<Rightarrow> Pool \<Rightarrow> Pool option" where
  "RemoveTxs conf txHash txs pool = foldM (removeOne conf txHash) txs pool"

definition appendRelayOne :: "Conf \<Rightarrow> txHasher \<Rightarrow> Transaction \<Rightarrow> Pool \<Rightarrow> Pool option" where
  "appendRelayOne conf txHash tx pool =
     (if TxType tx = RelayDump then Some pool
      else do { s \<leftarrow> SInShard conf tx;
                r \<leftarrow> RInShard conf tx;
                if s \<noteq> r then Append conf txHash (tx\<lparr>TxType := RelayDump\<rparr>) pool else Some pool })"

definition AppendRelay :: "Conf \<Rightarrow> txHasher \<Rightarrow> Transaction list \<Rightarrow> Pool \<Rightarrow> Pool option" where
  "AppendRelay conf txHash intra pool = foldM (appendRelayOne conf txHash) intra pool"

definition extraControls :: "nat \<Rightarrow> nat list" where
  \<comment> \<open>the shards the \<open>switch\<close> of \<open>ResetControl\<close> adds\<close>
  "extraControls amount =
     (if amount = 8 then [5] else if amount = 16 then [13]
      else if amount = 32 then [29, 27, 28, 1] else [])"

definition ResetControl :: "Conf \<Rightarrow> Pool \<Rightarrow> Pool option" where
  "ResetControl conf pool =
     (let amount = fideShardAmount (fideConf conf); ctl = replicate amount False
      in if fideEnable (fideConf conf)
         then do { ctl \<leftarrow> foldM (\<lambda>i c. setSlot c i True) (extraControls amount @ [localIndex pool]) ctl;
                   Some (pool\<lparr>controls := ctl\<rparr>) }
         else Some (pool\<lparr>controls := ctl\<rparr>))"

subsection \<open>The round robin is fair and fills the block\<close>

definition staged :: "'a list list \<Rightarrow> nat \<Rightarrow> nat \<Rightarrow> 'a list list" where
  \<comment> \<open>what has been taken from each group in \<open>rnd\<close> rounds, and in the next up to the group \<open>k\<close>\<close>
  "staged gs rnd k = map (\<lambda>d. take (if d < k then Suc rnd else rnd) (gs ! d)) [0..<length gs]"

lemma length_staged [simp]: "length (staged gs rnd k) = length gs"
  by (simp add: staged_def)

lemma nth_staged: "d < length gs \<Longrightarrow> staged gs rnd k ! d = take (if d < k then Suc rnd else rnd) (gs ! d)"
  by (simp add: staged_def)

lemma staged_0: "staged gs 0 0 = replicate (length gs) []"
  by (intro nth_equalityI) (auto simp: nth_staged)

lemma staged_round: "staged gs rnd (length gs) = staged gs (Suc rnd) 0"
  by (simp add: staged_def)

lemma staged_skip: "k < length gs \<Longrightarrow> length (gs ! k) \<le> rnd \<Longrightarrow> staged gs rnd (Suc k) = staged gs rnd k"
  by (rule nth_equalityI) (auto simp: nth_staged less_Suc_eq)

lemma staged_take:
  "k < length gs \<Longrightarrow> rnd < length (gs ! k) \<Longrightarrow>
   staged gs rnd (Suc k) = (staged gs rnd k)[k := staged gs rnd k ! k @ [gs ! k ! rnd]]"
  by (rule nth_equalityI) (auto simp: nth_staged nth_list_update less_Suc_eq take_Suc_conv_app_nth)

lemma length_concat_update:
  "k < length xs \<Longrightarrow> length (concat (xs[k := xs ! k @ [x]])) = Suc (length (concat xs))"
  by (induction xs arbitrary: k) (auto split: nat.split)

lemma staged_all:
  "\<forall>d < length gs. length (gs ! d) \<le> rnd \<Longrightarrow> staged gs rnd k = gs"
  by (intro nth_equalityI) (auto simp: nth_staged)

definition filled :: "nat \<Rightarrow> 'a list list \<Rightarrow> nat \<Rightarrow> nat \<Rightarrow> bool" where
  \<comment> \<open>the selection respects the limit, and only an empty pool leaves room\<close>
  "filled limit gs rnd k \<longleftrightarrow>
     length (concat (staged gs rnd k)) \<le> limit \<and>
     (length (concat (staged gs rnd k)) < limit \<longrightarrow> staged gs rnd k = gs)"

lemma zip_upt_drop:
  "k < length gs \<Longrightarrow> zip [k..<length gs] (drop k gs) = (k, gs ! k) # zip [Suc k..<length gs] (drop (Suc k) gs)"
  by (simp add: upt_conv_Cons Cons_nth_drop_Suc[symmetric])

definition roundEnd :: "nat \<Rightarrow> 'a list list \<Rightarrow> nat \<Rightarrow> nat \<Rightarrow> bool \<Rightarrow> nat \<Rightarrow> bool \<Rightarrow> bool" where
  \<comment> \<open>a round that goes on at the group \<open>k\<close> may stop at \<open>k'\<close>\<close>
  "roundEnd limit gs rnd k added k' added' \<longleftrightarrow>
     k \<le> k' \<and> k' \<le> length gs \<and> length (concat (staged gs rnd k')) \<le> limit \<and>
     (length (concat (staged gs rnd k')) < limit \<longrightarrow> k' = length gs) \<and>
     added' = (added \<or> (\<exists>d \<ge> k. d < k' \<and> rnd < length (gs ! d)))"

lemma roundEnd_skip:
  "roundEnd limit gs rnd (Suc k) added k' added' \<Longrightarrow> length (gs ! k) \<le> rnd \<Longrightarrow>
   roundEnd limit gs rnd k added k' added'"
  unfolding roundEnd_def by (metis Suc_le_eq leD le_neq_implies_less less_imp_le_nat)

lemma roundEnd_take:
  "roundEnd limit gs rnd (Suc k) True k' added' \<Longrightarrow> rnd < length (gs ! k) \<Longrightarrow>
   roundEnd limit gs rnd k added k' added'"
  by (auto simp: roundEnd_def Suc_le_eq)

lemma length_staged_take:
  assumes "k < length gs" "rnd < length (gs ! k)"
  shows "length (concat (staged gs rnd (Suc k))) = Suc (length (concat (staged gs rnd k)))"
  unfolding staged_take[OF assms] by (rule length_concat_update) (simp add: assms)

lemma roundEnd_stop:
  "k \<le> length gs \<Longrightarrow> length (concat (staged gs rnd k)) \<le> limit \<Longrightarrow>
   (length (concat (staged gs rnd k)) < limit \<Longrightarrow> k = length gs) \<Longrightarrow> roundEnd limit gs rnd k added k added"
  by (auto simp: roundEnd_def)

lemma relayRound_spec:
  "k \<le> length gs \<Longrightarrow> length (concat (staged gs rnd k)) < limit \<Longrightarrow>
   \<exists>k' added'. relayRound limit rnd (zip [k..<length gs] (drop k gs))
       (staged gs rnd k, length (concat (staged gs rnd k)), added) =
       (staged gs rnd k', length (concat (staged gs rnd k')), added') \<and>
     roundEnd limit gs rnd k added k' added'"
proof (induction "length gs - k" arbitrary: k added)
  case 0
  then show ?case using roundEnd_stop[of k gs rnd limit added] by (intro exI[of _ k] exI[of _ added]) auto
next
  case (Suc m)
  then have k: "k < length gs" "m = length gs - Suc k" "Suc k \<le> length gs" by auto
  let ?gs = "zip [Suc k..<length gs] (drop (Suc k) gs)" and ?n = "length (concat (staged gs rnd k))"
  note IH = Suc.hyps(1)[OF k(2,3)]
  show ?case
  proof (cases "rnd < length (gs ! k)")
    case False
    then have skip: "staged gs rnd (Suc k) = staged gs rnd k" using k by (simp add: staged_skip)
    from IH[of added] Suc.prems(2) obtain k' added' where
      "relayRound limit rnd ?gs (staged gs rnd k, ?n, added) =
         (staged gs rnd k', length (concat (staged gs rnd k')), added')"
      "roundEnd limit gs rnd (Suc k) added k' added'"
      unfolding skip by blast
    then show ?thesis
      using False Suc.prems(2) roundEnd_skip[of limit gs rnd k added k' added']
      by (intro exI[of _ k'] exI[of _ added']) (simp add: zip_upt_drop[OF k(1)])
  next
    case True
    note upd = staged_take[OF k(1) True] and len = length_staged_take[OF k(1) True]
    have unfold: "relayRound limit rnd (zip [k..<length gs] (drop k gs)) (staged gs rnd k, ?n, added) =
        (if limit \<le> Suc ?n then (staged gs rnd (Suc k), Suc ?n, True)
         else relayRound limit rnd ?gs (staged gs rnd (Suc k), Suc ?n, True))"
      using True by (simp add: zip_upt_drop[OF k(1)] upd Let_def)
    show ?thesis
    proof (cases "limit \<le> Suc ?n")
      case full: True
      have "roundEnd limit gs rnd (Suc k) True (Suc k) True"
        using full Suc.prems(2) k len by (intro roundEnd_stop) auto
      with True have "roundEnd limit gs rnd k added (Suc k) True" by (rule roundEnd_take[rotated])
      then show ?thesis
        unfolding unfold using full len by (intro exI[of _ "Suc k"] exI[of _ True]) simp
    next
      case False
      then obtain k' added' where
        "relayRound limit rnd ?gs (staged gs rnd (Suc k), Suc ?n, True) =
           (staged gs rnd k', length (concat (staged gs rnd k')), added')"
        "roundEnd limit gs rnd (Suc k) True k' added'"
        using IH[of True] len by auto
      then show ?thesis
        unfolding unfold using False roundEnd_take[OF _ True]
        by (intro exI[of _ k'] exI[of _ added']) simp
    qed
  qed
qed

lemma roundEnd_filled:
  assumes "roundEnd limit gs rnd 0 False k' added'"
    and "added' \<Longrightarrow> \<not> length (concat (staged gs rnd k')) < limit"
  shows "filled limit gs rnd k'"
proof (cases added')
  case True
  then show ?thesis using assms by (auto simp: filled_def roundEnd_def)
next
  case False
  then have "staged gs rnd k' = gs" if "k' = length gs"
    using assms(1) that by (intro staged_all) (metis le0 not_less roundEnd_def)
  then show ?thesis using assms(1) by (auto simp: filled_def roundEnd_def)
qed

lemma relayLoop_spec:
  assumes "length (concat (staged gs rnd 0)) \<le> limit"
  shows "\<exists>rnd' k'. relayLoop limit (zip [0..<length gs] gs) rnd (staged gs rnd 0)
             (length (concat (staged gs rnd 0))) =
           (staged gs rnd' k', length (concat (staged gs rnd' k'))) \<and> filled limit gs rnd' k'"
  using assms
proof (induction "limit - length (concat (staged gs rnd 0))" arbitrary: rnd rule: less_induct)
  case less
  let ?n = "length (concat (staged gs rnd 0))"
  show ?case
  proof (cases "?n < limit")
    case False
    then show ?thesis
      using less.prems
      by (intro exI[of _ rnd] exI[of _ 0]) (subst relayLoop.simps, simp add: filled_def)
  next
    case True
    from relayRound_spec[of 0 gs rnd limit False, OF _ True] obtain k' added' where r:
      "relayRound limit rnd (zip [0..<length gs] gs) (staged gs rnd 0, ?n, False) =
         (staged gs rnd k', length (concat (staged gs rnd k')), added')"
      "roundEnd limit gs rnd 0 False k' added'"
      by auto
    have more: "?n < length (concat (staged gs rnd k'))" if added'
      using relayRound_mono[OF r(1)] that by simp
    show ?thesis
    proof (cases "added' \<and> length (concat (staged gs rnd k')) < limit")
      case go: True
      then have next': "staged gs rnd k' = staged gs (Suc rnd) 0"
        using r(2) staged_round by (metis roundEnd_def)
      have "\<exists>rnd' k''. relayLoop limit (zip [0..<length gs] gs) (Suc rnd) (staged gs (Suc rnd) 0)
             (length (concat (staged gs (Suc rnd) 0))) =
           (staged gs rnd' k'', length (concat (staged gs rnd' k''))) \<and> filled limit gs rnd' k''"
        by (rule less.hyps) (use go more True next' in auto)
      then show ?thesis
        using True go by (subst relayLoop.simps) (simp add: r(1) next')
    next
      case stop: False
      have "filled limit gs rnd k'" by (rule roundEnd_filled[OF r(2)]) (use stop in simp)
      moreover have "relayLoop limit (zip [0..<length gs] gs) rnd (staged gs rnd 0) ?n =
          (staged gs rnd k', length (concat (staged gs rnd k')))"
        using True stop by (subst relayLoop.simps) (auto simp: r(1) relayLoop.simps)
      ultimately show ?thesis by blast
    qed
  qed
qed

lemma mset_concat_update:
  "k < length xs \<Longrightarrow> mset (concat (xs[k := xs ! k @ [x]])) = add_mset x (mset (concat xs))"
  by (induction xs arbitrary: k) (auto split: nat.split)

lemma crossRound_spec:
  "k \<le> length gs \<Longrightarrow> mset acc = mset (concat (staged gs rnd k)) \<Longrightarrow> length acc < limit \<Longrightarrow>
   \<exists>k' acc' added'. crossRound limit rnd (drop k gs) acc added = (acc', added') \<and>
     mset acc' = mset (concat (staged gs rnd k')) \<and> roundEnd limit gs rnd k added k' added'"
proof (induction "length gs - k" arbitrary: k acc added)
  case 0
  have "length (concat (staged gs rnd k)) = length acc" using mset_eq_length[OF 0(3)] by simp
  then show ?case
    using 0 roundEnd_stop[of k gs rnd limit added]
    by (intro exI[of _ k] exI[of _ acc] exI[of _ added]) auto
next
  case (Suc m)
  then have k: "k < length gs" "m = length gs - Suc k" "Suc k \<le> length gs" by auto
  have n: "length (concat (staged gs rnd k)) = length acc" using mset_eq_length[OF Suc.prems(2)] by simp
  have dr: "drop k gs = gs ! k # drop (Suc k) gs" using k by (simp add: Cons_nth_drop_Suc)
  note IH = Suc.hyps(1)[OF k(2,3)]
  show ?case
  proof (cases "rnd < length (gs ! k)")
    case False
    then have skip: "staged gs rnd (Suc k) = staged gs rnd k" using k by (simp add: staged_skip)
    from IH[of acc added] Suc.prems(2,3) obtain k' acc' added' where
      "crossRound limit rnd (drop (Suc k) gs) acc added = (acc', added')"
      "mset acc' = mset (concat (staged gs rnd k'))" "roundEnd limit gs rnd (Suc k) added k' added'"
      unfolding skip by blast
    then show ?thesis
      using False roundEnd_skip[of limit gs rnd k added k' added']
      by (intro exI[of _ k'] exI[of _ acc'] exI[of _ added']) (simp add: dr)
  next
    case True
    let ?acc = "acc @ [gs ! k ! rnd]"
    have m: "mset ?acc = mset (concat (staged gs rnd (Suc k)))"
      unfolding staged_take[OF k(1) True] using Suc.prems(2) k
      by (simp add: mset_concat_update del: mset_concat)
    have unfold: "crossRound limit rnd (drop k gs) acc added =
        (if limit \<le> length ?acc then (?acc, True) else crossRound limit rnd (drop (Suc k) gs) ?acc True)"
      using True by (simp add: dr Let_def)
    show ?thesis
    proof (cases "limit \<le> length ?acc")
      case full: True
      have "roundEnd limit gs rnd (Suc k) True (Suc k) True"
        using full Suc.prems(3) k mset_eq_length[OF m] by (intro roundEnd_stop) auto
      with True have "roundEnd limit gs rnd k added (Suc k) True" by (rule roundEnd_take[rotated])
      then show ?thesis
        unfolding unfold using full m by (intro exI[of _ "Suc k"] exI[of _ ?acc] exI[of _ True]) simp
    next
      case False
      then obtain k' acc' added' where "crossRound limit rnd (drop (Suc k) gs) ?acc True = (acc', added')"
        "mset acc' = mset (concat (staged gs rnd k'))" "roundEnd limit gs rnd (Suc k) True k' added'"
        using IH[OF m, of True] by auto
      then show ?thesis
        unfolding unfold using False roundEnd_take[OF _ True]
        by (intro exI[of _ k'] exI[of _ acc'] exI[of _ added']) simp
    qed
  qed
qed

lemma crossLoop_spec:
  "mset acc = mset (concat (staged gs rnd 0)) \<Longrightarrow> length acc \<le> limit \<Longrightarrow>
   \<exists>rnd' k'. mset (crossLoop limit gs rnd acc) = mset (concat (staged gs rnd' k')) \<and> filled limit gs rnd' k'"
proof (induction "limit - length acc" arbitrary: rnd acc rule: less_induct)
  case less
  have n: "length (concat (staged gs rnd 0)) = length acc" using mset_eq_length[OF less.prems(1)] by simp
  show ?case
  proof (cases "length acc < limit")
    case False
    then show ?thesis
      using less.prems n
      by (intro exI[of _ rnd] exI[of _ 0]) (subst crossLoop.simps, simp add: filled_def)
  next
    case True
    from crossRound_spec[OF _ less.prems(1) True, of False] obtain k' acc' added' where r:
      "crossRound limit rnd gs acc False = (acc', added')"
      "mset acc' = mset (concat (staged gs rnd k'))" "roundEnd limit gs rnd 0 False k' added'"
      by auto
    note len = mset_eq_length[OF r(2)]
    have more: "length acc < length acc'" if added'
      using crossRound_mono[OF r(1)] that by simp
    show ?thesis
    proof (cases "added' \<and> length acc' < limit")
      case go: True
      then have next': "staged gs rnd k' = staged gs (Suc rnd) 0"
        using r(3) staged_round len by (metis roundEnd_def)
      have "\<exists>rnd' k''. mset (crossLoop limit gs (Suc rnd) acc') = mset (concat (staged gs rnd' k'')) \<and>
          filled limit gs rnd' k''"
        by (rule less.hyps) (use go more True next' r(2) in auto)
      then show ?thesis
        using True go by (subst crossLoop.simps) (simp add: r(1))
    next
      case stop: False
      have "filled limit gs rnd k'" by (rule roundEnd_filled[OF r(3)]) (use stop len in simp)
      moreover have "crossLoop limit gs rnd acc = acc'"
        using True stop by (subst crossLoop.simps) (auto simp: r(1) crossLoop.simps)
      ultimately show ?thesis using r(2) by auto
    qed
  qed
qed

subsection \<open>Every transaction is in its own list\<close>

definition poolOk :: "Conf \<Rightarrow> txHasher \<Rightarrow> Pool \<Rightarrow> bool" where
  "poolOk conf txHash pool \<longleftrightarrow>
     (\<forall>s r l. cell (TxLists pool) s r = Some l \<longrightarrow>
        mwf l \<and> (\<forall>h t. mget l h = Some t \<longrightarrow>
          h = txHash t \<and> SInShard conf t = Some s \<and> RInShard conf t = Some r))"

lemma cell_Some_iff: "cell m i j = Some x \<longleftrightarrow> i < length m \<and> j < length (m ! i) \<and> m ! i ! j = x"
  by (auto simp: cell_def)

lemma updList_Some:
  "updList s r f pool = Some pool' \<longleftrightarrow>
   (\<exists>l. cell (TxLists pool) s r = Some l \<and>
        pool' = pool\<lparr>TxLists := (TxLists pool)[s := (TxLists pool ! s)[r := f l]]\<rparr>)"
  by (auto simp: updList_def bind_eq_Some_conv)

lemma updList_cell:
  assumes "updList s r f pool = Some pool'"
  shows "cell (TxLists pool') s' r' =
         (if s' = s \<and> r' = r then map_option f (cell (TxLists pool) s r) else cell (TxLists pool) s' r')"
    "localIndex pool' = localIndex pool" "controls pool' = controls pool"
  using assms by (auto simp: updList_Some cell_def nth_list_update split: if_splits)

lemma updList_None: "updList s r f pool = None \<longleftrightarrow> cell (TxLists pool) s r = None"
  by (auto simp: updList_def split: Option.bind_split)

lemma poolOk_add:
  assumes "poolOk conf txHash pool" "updList s r (listAppend txHash tx) pool = Some pool'"
    and "SInShard conf tx = Some s" "RInShard conf tx = Some r"
  shows "poolOk conf txHash pool'"
  using assms(1,3,4) unfolding poolOk_def updList_cell(1)[OF assms(2)]
  by (auto simp: listAppend_def mget_mput split: if_splits)

lemma poolOk_del:
  assumes "poolOk conf txHash pool" "updList s r (listRemove txHash tx) pool = Some pool'"
  shows "poolOk conf txHash pool'"
  using assms(1) unfolding poolOk_def updList_cell(1)[OF assms(2)]
  by (auto simp: listRemove_def mget_mdel split: if_splits)

lemma poolOk_appendHop:
  "poolOk conf txHash pool \<Longrightarrow> appendHop conf txHash tx pool = Some pool' \<Longrightarrow> poolOk conf txHash pool'"
  by (auto simp: appendHop_def bind_eq_Some_conv intro: poolOk_add split: if_splits)

lemma poolOk_Append:
  assumes "poolOk conf txHash pool" "Append conf txHash tx pool = Some pool'"
  shows "poolOk conf txHash pool'"
proof -
  have "poolOk conf txHash p'" if "foldM (appendHop conf txHash) txs pool = Some p'" for txs p'
    using that by (rule foldM_invariant[where P = "poolOk conf txHash"]) (auto intro: assms(1) poolOk_appendHop)
  then show ?thesis
    using assms by (auto simp: Append_def bind_eq_Some_conv intro: poolOk_add split: if_splits)
qed

lemma poolOk_removeOne:
  "poolOk conf txHash pool \<Longrightarrow> removeOne conf txHash tx pool = Some pool' \<Longrightarrow> poolOk conf txHash pool'"
  by (auto simp: removeOne_def bind_eq_Some_conv intro: poolOk_del)

lemma poolOk_RemoveTxs:
  "poolOk conf txHash pool \<Longrightarrow> RemoveTxs conf txHash txs pool = Some pool' \<Longrightarrow> poolOk conf txHash pool'"
  unfolding RemoveTxs_def
  by (erule foldM_invariant[where P = "poolOk conf txHash"]) (auto intro: poolOk_removeOne)

lemma poolOk_AppendRelay:
  assumes "poolOk conf txHash pool" "AppendRelay conf txHash txs pool = Some pool'"
  shows "poolOk conf txHash pool'"
  using assms(2) unfolding AppendRelay_def
  by (rule foldM_invariant[where P = "poolOk conf txHash"])
     (auto simp: assms(1) appendRelayOne_def bind_eq_Some_conv intro: poolOk_Append split: if_splits)

lemma poolOk_ResetControl:
  "poolOk conf txHash pool \<Longrightarrow> ResetControl conf pool = Some pool' \<Longrightarrow> poolOk conf txHash pool'"
  by (auto simp: ResetControl_def bind_eq_Some_conv poolOk_def Let_def split: if_splits)

lemma poolOk_New: "NewTxPool conf local = Some pool \<Longrightarrow> poolOk conf txHash pool"
  by (auto simp: NewTxPool_def bind_eq_Some_conv poolOk_def cell_def Let_def mwf_def)

datatype PoolOp =
    PAppend Transaction
  | PRemove "Transaction list"
  | PRelay "Transaction list"
  | PReset

fun poolStep :: "Conf \<Rightarrow> txHasher \<Rightarrow> PoolOp \<Rightarrow> Pool \<Rightarrow> Pool option" where
  \<comment> \<open>the operations that change a pool\<close>
  "poolStep conf txHash (PAppend tx) pool = Append conf txHash tx pool"
| "poolStep conf txHash (PRemove txs) pool = RemoveTxs conf txHash txs pool"
| "poolStep conf txHash (PRelay txs) pool = AppendRelay conf txHash txs pool"
| "poolStep conf txHash PReset pool = ResetControl conf pool"

interpretation pool_machine: machine "poolStep conf txHash" "poolOk conf txHash" for conf txHash
proof
  fix pool x pool'
  assume "poolOk conf txHash pool" "poolStep conf txHash x pool = Some pool'"
  then show "poolOk conf txHash pool'"
    by (cases x) (auto intro: poolOk_Append poolOk_RemoveTxs poolOk_AppendRelay poolOk_ResetControl)
qed

text \<open>whatever is done to a pool after \<open>NewTxPool\<close>, every list holds each transaction once, under
  its own hash, and only transactions from the shard of its row to the shard of its column.\<close>
theorem pool_placement:
  assumes "NewTxPool conf local = Some pool0" "foldM (poolStep conf txHash) ops pool0 = Some pool"
    and "cell (TxLists pool) s r = Some l"
  shows "distinct (map fst l) \<and>
         (\<forall>(h, t) \<in> set l. h = txHash t \<and> SInShard conf t = Some s \<and> RInShard conf t = Some r)"
proof -
  have "poolOk conf txHash pool"
    by (rule pool_machine.run_inv[OF poolOk_New[OF assms(1)] assms(2)])
  then have l: "mwf l" "\<And>h t. mget l h = Some t \<Longrightarrow>
      h = txHash t \<and> SInShard conf t = Some s \<and> RInShard conf t = Some r"
    using assms(3) by (auto simp: poolOk_def)
  show ?thesis
  proof (intro conjI ballI)
    show "distinct (map fst l)" using l(1) by (simp add: mwf_def)
    fix x assume "x \<in> set l"
    then show "case x of (h, t) \<Rightarrow> h = txHash t \<and> SInShard conf t = Some s \<and> RInShard conf t = Some r"
      using l(2)[of "fst x" "snd x"] set_mwf_iff[OF l(1), of "fst x" "snd x"] by (simp add: split_beta)
  qed
qed

subsection \<open>Removal is exact and nothing is lost\<close>

lemma TxExist_cell:
  "SInShard conf u = Some s \<Longrightarrow> RInShard conf u = Some r \<Longrightarrow>
   TxExist conf txHash u pool = map_option (\<lambda>l. mget l (txHash u) \<noteq> None) (cell (TxLists pool) s r)"
  by (cases "cell (TxLists pool) s r") (simp_all add: TxExist_def listTxExist_def)

definition hits :: "Conf \<Rightarrow> txHasher \<Rightarrow> Transaction \<Rightarrow> Transaction \<Rightarrow> bool" where
  \<comment> \<open>the two transactions are one entry of the pool\<close>
  "hits conf txHash t u \<longleftrightarrow>
     txHash t = txHash u \<and> SInShard conf t = SInShard conf u \<and> RInShard conf t = RInShard conf u"

lemma removeOne_TxExist:
  assumes "removeOne conf txHash t pool = Some pool'"
    and "SInShard conf u = Some s" "RInShard conf u = Some r"
  shows "TxExist conf txHash u pool' = map_option (\<lambda>e. e \<and> \<not> hits conf txHash t u) (TxExist conf txHash u pool)"
proof -
  obtain s' r' where t: "SInShard conf t = Some s'" "RInShard conf t = Some r'"
    "updList s' r' (listRemove txHash t) pool = Some pool'"
    using assms(1) by (auto simp: removeOne_def bind_eq_Some_conv)
  show ?thesis
    using assms(2,3) t(1,2)
    by (cases "cell (TxLists pool) s r")
       (auto simp: TxExist_cell updList_cell(1)[OF t(3)] listRemove_def mget_mdel hits_def)
qed

text \<open>\<open>RemoveTxs\<close> takes out of the pool exactly the given transactions: another one is found
  afterwards if and only if it was found before and is not one of them.\<close>
theorem RemoveTxs_exact:
  assumes "RemoveTxs conf txHash txs pool = Some pool'"
    and "SInShard conf u = Some s" "RInShard conf u = Some r"
  shows "TxExist conf txHash u pool' =
         map_option (\<lambda>e. e \<and> \<not> (\<exists>t \<in> set txs. txHash t = txHash u \<and>
             SInShard conf t = SInShard conf u \<and> RInShard conf t = RInShard conf u))
           (TxExist conf txHash u pool)"
  using assms(1) unfolding RemoveTxs_def
proof (induction txs arbitrary: pool)
  case Nil
  then show ?case by (cases "TxExist conf txHash u pool'") auto
next
  case (Cons t txs)
  then obtain p1 where p1: "removeOne conf txHash t pool = Some p1" "foldM (removeOne conf txHash) txs p1 = Some pool'"
    by (auto simp: bind_eq_Some_conv)
  show ?case
    unfolding Cons.IH[OF p1(2)] removeOne_TxExist[OF p1(1) assms(2,3)]
    by (cases "TxExist conf txHash u pool") (auto simp: hits_def)
qed

text \<open>Outside Pyramid, \<open>Append\<close> puts a transaction into the list of its shards and changes nothing else.\<close>
lemma Append_TxExist:
  assumes "Append conf txHash t pool = Some pool'" "\<not> pyrEnable (pyrConf conf)" "SInShard conf u = Some s" "RInShard conf u = Some r"
  shows "TxExist conf txHash u pool' = map_option (\<lambda>e. e \<or> hits conf txHash t u) (TxExist conf txHash u pool)"
proof -
  obtain s' r' where t: "SInShard conf t = Some s'" "RInShard conf t = Some r'"
    "updList s' r' (listAppend txHash t) pool = Some pool'"
    using assms(1,2) by (auto simp: Append_def bind_eq_Some_conv)
  show ?thesis
    using assms(3,4) t(1,2)
    by (cases "cell (TxLists pool) s r")
       (auto simp: TxExist_cell updList_cell(1)[OF t(3)] listAppend_def mget_mput hits_def)
qed

lemma Appends_TxExist:
  assumes "foldM (Append conf txHash) txs pool = Some pool'" "\<not> pyrEnable (pyrConf conf)" "SInShard conf u = Some s" "RInShard conf u = Some r"
  shows "TxExist conf txHash u pool' = map_option (\<lambda>e. e \<or> (\<exists>t\<in>set txs. hits conf txHash t u)) (TxExist conf txHash u pool)"
  using assms(1)
proof (induction txs arbitrary: pool)
  case Nil
  then show ?case by (cases "TxExist conf txHash u pool'") auto
next
  case (Cons t txs)
  then obtain p1 where p1: "Append conf txHash t pool = Some p1" "foldM (Append conf txHash) txs p1 = Some pool'"
    by (auto simp: bind_eq_Some_conv)
  show ?case
    unfolding Cons.IH[OF p1(2)] Append_TxExist[OF p1(1) assms(2-4)]
    by (cases "TxExist conf txHash u pool") auto
qed

lemma Amount_updList:
  assumes "updList s r f pool = Some pool'" "cell (TxLists pool) s r = Some l"
  shows "Amount pool' + length l = Amount pool + length (f l)"
proof -
  let ?row = "TxLists pool ! s"
  have c: "s < length (TxLists pool)" "r < length ?row" "?row ! r = l"
    using assms(2) by (auto simp: cell_Some_iff)
  have p: "TxLists pool' = (TxLists pool)[s := ?row[r := f l]]"
    using assms by (auto simp: updList_Some)
  have "length l \<le> sum_list (map length ?row)"
    using c by (intro member_le_sum_list) auto
  moreover have "sum_list (map length ?row) \<le> Amount pool"
    unfolding Amount_def using c by (intro member_le_sum_list) auto
  moreover have "sum_list (map length (?row[r := f l])) + length l = sum_list (map length ?row) + length (f l)"
    using c calculation(1) by (simp add: map_update sum_list_update)
  ultimately show ?thesis
    using c by (simp add: Amount_def p map_update sum_list_update)
qed

lemma removeOne_present:
  assumes "poolOk conf txHash pool" "TxExist conf txHash t pool = Some True"
  shows "\<exists>pool'. removeOne conf txHash t pool = Some pool' \<and> Suc (Amount pool') = Amount pool"
proof -
  obtain s r l where t: "SInShard conf t = Some s" "RInShard conf t = Some r"
    "cell (TxLists pool) s r = Some l" "mget l (txHash t) \<noteq> None"
    using assms(2) by (auto simp: TxExist_def bind_eq_Some_conv listTxExist_def)
  then obtain pool' where p: "updList s r (listRemove txHash t) pool = Some pool'"
    using updList_None[of s r _ pool] by fastforce
  have "mwf l" using assms(1) t(3) by (auto simp: poolOk_def)
  then have "Suc (length (listRemove txHash t l)) = length l"
    using t(4) by (auto simp: listRemove_def length_mdel_Some)
  then have "Suc (Amount pool') = Amount pool"
    using Amount_updList[OF p t(3)] by simp
  then show ?thesis using p t assms(2) by (simp add: removeOne_def)
qed

lemma RemoveTxs_amount:
  assumes "poolOk conf txHash pool" "distinct (map txHash txs)"
    and "\<forall>t \<in> set txs. TxExist conf txHash t pool = Some True"
  shows "\<exists>pool'. RemoveTxs conf txHash txs pool = Some pool' \<and> Amount pool' + length txs = Amount pool"
  using assms unfolding RemoveTxs_def
proof (induction txs arbitrary: pool)
  case (Cons t txs)
  from removeOne_present[OF Cons.prems(1)] Cons.prems(3) obtain p1 where
    p1: "removeOne conf txHash t pool = Some p1" "Suc (Amount p1) = Amount pool"
    by auto
  have "TxExist conf txHash u p1 = Some True" if u: "u \<in> set txs" for u
  proof -
    have e: "TxExist conf txHash u pool = Some True" using Cons.prems(3) u by simp
    then obtain s r where "SInShard conf u = Some s" "RInShard conf u = Some r"
      by (auto simp: TxExist_def bind_eq_Some_conv)
    moreover have "txHash t \<noteq> txHash u" using Cons.prems(2) u by (metis distinct.simps(2) image_eqI list.map(2) set_map)
    ultimately show ?thesis by (simp add: removeOne_TxExist[OF p1(1)] e hits_def)
  qed
  then have "\<exists>pool'. foldM (removeOne conf txHash) txs p1 = Some pool' \<and> Amount pool' + length txs = Amount p1"
    using Cons.prems(2) poolOk_removeOne[OF Cons.prems(1) p1(1)] by (intro Cons.IH) auto
  then show ?case using p1 by auto
qed simp

lemma innerLoop_take: "innerLoop limit acc txs = acc @ take (max 1 (limit - length acc)) txs"
proof (induction limit acc txs rule: innerLoop.induct)
  case (2 limit acc tx txs)
  show ?case
  proof (cases "limit \<le> length (acc @ [tx])")
    case True
    then have "limit - length acc = 0 \<or> limit - length acc = 1" by auto
    with True show ?thesis by auto
  next
    case False
    then have "max 1 (limit - length acc) = Suc (max 1 (limit - Suc (length acc)))" by simp
    with 2 False show ?thesis by simp
  qed
qed simp

text \<open>the block of a shard's own transactions: \<open>PackageInnerTxs\<close> takes as many distinct
  transactions from the pool as fit in a block (at least one if there is any), and removing them
  once the block is appended always succeeds and takes away exactly that many.\<close>
theorem PackageInnerTxs_RemoveTxs:
  assumes "iter_ok ord" "poolOk conf txHash pool" "PackageInnerTxs conf ord pool = Some txs"
    and "cell (TxLists pool) (localIndex pool) (localIndex pool) = Some l"
  shows "length txs = min (max 1 (MaxBlockSize conf)) (length l) \<and> distinct (map txHash txs) \<and>
         (\<exists>pool'. RemoveTxs conf txHash txs pool = Some pool' \<and> Amount pool' + length txs = Amount pool)"
proof -
  let ?n = "max 1 (MaxBlockSize conf)"
  have l: "mwf l" "\<And>h t. mget l h = Some t \<Longrightarrow> h = txHash t \<and> SInShard conf t = Some (localIndex pool)
      \<and> RInShard conf t = Some (localIndex pool)"
    using assms(2,4) by (auto simp: poolOk_def)
  have txs: "txs = take ?n (map snd (ord l))"
    using assms(3,4) by (simp add: PackageInnerTxs_def innerLoop_take)
  have mem: "mget l h = Some t" if "(h, t) \<in> set (ord l)" for h t
    using that iter_ok_set[OF assms(1)] l(1) by (simp add: set_mwf_iff)
  have keys: "map txHash (map snd (ord l)) = map fst (ord l)"
    using l(2)[OF mem] by (auto simp: map_eq_conv)
  have "distinct (map fst (ord l))"
    using assms(1) l(1) by (metis iter_ok_def mset_map mset_eq_imp_distinct_iff mwf_def)
  then have dist: "distinct (map txHash txs)"
    unfolding txs take_map[symmetric] keys by (simp add: distinct_take)
  have "TxExist conf txHash t pool = Some True" if "t \<in> set txs" for t
  proof -
    have "t \<in> set (map snd (ord l))" using that unfolding txs by (rule in_set_takeD)
    then obtain h where "(h, t) \<in> set (ord l)" by auto
    from mem[OF this] l(2)[OF mem[OF this]] show ?thesis
      using assms(4) by (simp add: TxExist_cell)
  qed
  with RemoveTxs_amount[OF assms(2) dist] have
    "\<exists>pool'. RemoveTxs conf txHash txs pool = Some pool' \<and> Amount pool' + length txs = Amount pool" by blast
  moreover have "length txs = min ?n (length l)" by (simp add: txs iter_ok_length[OF assms(1)] min.commute)
  ultimately show ?thesis using dist by simp
qed

subsection \<open>Packaging for the cross-shard protocols\<close>

lemma length_concat_sum: "length (concat xss) = sum_list (map length xss)"
  by (induction xss) auto

lemma filled_fair:
  assumes "filled limit gs rnd k" "d < length gs" "e < length gs" "staged gs rnd k ! d \<noteq> gs ! d"
  shows "length (staged gs rnd k ! e) \<le> Suc (length (staged gs rnd k ! d))"
proof -
  have "rnd \<le> length (staged gs rnd k ! d)"
    using assms(2,4) by (auto simp: nth_staged min_def split: if_splits)
  moreover have "length (staged gs rnd k ! e) \<le> Suc rnd" using assms(3) by (auto simp: nth_staged min_def)
  ultimately show ?thesis by linarith
qed

text \<open>C35: the block of the unidirectional relay protocol: \<open>PackageRelayTxs\<close> takes from the row of one
  source shard a beginning of each list, at most \<open>MaxBlockSize\<close> transactions altogether and less only
  when there are no more, and it is fair: a list that is not exhausted gives at most one less than
  any other.\<close>
theorem PackageRelayTxs_fair:
  assumes "iter_ok ord" "PackageRelayTxs conf ord pool = Some (txs, best)"
  shows "0 \<le> best \<and> nat best < length (TxLists pool) \<and> length txs = fideShardAmount (fideConf conf) \<and>
     (\<exists>groups. length groups = length txs \<and>
        (\<forall>d < length txs. mset (groups ! d) =
            (if d < length (TxLists pool ! nat best) then mset (map snd (TxLists pool ! nat best ! d)) else {#}) \<and>
          (\<exists>n. txs ! d = take n (groups ! d))) \<and>
        (\<forall>d < length txs. \<forall>e < length txs. txs ! d = groups ! d \<or> length (txs ! e) \<le> Suc (length (txs ! d))) \<and>
        sum_list (map length txs) \<le> MaxBlockSize conf \<and>
        (sum_list (map length txs) < MaxBlockSize conf \<longrightarrow> txs = groups))"
proof -
  let ?n = "fideShardAmount (fideConf conf)" and ?row = "TxLists pool ! nat best"
  let ?gs = "map (\<lambda>list. map snd (ord list)) ?row @ replicate (?n - length ?row) []"
  have best: "0 \<le> best" "nat best < length (TxLists pool)" "length ?row \<le> ?n"
    and txs: "txs = fst (relayLoop (MaxBlockSize conf) (zip [0..<?n] ?gs) 0 (replicate ?n []) 0)"
    using assms(2) by (auto simp: PackageRelayTxs_def bind_eq_Some_conv slot_eq_Some Let_def split_beta
        split: if_splits)
  have len: "length ?gs = ?n" using best(3) by simp
  obtain rnd k where r: "txs = staged ?gs rnd k" "filled (MaxBlockSize conf) ?gs rnd k"
  proof -
    have s0: "staged ?gs 0 0 = replicate ?n []" using staged_0[of ?gs] len by simp
    then have "concat (staged ?gs 0 0) = []" by simp
    then show thesis
      using relayLoop_spec[of ?gs 0 "MaxBlockSize conf"] txs that unfolding len s0 by auto
  qed
  have n: "length txs = ?n" using r(1) len by simp
  have groups: "mset (?gs ! d) = (if d < length ?row then mset (map snd (?row ! d)) else {#})" if "d < ?n" for d
    using that best(3) assms(1) by (auto simp: nth_append iter_ok_def)
  have pre: "\<exists>m. txs ! d = take m (?gs ! d)" if "d < ?n" for d
    using that len by (auto simp: r(1) nth_staged)
  have fair: "txs ! d = ?gs ! d \<or> length (txs ! e) \<le> Suc (length (txs ! d))" if "d < ?n" "e < ?n" for d e
    using filled_fair[OF r(2), of d e] that len by (auto simp: r(1))
  have sum: "sum_list (map length txs) = length (concat (staged ?gs rnd k))"
    by (simp add: r(1) length_concat_sum)
  show ?thesis
    using best n len groups pre fair r sum unfolding filled_def
    by (intro conjI exI[of _ ?gs]) (simp_all del: length_concat)
qed

lemma filterM_Some:
  assumes "filterM p xs = Some ys"
  shows "ys = filter (\<lambda>x. p x = Some True) xs" "\<And>x. x \<in> set xs \<Longrightarrow> p x \<noteq> None"
proof -
  have "ys = filter (\<lambda>x. p x = Some True) xs \<and> (\<forall>x \<in> set xs. p x \<noteq> None)"
    using assms by (induction xs arbitrary: ys) (auto simp: bind_eq_Some_conv split: if_splits)
  then show "ys = filter (\<lambda>x. p x = Some True) xs" "\<And>x. x \<in> set xs \<Longrightarrow> p x \<noteq> None" by auto
qed

lemma distinct_pairs:
  "distinct (concat (map (\<lambda>i. map (Pair i) [0..<f i]) [m..<n]))"
  by (induction n) (auto simp: distinct_map inj_on_def)

lemma mset_concat_cong:
  "list_all2 (\<lambda>x y. mset x = mset y) xss yss \<Longrightarrow> mset (concat xss) = mset (concat yss)"
  by (induction rule: list_all2_induct) auto

lemma mset_concat_mono:
  "list_all2 (\<lambda>x y. mset x \<subseteq># mset y) xss yss \<Longrightarrow> mset (concat xss) \<subseteq># mset (concat yss)"
  by (induction rule: list_all2_induct) (auto intro: subset_mset.add_mono)

lemma mset_take_subset: "mset (take n xs) \<subseteq># mset xs"
  by (metis append_take_drop_id mset_append mset_subset_eq_add_left)

lemma staged_subset: "mset (concat (staged gs rnd k)) \<subseteq># mset (concat gs)"
  by (rule mset_concat_mono) (auto simp: list_all2_conv_all_nth nth_staged mset_take_subset)

text \<open>the cross-shard block of the pyramid protocol: \<open>PackageCrossTxs\<close> takes, in a fair round
  robin, transactions between two different shards that the local shard controls, at most
  \<open>MaxBlockSize\<close> and less only when it takes all of them.\<close>
theorem PackageCrossTxs_controlled:
  assumes "iter_ok ord" "PackageCrossTxs conf ord pool = Some txs"
  shows "\<exists>pairs. distinct pairs \<and>
     (\<forall>i j. (i, j) \<in> set pairs \<longleftrightarrow> cell (TxLists pool) i j \<noteq> None \<and> i \<noteq> j \<and> controls pool ! i \<and> controls pool ! j) \<and>
     mset txs \<subseteq># mset (concat (map (\<lambda>(i, j). map snd (TxLists pool ! i ! j)) pairs)) \<and>
     length txs \<le> MaxBlockSize conf \<and>
     (length txs < MaxBlockSize conf \<longrightarrow>
        mset txs = mset (concat (map (\<lambda>(i, j). map snd (TxLists pool ! i ! j)) pairs)))"
proof -
  let ?ijs = "concat (map (\<lambda>i. map (Pair i) [0..<length (TxLists pool ! i)]) [0..<length (TxLists pool)])"
  let ?of = "\<lambda>(i, j). map snd (TxLists pool ! i ! j)"
  obtain pairs where f: "filterM (crossCandidate pool) ?ijs = Some pairs"
    and txs: "txs = crossLoop (MaxBlockSize conf) (map (\<lambda>(i, j). map snd (ord (TxLists pool ! i ! j))) pairs) 0 []"
    using assms(2) by (auto simp: PackageCrossTxs_def bind_eq_Some_conv split: if_splits)
  let ?gs = "map (\<lambda>(i, j). map snd (ord (TxLists pool ! i ! j))) pairs"
  have dist: "distinct ?ijs" by (rule distinct_pairs)
  have mem: "(i, j) \<in> set ?ijs \<longleftrightarrow> cell (TxLists pool) i j \<noteq> None" for i j
    by (auto simp: cell_def intro!: bexI[of _ i])
  note fs = filterM_Some[OF f]
  have all: "\<forall>i j. (i, j) \<in> set pairs \<longleftrightarrow>
      cell (TxLists pool) i j \<noteq> None \<and> i \<noteq> j \<and> controls pool ! i \<and> controls pool ! j"
  proof (intro allI)
    fix i j
    show "(i, j) \<in> set pairs \<longleftrightarrow>
        cell (TxLists pool) i j \<noteq> None \<and> i \<noteq> j \<and> controls pool ! i \<and> controls pool ! j"
    proof (cases "(i, j) \<in> set ?ijs")
      case True
      then have "crossCandidate pool (i, j) = Some True \<longleftrightarrow> i \<noteq> j \<and> controls pool ! i \<and> controls pool ! j"
        using fs(2)[of "(i, j)"] by (auto simp: crossCandidate_def bind_eq_Some_conv slot_def split: if_splits)
      then show ?thesis using True mem[of i j] by (auto simp: fs(1))
    next
      case False
      then show ?thesis using mem[of i j] by (auto simp: fs(1))
    qed
  qed
  obtain rnd k where r: "mset txs = mset (concat (staged ?gs rnd k))" "filled (MaxBlockSize conf) ?gs rnd k"
    using crossLoop_spec[of "[]" ?gs 0 "MaxBlockSize conf"] by (auto simp: txs staged_0)
  have gs: "mset (concat ?gs) = mset (concat (map ?of pairs))"
    using assms(1) by (intro mset_concat_cong) (auto simp: iter_ok_def list_all2_conv_all_nth split_beta)
  have sub: "mset txs \<subseteq># mset (concat (map ?of pairs))"
    unfolding r(1) gs[symmetric] by (rule staged_subset)
  have len: "length txs = length (concat (staged ?gs rnd k))" by (rule mset_eq_length[OF r(1)])
  have full: "mset txs = mset (concat (map ?of pairs))" if "length txs < MaxBlockSize conf"
    using r(2) that unfolding filled_def len r(1) gs[symmetric] by simp
  have "distinct pairs" using dist by (simp add: fs(1))
  moreover have "length txs \<le> MaxBlockSize conf" using r(2) unfolding filled_def len by simp
  ultimately show ?thesis using all sub full by blast
qed

subsection \<open>Examples\<close>

text \<open>A pool of the unidirectional relay protocol with three shards-local transactions and two
  outgoing ones, reached by the operations of the code; a transaction is its own sender's
  name, which serves as its hash.\<close>

definition demoOps :: "PoolOp list" where
  "demoOps = [PAppend (demoTx ''00000001'' ''00000001''), PAppend (demoTx ''00000007'' ''00000001''),
              PAppend (demoTx ''0000000d'' ''00000007''), PAppend (demoTx ''00000001'' ''00000002''),
              PAppend (demoTx ''00000007'' ''00000004''), PReset]"

definition demoPool0 :: Pool where
  "demoPool0 = \<lparr>TxLists = replicate 6 (replicate 6 []), localIndex = 1, controls = []\<rparr>"

definition demoPool :: Pool where
  "demoPool = \<lparr>TxLists =
     [replicate 6 [],
      [[], [(''00000001'', demoTx ''00000001'' ''00000001''), (''00000007'', demoTx ''00000007'' ''00000001''),
            (''0000000d'', demoTx ''0000000d'' ''00000007'')],
       [(''00000001'', demoTx ''00000001'' ''00000002'')], [],
       [(''00000007'', demoTx ''00000007'' ''00000004'')], []],
      replicate 6 [], replicate 6 [], replicate 6 [], replicate 6 []],
     localIndex = 1, controls = [False, True, False, False, False, False]\<rparr>"

lemma demoConf_fide:
  "pyrEnable (pyrConf (demoConf UniRelay)) = False" "fideEnable (fideConf (demoConf UniRelay)) = True"
  "fideShardAmount (fideConf (demoConf UniRelay)) = 6" "StorageOptimize (fideConf (demoConf UniRelay)) = True"
  "MaxBlockSize (demoConf UniRelay) = 4"
  by (simp_all add: demoConf_simps InitFideConfig_def UpdateShardAmount_def UniRelay_def Pyramid_def)

lemma replicate_6: "replicate 6 x = [x, x, x, x, x, x]"
  by (simp add: eval_nat_numeral)

lemma demoPool0: "NewTxPool (demoConf UniRelay) 1 = Some demoPool0"
  by (simp add: NewTxPool_def demoConf_fide demoConf_simps(6) cell_def demoPool0_def replicate_6)

lemma demo_shards:
  "SInShard (demoConf UniRelay) (demoTx s r) = inShard (demoConf UniRelay) s"
  "RInShard (demoConf UniRelay) (demoTx s r) = inShard (demoConf UniRelay) r"
  "inShard (demoConf UniRelay) ''00000001'' = Some 1" "inShard (demoConf UniRelay) ''00000007'' = Some 1"
  "inShard (demoConf UniRelay) ''0000000d'' = Some 1" "inShard (demoConf UniRelay) ''00000002'' = Some 2"
  "inShard (demoConf UniRelay) ''00000004'' = Some 4"
  by (simp_all add: SInShard_def RInShard_def demoTx_def NewTransaction_def RelayTx_def RegisterTx_def
      inShard_def hexVal_def demoConf_fide)

lemma demo_Sender: "Sender (demoTx s r) = s"
  by (simp add: demoTx_def NewTransaction_def)

lemma demoPool: "foldM (poolStep (demoConf UniRelay) Sender) demoOps demoPool0 = Some demoPool"
  by (simp add: demoOps_def demoPool0_def Append_def demoConf_fide demo_shards updList_def cell_def
      listAppend_def demo_Sender replicate_6 ResetControl_def extraControls_def setSlot_def demoPool_def
      numeral_2_eq_2 numeral_3_eq_3 eval_nat_numeral)

lemma demoPool_ok: "poolOk (demoConf UniRelay) Sender demoPool"
  by (rule pool_machine.run_inv[OF poolOk_New[OF demoPool0] demoPool])

theorem pool_placement_witness:
  "distinct (map fst [(''00000001'', demoTx ''00000001'' ''00000002'')]) \<and>
   SInShard (demoConf UniRelay) (demoTx ''00000001'' ''00000002'') = Some 1 \<and>
   RInShard (demoConf UniRelay) (demoTx ''00000001'' ''00000002'') = Some 2"
  using pool_placement[OF demoPool0 demoPool, of 1 2 "[(''00000001'', demoTx ''00000001'' ''00000002'')]"]
  by (simp add: demoPool_def cell_def)

theorem RemoveTxs_exact_witness:
  "\<exists>pool'. RemoveTxs (demoConf UniRelay) Sender [demoTx ''00000007'' ''00000004''] demoPool = Some pool' \<and>
     TxExist (demoConf UniRelay) Sender (demoTx ''00000007'' ''00000004'') pool' = Some False \<and>
     TxExist (demoConf UniRelay) Sender (demoTx ''00000007'' ''00000001'') pool' = Some True"
proof -
  let ?c = "demoConf UniRelay"
  have e: "TxExist ?c Sender (demoTx ''00000007'' ''00000004'') demoPool = Some True"
    "TxExist ?c Sender (demoTx ''00000007'' ''00000001'') demoPool = Some True"
    by (simp_all add: TxExist_def demo_shards demoPool_def cell_def listTxExist_def demo_Sender replicate_6)
  obtain pool' where p: "RemoveTxs ?c Sender [demoTx ''00000007'' ''00000004''] demoPool = Some pool'"
    using RemoveTxs_amount[OF demoPool_ok, of "[demoTx ''00000007'' ''00000004'']"] e by auto
  have "TxExist ?c Sender (demoTx ''00000007'' ''00000004'') pool' = Some False"
    by (subst RemoveTxs_exact[OF p]) (simp_all add: demo_shards e)
  moreover have "TxExist ?c Sender (demoTx ''00000007'' ''00000001'') pool' = Some True"
    by (subst RemoveTxs_exact[OF p]) (simp_all add: demo_shards e)
  ultimately show ?thesis using p by blast
qed

theorem PackageInnerTxs_RemoveTxs_witness:
  "\<exists>txs pool'. PackageInnerTxs (demoConf UniRelay) rev demoPool = Some txs \<and> length txs = 3 \<and>
     RemoveTxs (demoConf UniRelay) Sender txs demoPool = Some pool' \<and> Amount pool' + 3 = Amount demoPool"
proof -
  have c: "cell (TxLists demoPool) (localIndex demoPool) (localIndex demoPool) = Some
      [(''00000001'', demoTx ''00000001'' ''00000001''), (''00000007'', demoTx ''00000007'' ''00000001''),
       (''0000000d'', demoTx ''0000000d'' ''00000007'')]"
    by (simp add: demoPool_def cell_def)
  obtain txs where t: "PackageInnerTxs (demoConf UniRelay) rev demoPool = Some txs"
    by (simp add: PackageInnerTxs_def c)
  from PackageInnerTxs_RemoveTxs[OF iter_ok_rev demoPool_ok t c] t show ?thesis
    by (auto simp: demoConf_fide)
qed

theorem PackageRelayTxs_fair_witness:
  "\<exists>txs. PackageRelayTxs (demoConf UniRelay) (\<lambda>xs. xs) demoPool = Some (txs, 1) \<and>
         length txs = 6 \<and> sum_list (map length txs) \<le> 4"
proof -
  have b: "FindBest (demoConf UniRelay) demoPool = Some 1"
    by (simp add: FindBest_def demoPool_def demoConf_fide slot_def)
  have row: "slot (TxLists demoPool) (Suc 0) = Some [[],
      [(''00000001'', demoTx ''00000001'' ''00000001''), (''00000007'', demoTx ''00000007'' ''00000001''),
       (''0000000d'', demoTx ''0000000d'' ''00000007'')],
      [(''00000001'', demoTx ''00000001'' ''00000002'')], [],
      [(''00000007'', demoTx ''00000007'' ''00000004'')], []]"
    by (simp add: demoPool_def slot_def)
  obtain txs where t: "PackageRelayTxs (demoConf UniRelay) (\<lambda>xs. xs) demoPool = Some (txs, 1)"
    by (simp add: PackageRelayTxs_def b demoConf_fide row split_beta Let_def)
  from PackageRelayTxs_fair[OF iter_ok_id t] t show ?thesis by (auto simp: demoConf_fide)
qed

theorem PackageCrossTxs_controlled_witness:
  "\<exists>txs. PackageCrossTxs (demoConf Pyramid) rev
     \<lparr>TxLists = [[[], [(''00000000'', demoTx ''00000000'' ''00000001'')]], [[], []]], localIndex = 3,
      controls = [True, True]\<rparr> = Some txs \<and> length txs \<le> 4"
proof -
  let ?p = "\<lparr>TxLists = [[[], [(''00000000'', demoTx ''00000000'' ''00000001'')]], [[], []]], localIndex = 3,
      controls = [True, True]\<rparr>"
  obtain txs where t: "PackageCrossTxs (demoConf Pyramid) rev ?p = Some txs"
    by (simp add: PackageCrossTxs_def demoConf_simps crossCandidate_def slot_def upt_rec)
  from PackageCrossTxs_controlled[OF iter_ok_rev t] t show ?thesis by (auto simp: demoConf_simps)
qed

end
