(* ===== verification/Blocks.thy ===== *)
theory Blocks
  imports Transaction
begin

text \<open>
  \<^verbatim>\<open>src/Block/\<close>: the three kinds of block the consensus code handles.  \<open>StdBlock\<close> is the block of
  the identity chain and of the pyramid chain, \<open>RelayBlock\<close> the one of Monoxide and \<open>FideBlock\<close> the one
  of Monosulfide.

  Blocks are hashed by SHA-256 of a JSON form and sent in gob form.  Both codings are collected in the
  record \<open>Lib\<close>, an argument of the definitions that use them: the digests are those of
  \<open>crypt.GetDigest\<close>, and a decoder gives \<open>None\<close> where the code calls \<open>log.Panic\<close>.  A key of a node
  (\<open>*rsa.PublicKey\<close>) is its modulus and its exponent; its PEM form is also in \<open>Lib\<close>.

  Blocks are shared by pointer and two methods (\<open>Light\<close>) change them in place; no caller reads the
  block it has made light, so \<open>Light\<close> is a function here.  In Monosulfide the identity of a block
  matters (\<open>tempBlock != ch.BlockGs[sid]\<close> compares pointers), so a \<open>FideBlock\<close> has the field \<open>addr\<close>,
  the address of the object, which no digest depends on; a \<open>RelayBlock\<close> has the field \<open>rAddr\<close> likewise.
\<close>

record StdHead =
  ParentHashes :: "(nat, hash) gomap"
  MerkleRoot :: bytes
  StateRoot :: bytes
  Timestamp :: int
  sNonce :: "64 word"
  Bits :: "32 word"

record StdBody =
  Transactions :: "Transaction list"
  BInterface :: "bytes option"

record StdBlock =
  sH :: StdHead
  sB :: StdBody

record RelayHead =
  rNonce :: "64 word"
  rParentHash :: hash
  ConfirmedTxRoot :: bytes
  OutTxRoot :: bytes
  rTimestamp :: int

record RelayBody =
  Intra :: "Transaction list"
  Out :: "Transaction list"

record RelayBlock =
  rH :: RelayHead
  rB :: RelayBody
  rAddr :: nat

record FideHead =
  fNonce :: "64 word"
  ShardIdx :: nat
  fParentHash :: hash
  IntraTxRoot :: bytes
  SubBlockRoot :: bytes
  fStateRoot :: bytes
  fTimestamp :: int

record CBlockHead =
  RemoteBlockHash :: hash
  TxToot :: bytes

record SubBlock =
  CHead :: "CBlockHead option"
  CBody :: "Transaction list option"   \<comment> \<open>the field \<open>Txs\<close>, \<open>None\<close> for a \<open>nil\<close> body\<close>

record FideBlock =
  fH :: FideHead
  SubBlocks :: "SubBlock option list"
  addr :: nat

record PublicKey =
  keyN :: nat
  keyE :: nat

record Lib =
  sha :: "bytes \<Rightarrow> bytes"
  txHash :: "Transaction \<Rightarrow> hash"
  stdJson :: "StdHead \<Rightarrow> bytes"
  relayHash :: "RelayHead \<Rightarrow> hash"
  fideHash :: "FideHead \<Rightarrow> hash"
  subHash :: "CBlockHead option \<Rightarrow> hash"
  encStd :: "StdBlock \<Rightarrow> bytes"
  decStd :: "bytes \<Rightarrow> StdBlock option"
  encRelay :: "RelayBlock \<Rightarrow> bytes"
  decRelay :: "bytes \<Rightarrow> nat \<Rightarrow> RelayBlock option"   \<comment> \<open>into an object at the address\<close>
  encFide :: "FideBlock \<Rightarrow> bytes"
  decFide :: "bytes \<Rightarrow> nat \<Rightarrow> FideBlock option"
  encodePub :: "PublicKey \<Rightarrow> bytes"
  decodePub :: "bytes \<Rightarrow> PublicKey option"

subsection \<open>\<open>StdBlock\<close>\<close>

definition EncodeH :: "Lib \<Rightarrow> StdHead \<Rightarrow> bytes" where
  "EncodeH L h = stdJson L h"

definition StdHash :: "Lib \<Rightarrow> StdBlock \<Rightarrow> hash" where
  "StdHash L b = sha L (stdJson L (sH b))"

definition emptyStdBlock :: StdBlock where
  "emptyStdBlock =
     \<lparr>sH = \<lparr>ParentHashes = [], MerkleRoot = [], StateRoot = [], Timestamp = 0, sNonce = 0, Bits = 0\<rparr>,
      sB = \<lparr>Transactions = [], BInterface = None\<rparr>\<rparr>"

definition StdDecode :: "Lib \<Rightarrow> bytes option \<Rightarrow> StdBlock option" where
  \<comment> \<open>the argument is \<open>None\<close> for \<open>nil\<close>\<close>
  "StdDecode L byteBlock = (case byteBlock of None \<Rightarrow> Some emptyStdBlock | Some b \<Rightarrow> decStd L b)"

definition StdLight :: "StdBlock \<Rightarrow> StdBlock" where
  "StdLight b = b\<lparr>sB := (sB b)\<lparr>Transactions := []\<rparr>\<rparr>"

subsection \<open>\<open>RelayBlock\<close>\<close>

definition emptyRelayBlock :: "int \<Rightarrow> nat \<Rightarrow> RelayBlock" where
  "emptyRelayBlock now a =
     \<lparr>rH = \<lparr>rNonce = 0, rParentHash = EmptyHash, ConfirmedTxRoot = [], OutTxRoot = [], rTimestamp = now\<rparr>,
      rB = \<lparr>Intra = [], Out = []\<rparr>, rAddr = a\<rparr>"

definition RelayBHash :: "Lib \<Rightarrow> RelayBlock \<Rightarrow> hash" where
  "RelayBHash L b = relayHash L (rH b)"

definition RelayTxRoot :: "Lib \<Rightarrow> RelayHead \<Rightarrow> bytes" where
  "RelayTxRoot L h = GenMPTRoot (sha L) [ConfirmedTxRoot h, OutTxRoot h]"

definition RelayLight :: "RelayBlock \<Rightarrow> RelayBlock" where
  "RelayLight b = b\<lparr>rB := \<lparr>Intra = [], Out = []\<rparr>\<rparr>"

definition RelayDecode :: "Lib \<Rightarrow> int \<Rightarrow> nat \<Rightarrow> bytes option \<Rightarrow> RelayBlock option" where
  "RelayDecode L now a byteBlock =
     (case byteBlock of None \<Rightarrow> Some (emptyRelayBlock now a) | Some b \<Rightarrow> decRelay L b a)"

definition RelayEncode :: "Lib \<Rightarrow> RelayBlock \<Rightarrow> bytes option" where
  \<comment> \<open>the coded block is decoded once, which may panic\<close>
  "RelayEncode L b = do { decRelay L (encRelay L b) 0; Some (encRelay L b) }"

subsection \<open>\<open>FideBlock\<close>\<close>

fun subTxs :: "SubBlock option \<Rightarrow> Transaction list" where
  "subTxs (Some sb) = (case CBody sb of Some txs \<Rightarrow> txs | None \<Rightarrow> [])"
| "subTxs None = []"

definition FideTxs :: "FideBlock \<Rightarrow> Transaction list" where
  "FideTxs b = concat (map subTxs (SubBlocks b))"

definition Ref :: "FideBlock \<Rightarrow> nat \<Rightarrow> hash option" where
  \<comment> \<open>panics for a missing sub-block or one without a head\<close>
  "Ref b i =
     do { sb \<leftarrow> slot (SubBlocks b) i;
          sb' \<leftarrow> sb;
          ch \<leftarrow> CHead sb';
          Some (RemoteBlockHash ch) }"

definition SubHash :: "Lib \<Rightarrow> SubBlock \<Rightarrow> hash" where
  "SubHash L sb = subHash L (CHead sb)"

definition FideBHash :: "Lib \<Rightarrow> FideBlock \<Rightarrow> hash" where
  "FideBHash L b = fideHash L (fH b)"

definition EmptySubBlock :: SubBlock where
  "EmptySubBlock = \<lparr>CHead = None, CBody = Some []\<rparr>"

definition emptyFideBlock :: "int \<Rightarrow> nat \<Rightarrow> FideBlock" where
  "emptyFideBlock now a =
     \<lparr>fH = \<lparr>fNonce = 0, ShardIdx = 0, fParentHash = EmptyHash, IntraTxRoot = [], SubBlockRoot = [],
            fStateRoot = [], fTimestamp = now\<rparr>,
      SubBlocks = [], addr = a\<rparr>"

definition FideDecode :: "Lib \<Rightarrow> int \<Rightarrow> nat \<Rightarrow> bytes option \<Rightarrow> FideBlock option" where
  "FideDecode L now a byteBlock =
     (case byteBlock of None \<Rightarrow> Some (emptyFideBlock now a) | Some b \<Rightarrow> decFide L b a)"

definition FideEncode :: "Lib \<Rightarrow> FideBlock \<Rightarrow> bytes option" where
  "FideEncode L b = do { decFide L (encFide L b) 0; Some (encFide L b) }"

definition lightSub :: "SubBlock option \<Rightarrow> SubBlock option option" where
  \<comment> \<open>the loop body of \<open>Light\<close>, which panics on a \<open>nil\<close> sub-block\<close>
  "lightSub sb = do { b \<leftarrow> sb; Some (Some (b\<lparr>CBody := map_option (\<lambda>_. []) (CBody b)\<rparr>)) }"

definition FideLight :: "FideBlock \<Rightarrow> FideBlock option" where
  "FideLight b = do { sbs \<leftarrow> mapM lightSub (SubBlocks b); Some (b\<lparr>SubBlocks := sbs\<rparr>) }"

definition FideParentHashes :: "FideHead option \<Rightarrow> (nat, hash) gomap" where
  "FideParentHashes h = (case h of None \<Rightarrow> [] | Some h \<Rightarrow> [(0, fParentHash h)])"

lemma FideBHash_addr [simp]: "FideBHash L (b\<lparr>addr := a\<rparr>) = FideBHash L b"
  by (simp add: FideBHash_def)

text \<open>taking the transactions out of a Monosulfide block to ship it changes neither its hash nor
  the hashes of its sub-blocks, so the light block is found under the same hash and has the same
  references.\<close>
theorem FideLight_hash:
  assumes "FideLight b = Some b'"
  shows "FideBHash L b' = FideBHash L b \<and> FideTxs b' = [] \<and> Ref b' i = Ref b i \<and>
         map (map_option (SubHash L)) (SubBlocks b') = map (map_option (SubHash L)) (SubBlocks b)"
proof -
  obtain sbs where s: "list_all2 (\<lambda>x y. lightSub x = Some y) (SubBlocks b) sbs" "b' = b\<lparr>SubBlocks := sbs\<rparr>"
    using assms by (auto simp: FideLight_def bind_eq_Some_conv mapM_eq_Some)
  have sub: "subTxs y = [] \<and> map_option (SubHash L) y = map_option (SubHash L) x \<and>
      map_option CHead y = map_option CHead x" if "lightSub x = Some y" for x y
    using that by (auto simp: lightSub_def bind_eq_Some_conv SubHash_def split: option.splits)
  have "concat (map subTxs sbs) = []"
    using s(1) sub by (induction rule: list_all2_induct) auto
  moreover have "map (map_option (SubHash L)) sbs = map (map_option (SubHash L)) (SubBlocks b)"
    using s(1) sub by (induction rule: list_all2_induct) auto
  moreover have "Ref b' i = Ref b i"
  proof (cases "i < length sbs")
    case True
    then have i: "i < length (SubBlocks b)" "lightSub (SubBlocks b ! i) = Some (sbs ! i)"
      using s(1) by (auto simp: list_all2_conv_all_nth)
    from sub[OF i(2)] True i(1) s(2) show ?thesis
      by (cases "sbs ! i"; cases "SubBlocks b ! i") (auto simp: Ref_def)
  next
    case False
    then show ?thesis
      using s(2) list_all2_lengthD[OF s(1)] by (simp add: Ref_def slot_def)
  qed
  ultimately show ?thesis using s(2) by (simp add: FideBHash_def FideTxs_def)
qed

theorem FideLight_hash_witness:
  "\<exists>b'. FideLight ((emptyFideBlock 0 1)\<lparr>SubBlocks := [Some EmptySubBlock]\<rparr>) = Some b' \<and> FideTxs b' = []"
proof -
  obtain b' where "FideLight ((emptyFideBlock 0 1)\<lparr>SubBlocks := [Some EmptySubBlock]\<rparr>) = Some b'"
    by (simp add: FideLight_def lightSub_def EmptySubBlock_def)
  with FideLight_hash[OF this] show ?thesis by blast
qed

end
