(* ===== verification/Chain.thy ===== *)
theory Chain
  imports Blocks TxPool
begin

text \<open>
  \<^verbatim>\<open>src/blockchain/chain.go\<close>, the chain of the identity domain, and the part of
  \<^verbatim>\<open>src/storage/storage.go\<close> it uses.  The bolt database is an external package: the record \<open>KV\<close> holds
  its two operations, \<open>kvPut\<close> (\<open>None\<close> for an error) and \<open>kvGet\<close>, on a database of any type \<open>'d\<close>;
  \<open>kvLaws\<close> states what its documentation promises.  A bucket is named by its string.
\<close>

record 'd KV =
  kvPut :: "bytes \<Rightarrow> bytes \<Rightarrow> bytes \<Rightarrow> 'd \<Rightarrow> 'd option"   \<comment> \<open>bucket, key, value\<close>
  kvGet :: "bytes \<Rightarrow> bytes \<Rightarrow> 'd \<Rightarrow> bytes option"

definition blockBucket :: bytes where "blockBucket = ''block''"
definition HeaderBucket :: bytes where "HeaderBucket = ''head''"
definition newestBlockHashBucket :: bytes where "newestBlockHashBucket = ''newestBlockHash''"

definition UpdateNewestBlock :: "'d KV \<Rightarrow> bytes \<Rightarrow> 'd \<Rightarrow> 'd option" where
  "UpdateNewestBlock kv newestBHash db = kvPut kv newestBlockHashBucket ''OnlyNewestBlock'' newestBHash db"

definition AddHeader :: "'d KV \<Rightarrow> bytes \<Rightarrow> bytes \<Rightarrow> 'd \<Rightarrow> 'd option" where
  "AddHeader kv blockHash byteHead db = kvPut kv HeaderBucket blockHash byteHead db"

definition AddBlock :: "'d KV \<Rightarrow> bytes \<Rightarrow> bytes \<Rightarrow> bytes \<Rightarrow> 'd \<Rightarrow> 'd option" where
  \<comment> \<open>the arguments are the hash, the coded head and the coded block\<close>
  "AddBlock kv bHash byteHead byteBlock db =
     do { db1 \<leftarrow> kvPut kv blockBucket bHash byteBlock db;
          db2 \<leftarrow> AddHeader kv bHash byteHead db1;
          UpdateNewestBlock kv bHash db2 }"

definition kvGetBlock :: "'d KV \<Rightarrow> bytes \<Rightarrow> 'd \<Rightarrow> bytes option" where
  \<comment> \<open>\<open>Storage.GetBlock\<close>; \<open>None\<close> is the error, with \<open>nil\<close> for the value\<close>
  "kvGetBlock kv bHash db = kvGet kv blockBucket bHash db"

definition GetNewestBlockHash :: "'d KV \<Rightarrow> 'd \<Rightarrow> bytes option" where
  "GetNewestBlockHash kv db = kvGet kv newestBlockHashBucket ''OnlyNewestBlock'' db"

subsection \<open>The chain\<close>

record 'd Chain =
  TopBlockHash :: "(nat, hash) gomap"
  ChStorage :: 'd
  ChTxPool :: Pool
  ChBlocks :: "(hash, StdBlock) gomap"

definition hashAt :: "(nat, hash) gomap \<Rightarrow> nat \<Rightarrow> hash" where
  \<comment> \<open>reading a missing key gives the empty hash\<close>
  "hashAt m i = (case mget m i of Some h \<Rightarrow> h | None \<Rightarrow> EmptyHash)"

definition NewChain :: "Conf \<Rightarrow> 'd \<Rightarrow> 'd Chain option" where
  \<comment> \<open>for the database that \<open>storage.NewStorage\<close> opens\<close>
  "NewChain conf db =
     do { pool \<leftarrow> NewTxPool conf 0;
          Some \<lparr>TopBlockHash = [], ChStorage = db, ChTxPool = pool, ChBlocks = []\<rparr> }"

definition RecordTx :: "Lib \<Rightarrow> Conf \<Rightarrow> Transaction \<Rightarrow> 'd Chain \<Rightarrow> 'd Chain option" where
  "RecordTx L conf tx c =
     do { pool \<leftarrow> TxPool.Append conf (txHash L) tx (ChTxPool c);
          Some (c\<lparr>ChTxPool := pool\<rparr>) }"

definition GenerateIdBlock ::
  "Lib \<Rightarrow> Conf \<Rightarrow> mapOrder \<Rightarrow> mapOrder \<Rightarrow> bool \<Rightarrow> nat \<Rightarrow> int \<Rightarrow> bytes \<Rightarrow> 'd Chain \<Rightarrow> StdBlock option" where
  \<comment> \<open>\<open>usingPoW\<close> and \<open>difficulty\<close> are those of \<open>config.IdConfig\<close>; the transactions are packaged again
     when there were none\<close>
  "GenerateIdBlock L conf ord1 ord2 usingPoW difficulty now randNum c =
     do { txs1 \<leftarrow> PackageInnerTxs conf ord1 (ChTxPool c);
          txs \<leftarrow> (if txs1 = [] then PackageInnerTxs conf ord2 (ChTxPool c) else Some txs1);
          top \<leftarrow> mget (ChBlocks c) (hashAt (TopBlockHash c) 0);
          Some \<lparr>sH = \<lparr>ParentHashes = [(0, hashAt (TopBlockHash c) 0)],
                     MerkleRoot = GenTxRoot (sha L) (txHash L) txs, StateRoot = [], Timestamp = now,
                     sNonce = sNonce (sH top) + 1,
                     Bits = (if usingPoW then BigToCompact difficulty else 0)\<rparr>,
                sB = \<lparr>Transactions = txs, BInterface = Some randNum\<rparr>\<rparr> }"

definition Append :: "Lib \<Rightarrow> Conf \<Rightarrow> 'd KV \<Rightarrow> StdBlock \<Rightarrow> 'd Chain \<Rightarrow> 'd Chain option" where
  "Append L conf kv block c =
     do { pool \<leftarrow> RemoveTxs conf (txHash L) (Transactions (sB block)) (ChTxPool c);
          let h = StdHash L block
          in do { db \<leftarrow> AddBlock kv h (EncodeH L (sH block)) (encStd L block) (ChStorage c);
                  Some (c\<lparr>ChTxPool := pool, TopBlockHash := mput 0 h (TopBlockHash c),
                          ChBlocks := mput h block (ChBlocks c), ChStorage := db\<rparr>) } }"

definition GetBlock :: "Lib \<Rightarrow> 'd KV \<Rightarrow> hash \<Rightarrow> 'd Chain \<Rightarrow> StdBlock option" where
  \<comment> \<open>a block that is nowhere is decoded from \<open>nil\<close>, which gives the empty block\<close>
  "GetBlock L kv h c =
     (case mget (ChBlocks c) h of
        Some b \<Rightarrow> Some b
      | None \<Rightarrow> StdDecode L (kvGetBlock kv h (ChStorage c)))"

fun GetBlocksLoop :: "nat \<Rightarrow> Lib \<Rightarrow> 'd KV \<Rightarrow> 'd \<Rightarrow> hash \<Rightarrow> StdBlock list \<Rightarrow> StdBlock list option" where
  \<comment> \<open>the loop of \<open>GetBlocks\<close>; it ends at a block without parents or at a hash that is not stored, and
     \<open>None\<close> stands for a panic of the decoder and for fuel that runs out\<close>
  "GetBlocksLoop 0 L kv db currHash blocks = None"
| "GetBlocksLoop (Suc fuel) L kv db currHash blocks =
     do { block \<leftarrow> StdDecode L (kvGetBlock kv currHash db);
          if kvGetBlock kv currHash db = None then Some blocks
          else if ParentHashes (sH block) = [] then Some (blocks @ [block])
          else GetBlocksLoop fuel L kv db (hashAt (ParentHashes (sH block)) 0) (blocks @ [block]) }"

definition GetBlocks :: "nat \<Rightarrow> Lib \<Rightarrow> 'd KV \<Rightarrow> 'd Chain \<Rightarrow> StdBlock list option" where
  "GetBlocks fuel L kv c = GetBlocksLoop fuel L kv (ChStorage c) (hashAt (TopBlockHash c) 0) []"

definition Verify :: "Lib \<Rightarrow> bool \<Rightarrow> nat \<Rightarrow> StdBlock \<Rightarrow> bool" where
  "Verify L usingPoW difficulty block =
     (if usingPoW then IsValidBlock (sha L) (EncodeH L (sH block)) difficulty else True)"

definition TopBlock :: "'d Chain \<Rightarrow> StdBlock option" where
  "TopBlock c = mget (ChBlocks c) (hashAt (TopBlockHash c) 0)"

definition VerifyBlock :: "Lib \<Rightarrow> StdBlock \<Rightarrow> bool" where
  "VerifyBlock L b = (MerkleRoot (sH b) = GenTxRoot (sha L) (txHash L) (Transactions (sB b)))"

subsection \<open>The stored chain is the appended chain\<close>

definition kvLaws :: "'d KV \<Rightarrow> bool" where
  "kvLaws kv \<longleftrightarrow>
     (\<forall>b k v db db'. kvPut kv b k v db = Some db' \<longrightarrow>
        kvGet kv b k db' = Some v \<and>
        (\<forall>b' k'. (b', k') \<noteq> (b, k) \<longrightarrow> kvGet kv b' k' db' = kvGet kv b' k' db))"

lemma kvLawsD:
  assumes "kvLaws kv" "kvPut kv b k v db = Some db'"
  shows "kvGet kv b k db' = Some v" "(b', k') \<noteq> (b, k) \<Longrightarrow> kvGet kv b' k' db' = kvGet kv b' k' db"
  using assms unfolding kvLaws_def by blast+

lemma AddBlock_get:
  assumes "kvLaws kv" "AddBlock kv h hd' blk db = Some db'"
  shows "kvGetBlock kv h' db' = (if h' = h then Some blk else kvGetBlock kv h' db)"
    "GetNewestBlockHash kv db' = Some h"
proof -
  obtain db1 db2 where d: "kvPut kv blockBucket h blk db = Some db1"
    "kvPut kv HeaderBucket h hd' db1 = Some db2"
    "kvPut kv newestBlockHashBucket ''OnlyNewestBlock'' h db2 = Some db'"
    using assms(2) by (auto simp: AddBlock_def AddHeader_def UpdateNewestBlock_def bind_eq_Some_conv)
  have "kvGetBlock kv h' db' = kvGetBlock kv h' db1"
    using kvLawsD(2)[OF assms(1) d(3)] kvLawsD(2)[OF assms(1) d(2)]
    by (simp add: kvGetBlock_def blockBucket_def HeaderBucket_def newestBlockHashBucket_def)
  then show "kvGetBlock kv h' db' = (if h' = h then Some blk else kvGetBlock kv h' db)"
    using kvLawsD[OF assms(1) d(1)] by (simp add: kvGetBlock_def)
  show "GetNewestBlockHash kv db' = Some h"
    using kvLawsD(1)[OF assms(1) d(3)] by (simp add: GetNewestBlockHash_def)
qed

lemma Append_effect:
  assumes "kvLaws kv" "Append L conf kv b c = Some c'"
  shows "hashAt (TopBlockHash c') 0 = StdHash L b"
    "kvGetBlock kv h (ChStorage c') = (if h = StdHash L b then Some (encStd L b) else kvGetBlock kv h (ChStorage c))"
    "mget (ChBlocks c') h = (if h = StdHash L b then Some b else mget (ChBlocks c) h)"
    "RemoveTxs conf (txHash L) (Transactions (sB b)) (ChTxPool c) = Some (ChTxPool c')"
  using assms(2) AddBlock_get(1)[OF assms(1)]
  by (auto simp: Append_def bind_eq_Some_conv Let_def hashAt_def mget_mput)

fun chained :: "Lib \<Rightarrow> StdBlock list \<Rightarrow> bool" where
  \<comment> \<open>newest first: each block names the next one as its parent, the last has no parent\<close>
  "chained L [] = True"
| "chained L [b] = (ParentHashes (sH b) = [])"
| "chained L (b # b' # bs) =
     (ParentHashes (sH b) \<noteq> [] \<and> hashAt (ParentHashes (sH b)) 0 = StdHash L b' \<and> chained L (b' # bs))"

lemma GetBlocksLoop_chained:
  assumes "chained L bs" "bs \<noteq> []" "length bs \<le> fuel" "\<forall>b \<in> set bs. decStd L (encStd L b) = Some b"
    and "\<forall>b \<in> set bs. kvGetBlock kv (StdHash L b) db = Some (encStd L b)"
  shows "GetBlocksLoop fuel L kv db (StdHash L (hd bs)) acc = Some (acc @ bs)"
  using assms
proof (induction L bs arbitrary: fuel acc rule: chained.induct)
  case (2 L b)
  then show ?case by (cases fuel) (auto simp: StdDecode_def)
next
  case (3 L b b' bs)
  then show ?case by (cases fuel) (auto simp: StdDecode_def)
qed simp

lemma Append_stored:
  assumes "kvLaws kv" "foldM (Append L conf kv) bs c = Some c'" "distinct (map (StdHash L) bs)"
  shows "\<forall>b \<in> set bs. kvGetBlock kv (StdHash L b) (ChStorage c') = Some (encStd L b)"
    "\<forall>h. h \<notin> StdHash L ` set bs \<longrightarrow> kvGetBlock kv h (ChStorage c') = kvGetBlock kv h (ChStorage c)"
    "bs \<noteq> [] \<longrightarrow> hashAt (TopBlockHash c') 0 = StdHash L (last bs)"
proof -
  have "(\<forall>b \<in> set bs. kvGetBlock kv (StdHash L b) (ChStorage c') = Some (encStd L b)) \<and>
    (\<forall>h. h \<notin> StdHash L ` set bs \<longrightarrow> kvGetBlock kv h (ChStorage c') = kvGetBlock kv h (ChStorage c)) \<and>
    (bs \<noteq> [] \<longrightarrow> hashAt (TopBlockHash c') 0 = StdHash L (last bs))"
    using assms(2,3)
  proof (induction bs arbitrary: c)
    case (Cons b bs)
    then obtain c1 where c1: "Append L conf kv b c = Some c1" "foldM (Append L conf kv) bs c1 = Some c'"
      by (auto simp: bind_eq_Some_conv)
    note e = Append_effect[OF assms(1) c1(1)]
    from Cons.IH[OF c1(2)] Cons.prems(2) c1(2) e show ?case by (cases bs) auto
  qed simp
  then show "\<forall>b \<in> set bs. kvGetBlock kv (StdHash L b) (ChStorage c') = Some (encStd L b)"
    "\<forall>h. h \<notin> StdHash L ` set bs \<longrightarrow> kvGetBlock kv h (ChStorage c') = kvGetBlock kv h (ChStorage c)"
    "bs \<noteq> [] \<longrightarrow> hashAt (TopBlockHash c') 0 = StdHash L (last bs)" by blast+
qed

lemma GetBlocks_chain:
  assumes "kvLaws kv" "foldM (Append L conf kv) blocks c = Some c'" "blocks \<noteq> []"
    and "chained L (rev blocks)" "distinct (map (StdHash L) blocks)"
    and "\<forall>b \<in> set blocks. decStd L (encStd L b) = Some b" "length blocks \<le> fuel"
  shows "GetBlocks fuel L kv c' = Some (rev blocks)"
proof -
  note s = Append_stored[OF assms(1,2,5)]
  have "hashAt (TopBlockHash c') 0 = StdHash L (hd (rev blocks))"
    using s(3) assms(3) by (simp add: hd_rev)
  then show ?thesis
    using GetBlocksLoop_chained[OF assms(4), of fuel kv "ChStorage c'" "[]"] s(1) assms(3,6,7)
    by (simp add: GetBlocks_def)
qed

text \<open>reading the chain back: after any linked sequence of blocks has been appended, \<open>GetBlocks\<close>
  returns exactly these blocks, newest first, as long as their hashes differ and the coding of a
  block can be decoded.\<close>
theorem GetBlocks_Append:
  assumes "kvLaws kv" "foldM (Append L conf kv) blocks c = Some c'" "blocks \<noteq> []"
    and "chained L (rev blocks)" "distinct (map (StdHash L) blocks)"
    and "\<forall>b \<in> set blocks. decStd L (encStd L b) = Some b" "length blocks \<le> fuel"
  shows "GetBlocks fuel L kv c' = Some (rev blocks)"
  by (rule GetBlocks_chain[OF assms])

text \<open>the block a node proposes is one it would accept: \<open>GenerateIdBlock\<close> links it to the top
  block, counts its nonce up, and its Merkle root is the one \<open>VerifyBlock\<close> recomputes.\<close>
theorem GenerateIdBlock_valid:
  assumes "GenerateIdBlock L conf ord1 ord2 usingPoW difficulty now randNum c = Some b"
  shows "VerifyBlock L b \<and> hashAt (ParentHashes (sH b)) 0 = hashAt (TopBlockHash c) 0 \<and>
         ParentHashes (sH b) \<noteq> [] \<and>
         (\<exists>top. TopBlock c = Some top \<and> sNonce (sH b) = sNonce (sH top) + 1) \<and>
         BInterface (sB b) = Some randNum \<and> (usingPoW \<longrightarrow> Bits (sH b) = BigToCompact difficulty)"
  using assms
  by (auto simp: GenerateIdBlock_def bind_eq_Some_conv VerifyBlock_def TopBlock_def hashAt_def)

subsection \<open>Examples\<close>

definition demoKV :: "((bytes \<times> bytes) \<times> bytes) list KV" where
  "demoKV = \<lparr>kvPut = (\<lambda>b k v db. if k = [] then None else Some (mput (b, k) v db)),
             kvGet = (\<lambda>b k db. mget db (b, k))\<rparr>"

lemma demoKV_laws: "kvLaws demoKV"
  by (auto simp: kvLaws_def demoKV_def mget_mput split: if_splits)

definition demoStd :: "bytes \<Rightarrow> (nat, hash) gomap \<Rightarrow> StdBlock" where
  "demoStd root parents =
     \<lparr>sH = \<lparr>ParentHashes = parents, MerkleRoot = root, StateRoot = [], Timestamp = 0, sNonce = 0, Bits = 0\<rparr>,
      sB = \<lparr>Transactions = [GenerateRegisterTx root ''10.0.0.1:1'' 0], BInterface = None\<rparr>\<rparr>"

definition demoLib :: Lib where
  \<comment> \<open>a transaction is hashed to its sender, a head to its Merkle root; two blocks can be decoded\<close>
  "demoLib = \<lparr>sha = (\<lambda>x. x), txHash = Sender, stdJson = MerkleRoot, relayHash = OutTxRoot,
     fideHash = IntraTxRoot, subHash = (\<lambda>h. case h of None \<Rightarrow> [] | Some c \<Rightarrow> RemoteBlockHash c),
     encStd = (\<lambda>b. MerkleRoot (sH b)),
     decStd = (\<lambda>x. if x = ''g'' then Some (demoStd ''g'' []) else
                   if x = ''h'' then Some (demoStd ''h'' [(0, ''g'')]) else None),
     encRelay = (\<lambda>b. OutTxRoot (rH b)), decRelay = (\<lambda>x a. Some (emptyRelayBlock 0 a)),
     encFide = (\<lambda>b. IntraTxRoot (fH b)), decFide = (\<lambda>x a. Some (emptyFideBlock 0 a)),
     encodePub = (\<lambda>k. beBytes 1 (keyN k)), decodePub = (\<lambda>x. Some \<lparr>keyN = beNat x, keyE = 3\<rparr>)\<rparr>"

definition demoChain :: "((bytes \<times> bytes) \<times> bytes) list Chain" where
  "demoChain = \<lparr>TopBlockHash = [], ChStorage = [], ChTxPool = demoPool0, ChBlocks = []\<rparr>"

lemma demo_Append:
  "\<exists>c. foldM (Append demoLib (demoConf UniRelay) demoKV) [demoStd ''g'' [], demoStd ''h'' [(0, ''g'')]] demoChain
       = Some c"
  by (simp add: Append_def RemoveTxs_def demoLib_def demoStd_def demoChain_def AddBlock_def AddHeader_def
      UpdateNewestBlock_def demoKV_def StdHash_def EncodeH_def Let_def removeOne_def TxExist_def
      SInShard_def RInShard_def GenerateRegisterTx_def NewTransaction_def demoPool0_def updList_def
      cell_def replicate_6)

theorem GetBlocks_Append_witness:
  "\<exists>c. foldM (Append demoLib (demoConf UniRelay) demoKV) [demoStd ''g'' [], demoStd ''h'' [(0, ''g'')]] demoChain
       = Some c \<and>
       GetBlocks 2 demoLib demoKV c = Some [demoStd ''h'' [(0, ''g'')], demoStd ''g'' []]"
proof -
  obtain c where c: "foldM (Append demoLib (demoConf UniRelay) demoKV)
      [demoStd ''g'' [], demoStd ''h'' [(0, ''g'')]] demoChain = Some c"
    using demo_Append by blast
  have "GetBlocks 2 demoLib demoKV c = Some (rev [demoStd ''g'' [], demoStd ''h'' [(0, ''g'')]])"
    by (rule GetBlocks_Append[OF demoKV_laws c]) (simp_all add: demoLib_def demoStd_def StdHash_def hashAt_def)
  with c show ?thesis by auto
qed

theorem GenerateIdBlock_valid_witness:
  "\<exists>b. GenerateIdBlock demoLib (demoConf UniRelay) rev rev False 0 5 ''r''
         (demoChain\<lparr>TopBlockHash := [(0, ''g'')], ChBlocks := [(''g'', demoStd ''g'' [])]\<rparr>) = Some b \<and>
       VerifyBlock demoLib b \<and> hashAt (ParentHashes (sH b)) 0 = ''g''"
proof -
  obtain b where b: "GenerateIdBlock demoLib (demoConf UniRelay) rev rev False 0 5 ''r''
         (demoChain\<lparr>TopBlockHash := [(0, ''g'')], ChBlocks := [(''g'', demoStd ''g'' [])]\<rparr>) = Some b"
    by (simp add: GenerateIdBlock_def demoChain_def demoPool0_def PackageInnerTxs_def cell_def replicate_6
        hashAt_def)
  with GenerateIdBlock_valid[OF b] show ?thesis by (auto simp: hashAt_def)
qed

end
