(* ===== verification/Quorum.thy ===== *)
theory Quorum
  imports Prelude
begin

text \<open>
  The vote counting that the domains share.  Each of them takes
  \<open>maliciousAmount = (n + 2) / 3 - 1\<close> of its \<open>n\<close> nodes for faulty and waits for \<open>n - maliciousAmount\<close>
  votes.  The locale \<open>quorum_rule\<close> states what the protocols need of such a rule; the components that
  count votes interpret it for their own arithmetic (\<open>uint64\<close> in the identity chain, \<open>int\<close> in the
  shards and in \<open>FideConfig\<close>).
\<close>

definition faultsTolerated :: "nat \<Rightarrow> nat" where
  "faultsTolerated n = (n - 1) div 3"

locale quorum_rule =
  fixes thr :: "nat \<Rightarrow> nat" and limit :: nat
  assumes overlap: "0 < n \<Longrightarrow> n < limit \<Longrightarrow> n + faultsTolerated n < 2 * thr n"
    and reachable: "0 < n \<Longrightarrow> n < limit \<Longrightarrow> thr n \<le> n - faultsTolerated n"
begin

lemma quorums_share_correct:
  assumes "finite V" "0 < card V" "card V < limit" "A \<subseteq> V" "B \<subseteq> V" "F \<subseteq> V"
    and "thr (card V) \<le> card A" "thr (card V) \<le> card B" "card F \<le> faultsTolerated (card V)"
  shows "\<exists>v \<in> A \<inter> B. v \<notin> F"
proof (rule ccontr)
  assume "\<not> ?thesis"
  then have sub: "A \<inter> B \<subseteq> F" by blast
  have fin: "finite A" "finite B" "finite F" using assms(1,4-6) finite_subset by blast+
  have "card A + card B = card (A \<union> B) + card (A \<inter> B)" using fin(1,2) by (rule card_Un_Int)
  also have "\<dots> \<le> card V + card F"
    using assms(1,4,5) sub fin by (intro add_mono card_mono) auto
  finally have "2 * thr (card V) \<le> card V + faultsTolerated (card V)" using assms(7-9) by linarith
  with overlap[OF assms(2,3)] show False by linarith
qed

lemma correct_are_quorum:
  assumes "finite V" "0 < card V" "card V < limit" "F \<subseteq> V" "card F \<le> faultsTolerated (card V)"
  shows "thr (card V) \<le> card (V - F)"
proof -
  have "card (V - F) = card V - card F" using assms by (intro card_Diff_subset) (auto intro: finite_subset)
  then show ?thesis using reachable[OF assms(2,3)] assms(5) by linarith
qed

end

lemma ceil_third: "0 < (n::nat) \<Longrightarrow> (n + 2) div 3 - 1 = faultsTolerated n"
  by (simp add: faultsTolerated_def)

lemma faultsTolerated_bound: "0 < n \<Longrightarrow> 3 * faultsTolerated n < n"
  by (simp add: faultsTolerated_def)

end
