(* ===== verification/IdChain.thy ===== *)
theory IdChain
  imports Chain Wire Quorum "HOL-Library.List_Lexorder" "HOL-Library.Char_ord"
begin

text \<open>
  \<^verbatim>\<open>src/idChain/\<close>: the identity chain, which records the nodes of the network, wakes them up, draws
  the main node and counts votes; the registration of a node
  (\<^verbatim>\<open>src/Comm/IdChainComm/Register.go\<close>, \<^verbatim>\<open>BroadcastTx.go\<close>); the drawing of a domain's main node
  (\<open>SelectMain\<close> of \<^verbatim>\<open>src/Interfaces/Domain.go\<close>).

  A node is an entry of \<open>NodeMap\<close>.  The code keeps pointers to some of them (\<open>mainNode\<close>,
  \<open>RunningNode\<close>); here a pointer is the key of the entry, and \<open>mainNode\<close> is \<open>None\<close> for \<open>nil\<close>.
  Loops over the map that only count or only change the entry they look at do not depend on the
  order and are written with \<open>length\<close>, \<open>filter\<close> and \<open>map\<close>.
\<close>

record Node =
  NodeId :: PublicKey
  ShardID :: nat
  IpAddr :: bytes
  Activating :: bool
  Sleeping :: bool
  Silence :: "64 word"

definition IsRunning :: "Node \<Rightarrow> bool" where "IsRunning n \<longleftrightarrow> \<not> Sleeping n \<and> Activating n"
definition IsWaiting :: "Node \<Rightarrow> bool" where "IsWaiting n \<longleftrightarrow> Sleeping n \<and> \<not> Activating n"
definition IsPreparing :: "Node \<Rightarrow> bool" where "IsPreparing n \<longleftrightarrow> Sleeping n \<and> Activating n"
definition IsLegal :: "Node \<Rightarrow> bool" where "IsLegal n \<longleftrightarrow> Sleeping n \<or> Activating n"
definition NodeState :: "Node \<Rightarrow> nat" where "NodeState n = (if IsRunning n then 0 else 1)"

definition StrKey :: "Lib \<Rightarrow> Node \<Rightarrow> bytes" where "StrKey L n = encodePub L (NodeId n)"

fun splitColon :: "bytes \<Rightarrow> bytes list" where
  \<comment> \<open>\<open>strings.Split(s, ":")\<close>\<close>
  "splitColon [] = [[]]"
| "splitColon (c # cs) =
     (if c = CHR '':'' then [] # splitColon cs
      else case splitColon cs of [] \<Rightarrow> [[c]] | p # ps \<Rightarrow> (c # p) # ps)"

definition Port :: "Node \<Rightarrow> bytes option" where
  "Port n = slot (splitColon (IpAddr n)) 1"

type_synonym nodeMap = "(bytes, Node) gomap"

record 'd IdChain =
  NodeMap :: nodeMap
  roundId :: "64 word"
  viewId :: "64 word"
  randNum :: "64 word"
  mainNode :: "bytes option"
  idNonce :: "64 word"
  IdBlocks :: "'d Chain"   \<comment> \<open>the field \<open>Chain\<close>\<close>
  tempChainInfo :: "bytes option"
  tmpTopHash :: hash

definition Init :: "Conf \<Rightarrow> 'd \<Rightarrow> 'd IdChain option" where
  \<comment> \<open>with the database opened for the port\<close>
  "Init conf db =
     do { c \<leftarrow> NewChain conf db;
          Some \<lparr>NodeMap = [], roundId = 0, viewId = 0, randNum = 0, mainNode = None, idNonce = 0,
                IdBlocks = c, tempChainInfo = None, tmpTopHash = EmptyHash\<rparr> }"

definition InitRunningNode :: "PublicKey \<Rightarrow> bytes \<Rightarrow> Node" where
  "InitRunningNode key address =
     \<lparr>NodeId = key, ShardID = 0, IpAddr = address, Activating = False, Sleeping = False, Silence = 0\<rparr>"

definition AppendNode :: "Lib \<Rightarrow> bytes \<Rightarrow> PublicKey \<Rightarrow> 'd IdChain \<Rightarrow> 'd IdChain" where
  "AppendNode L nodeAddr nodeID idc =
     (let nodePubKey = encodePub L nodeID
      in if mget (NodeMap idc) nodePubKey = None
         then idc\<lparr>NodeMap := mput nodePubKey
                \<lparr>NodeId = nodeID, ShardID = 0, IpAddr = nodeAddr, Activating = False, Sleeping = True,
                 Silence = 0\<rparr> (NodeMap idc)\<rparr>
         else idc)"

definition RunningNodeAmount :: "nodeMap \<Rightarrow> 64 word" where
  "RunningNodeAmount m = of_nat (length (filter IsRunning (map snd m)))"

definition LegalNodeAmount :: "nodeMap \<Rightarrow> 64 word" where
  "LegalNodeAmount m = of_nat (length (filter IsLegal (map snd m)))"

definition quorumOf :: "64 word \<Rightarrow> 64 word" where
  "quorumOf amount = (let maliciousAmount = (amount + 2) div 3 - 1 in amount - maliciousAmount)"

definition Threshold :: "nodeMap \<Rightarrow> 64 word" where
  "Threshold m = quorumOf (RunningNodeAmount m)"

definition GlobalThreshold :: "nodeMap \<Rightarrow> 64 word" where
  "GlobalThreshold m = quorumOf (LegalNodeAmount m)"

definition activate :: "Node \<Rightarrow> Node" where
  "activate n = (if \<not> Activating n \<and> Sleeping n then n\<lparr>Activating := True\<rparr> else n)"

definition confirm :: "Node \<Rightarrow> Node" where
  "confirm n = (if Activating n \<and> Sleeping n then n\<lparr>Sleeping := False\<rparr> else n)"

definition mapNodes :: "(Node \<Rightarrow> Node) \<Rightarrow> nodeMap \<Rightarrow> nodeMap" where
  "mapNodes f m = map (\<lambda>(k, n). (k, f n)) m"

definition ActivateAll :: "'d IdChain \<Rightarrow> 'd IdChain" where
  "ActivateAll idc = idc\<lparr>NodeMap := mapNodes activate (NodeMap idc)\<rparr>"

definition ActivateConfirm :: "'d IdChain \<Rightarrow> 'd IdChain" where
  "ActivateConfirm idc = idc\<lparr>NodeMap := mapNodes confirm (NodeMap idc)\<rparr>"

definition StateOf :: "'d IdChain \<Rightarrow> (bytes, nat) gomap" where
  "StateOf idc = map (\<lambda>(k, n). (k, NodeState n)) (NodeMap idc)"

definition NonceNext :: "'d IdChain \<Rightarrow> 64 word \<times> 'd IdChain" where
  \<comment> \<open>\<open>Nonce\<close> and \<open>nxtNonce\<close>\<close>
  "NonceNext idc = (idNonce idc, idc\<lparr>idNonce := idNonce idc + 1\<rparr>)"

subsection \<open>Drawing the main node\<close>

definition GetSortedKeySlice :: "nodeMap \<Rightarrow> PublicKey list option" where
  \<comment> \<open>\<open>nil\<close> for an empty map; the keys as the loop collects them, before they are sorted\<close>
  "GetSortedKeySlice keysMap =
     (if keysMap = [] then None else Some (map NodeId (filter IsRunning (map snd keysMap))))"

definition sortKeys :: "PublicKey list \<Rightarrow> PublicKey list" where
  \<comment> \<open>\<open>sort.Sort\<close> by the decimal text of the modulus; keys with the same modulus, which Go may leave in
     any order, stay in the order they are in\<close>
  "sortKeys keys = sort_key (\<lambda>k. natDec (keyN k)) keys"

definition SelectRandomKey :: "nodeMap \<Rightarrow> 64 word \<Rightarrow> PublicKey option" where
  "SelectRandomKey keysMap randomIndex =
     do { keys \<leftarrow> GetSortedKeySlice keysMap;
          if keys = [] then None
          else slot (sortKeys keys) (unat (randomIndex mod of_nat (length keys))) }"

definition pointer :: "nodeMap \<Rightarrow> bytes \<Rightarrow> bytes option" where
  \<comment> \<open>\<open>NodeMap[k]\<close> as a pointer\<close>
  "pointer m k = (if mget m k = None then None else Some k)"

definition SelectMain :: "Lib \<Rightarrow> 'd IdChain \<Rightarrow> 'd IdChain option" where
  "SelectMain L idc =
     do { key \<leftarrow> SelectRandomKey (NodeMap idc) (randNum idc);
          Some (idc\<lparr>mainNode := pointer (NodeMap idc) (encodePub L key)\<rparr>) }"

fun portHolder :: "bytes \<Rightarrow> nodeMap \<Rightarrow> bytes option option" where
  \<comment> \<open>the first node with the port, in the order of the iteration; an address without a port panics\<close>
  "portHolder port [] = Some None"
| "portHolder port ((k, n) # m) = do { p \<leftarrow> Port n; if p = port then Some (Some k) else portHolder port m }"

definition SelectMainDomain :: "Lib \<Rightarrow> bool \<Rightarrow> bytes \<Rightarrow> nodeMap \<Rightarrow> 64 word \<Rightarrow> bytes option \<Rightarrow> bytes option option" where
  \<comment> \<open>\<open>Interfaces.SelectMain\<close> on the map of a domain whose main node is \<open>old\<close>; \<open>spy\<close> is the conjunction
     of the spy settings.  The outer \<open>None\<close> is a panic.\<close>
  "SelectMainDomain L spy mainPort m rnd old =
     do { key \<leftarrow> SelectRandomKey m rnd;
          let newMain = encodePub L key
          in if spy
             then do { holder \<leftarrow> portHolder mainPort m;
                       Some (case holder of Some k \<Rightarrow> Some k | None \<Rightarrow> old) }
             else Some (pointer m newMain) }"

subsection \<open>Appending a block\<close>

definition registerOne :: "Lib \<Rightarrow> Transaction \<Rightarrow> 'd IdChain \<Rightarrow> 'd IdChain option" where
  \<comment> \<open>the loop body of \<open>Append\<close>; a key that cannot be decoded ends the program\<close>
  "registerOne L tx idc =
     (if TxType tx = RegisterTx \<and> mget (NodeMap idc) (Sender tx) = None
      then do { key \<leftarrow> decodePub L (Sender tx); Some (AppendNode L (Recipient tx) key idc) }
      else Some idc)"

definition drawnNumber :: "StdBlock \<Rightarrow> 64 word \<Rightarrow> 64 word option" where
  \<comment> \<open>the random number the block carries, or the old one\<close>
  "drawnNumber block old =
     (case BInterface (sB block) of None \<Rightarrow> Some old | Some randByte \<Rightarrow> BytesToUint randByte)"

definition chooseMain :: "Lib \<Rightarrow> StdBlock \<Rightarrow> 'd IdChain \<Rightarrow> 'd IdChain option" where
  "chooseMain L block idc =
     (if length (NodeMap idc) = 1 then Some (idc\<lparr>mainNode := Some (fst (hd (NodeMap idc)))\<rparr>)
      else do { rnd \<leftarrow> drawnNumber block (randNum idc);
                SelectMain L (idc\<lparr>randNum := rnd\<rparr>) })"

definition Append :: "Lib \<Rightarrow> Conf \<Rightarrow> 'd KV \<Rightarrow> StdBlock \<Rightarrow> 'd IdChain \<Rightarrow> 'd IdChain option" where
  "Append L conf kv block idc =
     do { c \<leftarrow> Chain.Append L conf kv block (IdBlocks idc);
          idc1 \<leftarrow> foldM (registerOne L) (Transactions (sB block)) (idc\<lparr>IdBlocks := c\<rparr>);
          idc2 \<leftarrow> chooseMain L block (ActivateConfirm (ActivateAll idc1));
          Some (idc2\<lparr>viewId := 0, roundId := roundId idc2 + 1\<rparr>) }"



definition IsIdMainNode :: "bytes \<Rightarrow> 'd IdChain \<Rightarrow> bool" where
  "IsIdMainNode self idc \<longleftrightarrow> mainNode idc = Some self"

subsection \<open>Registration\<close>

definition RegisterHandleRequest ::
  "Lib \<Rightarrow> Conf \<Rightarrow> Message \<Rightarrow> 'd IdChain \<Rightarrow> (Transaction \<times> bytes \<times> 'd IdChain) option" where
  \<comment> \<open>records the registration; the result is the transaction to broadcast and the address to answer\<close>
  "RegisterHandleRequest L conf msg idc =
     do { remoteAddr \<leftarrow> slot (ParseContent (MsgContent msg)) 0;
          let (nonce, idc1) = NonceNext idc; tx = GenerateRegisterTx (RemoteInfo msg) remoteAddr nonce
          in do { c \<leftarrow> RecordTx L conf tx (IdBlocks idc1);
                  Some (tx, remoteAddr, idc1\<lparr>IdBlocks := c\<rparr>) } }"

definition RegisterBroadHandleRequest ::
  "(bytes \<Rightarrow> Transaction) \<Rightarrow> Lib \<Rightarrow> Conf \<Rightarrow> bytes \<Rightarrow> Message \<Rightarrow> 'd IdChain \<Rightarrow> 'd IdChain option" where
  \<comment> \<open>\<open>decTx\<close> is \<open>Tx.DecodeTx\<close>, which reads the JSON form; \<open>self\<close> is the key of the running node\<close>
  "RegisterBroadHandleRequest decTx L conf self msg idc =
     (if RemoteInfo msg = self then Some idc
      else do { b \<leftarrow> slot (ParseContent (MsgContent msg)) 0;
                c \<leftarrow> RecordTx L conf (decTx b) (IdBlocks idc);
                Some (idc\<lparr>IdBlocks := c\<rparr>) })"



subsection \<open>Votes\<close>

lemma quorumOf_nat:
  assumes "0 < n" "n < 2 ^ 62"
  shows "unat (quorumOf (of_nat n)) = n - faultsTolerated n"
proof -
  have n: "unat (of_nat n :: 64 word) = n"
    using assms(2) by (simp add: unat_of_nat take_bit_nat_eq_self)
  have n2: "unat ((of_nat n :: 64 word) + 2) = n + 2"
    using assms(2) n by (simp add: unat_word_ariths)
  have q: "unat (((of_nat n :: 64 word) + 2) div 3) = (n + 2) div 3"
    by (simp add: unat_div_distrib n2)
  have ge: "1 \<le> (n + 2) div 3" using assms(1) by simp
  then have m: "unat (((of_nat n :: 64 word) + 2) div 3 - 1) = faultsTolerated n"
    using ceil_third[OF assms(1)] q
    by (subst unat_sub) (simp_all add: word_le_nat_alt)
  have "faultsTolerated n \<le> n" using faultsTolerated_bound[OF assms(1)] by linarith
  then show ?thesis
    using m n by (simp add: quorumOf_def Let_def unat_sub word_le_nat_alt)
qed

interpretation uintQuorum: quorum_rule "\<lambda>n. unat (quorumOf (of_nat n))" "2 ^ 62"
proof
  fix n :: nat
  assume n: "0 < n" "n < 2 ^ 62"
  show "n + faultsTolerated n < 2 * unat (quorumOf (of_nat n))"
    using faultsTolerated_bound[OF n(1)] unfolding quorumOf_nat[OF n] by linarith
  show "unat (quorumOf (of_nat n)) \<le> n - faultsTolerated n" using quorumOf_nat[OF n] by simp
qed

definition runningKeys :: "nodeMap \<Rightarrow> bytes set" where
  "runningKeys m = {k. \<exists>n. mget m k = Some n \<and> IsRunning n}"

lemma runningKeys_alt: "mwf m \<Longrightarrow> runningKeys m = set (map fst (filter (IsRunning \<circ> snd) m))"
  by (force simp: runningKeys_def set_mwf_iff[symmetric])

lemma card_runningKeys:
  assumes "mwf m"
  shows "finite (runningKeys m)" "card (runningKeys m) = length (filter IsRunning (map snd m))"
proof -
  have "distinct (map fst (filter (IsRunning \<circ> snd) m))"
    using assms by (simp add: mwf_def distinct_map_filter)
  then have "card (set (map fst (filter (IsRunning \<circ> snd) m))) = length (filter (IsRunning \<circ> snd) m)"
    using distinct_card by fastforce
  then show "card (runningKeys m) = length (filter IsRunning (map snd m))"
    by (simp add: runningKeys_alt[OF assms] filter_map)
  show "finite (runningKeys m)" by (simp add: runningKeys_alt[OF assms])
qed

text \<open>quorums of the identity chain: as long as at most a third (rounded down) of the other running
  nodes are faulty, any two sets of running nodes that reach \<open>Threshold\<close> have a correct node in
  common, and the correct nodes alone reach it.\<close>
theorem Threshold_quorums:
  assumes "mwf m" "runningKeys m \<noteq> {}" "card (runningKeys m) < 2 ^ 62"
    and "A \<subseteq> runningKeys m" "B \<subseteq> runningKeys m" "F \<subseteq> runningKeys m"
    and "unat (Threshold m) \<le> card A" "unat (Threshold m) \<le> card B"
    and "card F \<le> (card (runningKeys m) - 1) div 3"
  shows "(\<exists>v \<in> A \<inter> B. v \<notin> F) \<and> unat (Threshold m) \<le> card (runningKeys m - F)"
proof -
  note card = card_runningKeys[OF assms(1)]
  have thr: "Threshold m = quorumOf (of_nat (card (runningKeys m)))"
    by (simp add: Threshold_def RunningNodeAmount_def card(2))
  have pos: "0 < card (runningKeys m)" using assms(2) card(1) by (simp add: card_gt_0_iff)
  show ?thesis
    using uintQuorum.quorums_share_correct[OF card(1) pos assms(3-6)]
      uintQuorum.correct_are_quorum[OF card(1) pos assms(3,6)] assms(7-9)
    by (simp add: thr faultsTolerated_def)
qed

subsection \<open>The draw\<close>

lemma natDec_inj: "natDec m = natDec n \<Longrightarrow> m = n"
  using decVal_natDec by (metis option.inject)

definition sameNodes :: "nodeMap \<Rightarrow> nodeMap \<Rightarrow> bool" where
  \<comment> \<open>the same entries, met in another order\<close>
  "sameNodes m m' \<longleftrightarrow> mset m = mset m'"

lemma SelectRandomKey_perm:
  assumes "sameNodes m m'" "inj_on keyN (NodeId ` {n \<in> snd ` set m. IsRunning n})"
  shows "SelectRandomKey m r = SelectRandomKey m' r"
proof -
  let ?ks = "\<lambda>m. map NodeId (filter IsRunning (map snd m))"
  have ms: "mset (?ks m) = mset (?ks m')"
    using assms(1) unfolding sameNodes_def by (metis mset_filter mset_map)
  have "inj_on (\<lambda>k. natDec (keyN k)) (set (?ks m))"
    using assms(2) natDec_inj by (fastforce simp: inj_on_def)
  then have "sortKeys (?ks m) = sortKeys (?ks m')"
    unfolding sortKeys_def using ms by (intro sort_key_inj_key_eq) auto
  moreover have "length (?ks m) = length (?ks m')" by (rule mset_eq_length[OF ms])
  moreover have "m = [] \<longleftrightarrow> m' = []"
    using assms(1) unfolding sameNodes_def by (metis mset_zero_iff)
  moreover have "?ks m = [] \<longleftrightarrow> ?ks m' = []" using ms by (metis mset_zero_iff)
  moreover have "SelectRandomKey m r = (if m = [] \<or> ?ks m = [] then None
      else slot (sortKeys (?ks m)) (unat (r mod of_nat (length (?ks m)))))" for m
    by (simp add: SelectRandomKey_def GetSortedKeySlice_def)
  ultimately show ?thesis by presburger
qed

text \<open>the draw does not depend on the order in which the map is read: two nodes with the same
  \<open>NodeMap\<close> and the same random number draw the same main node, provided no two running nodes
  share a modulus.\<close>
theorem SelectRandomKey_order_independent:
  assumes "sameNodes m m'" "inj_on keyN (NodeId ` {n \<in> snd ` set m. IsRunning n})"
  shows "SelectRandomKey m r = SelectRandomKey m' r"
  by (rule SelectRandomKey_perm[OF assms])

subsection \<open>What appending a block does to the nodes\<close>

text \<open>The replicated state, without the chain, the pool and the caches, and what a block does to it.\<close>

record View =
  vMap :: nodeMap
  vRound :: "64 word"
  vView :: "64 word"
  vRand :: "64 word"
  vMain :: "bytes option"

definition viewOf :: "'d IdChain \<Rightarrow> View" where
  "viewOf idc = \<lparr>vMap = NodeMap idc, vRound = roundId idc, vView = viewId idc, vRand = randNum idc,
                vMain = mainNode idc\<rparr>"

definition registerNode :: "Lib \<Rightarrow> Transaction \<Rightarrow> nodeMap \<Rightarrow> nodeMap option" where
  "registerNode L tx m =
     (if TxType tx \<noteq> RegisterTx \<or> mget m (Sender tx) \<noteq> None then Some m
      else do { key \<leftarrow> decodePub L (Sender tx);
                Some (if mget m (encodePub L key) \<noteq> None then m
                      else mput (encodePub L key)
                             \<lparr>NodeId = key, ShardID = 0, IpAddr = Recipient tx, Activating = False,
                              Sleeping = True, Silence = 0\<rparr> m) })"

definition applyBlock :: "Lib \<Rightarrow> StdBlock \<Rightarrow> View \<Rightarrow> View option" where
  "applyBlock L b v =
     do { m0 \<leftarrow> foldM (registerNode L) (Transactions (sB b)) (vMap v);
          let m = mapNodes (confirm \<circ> activate) m0
          in if length m = 1
             then Some (v\<lparr>vMap := m, vRound := vRound v + 1, vView := 0, vMain := Some (fst (hd m))\<rparr>)
             else do { r \<leftarrow> drawnNumber b (vRand v);
                       key \<leftarrow> SelectRandomKey m r;
                       Some \<lparr>vMap = m, vRound = vRound v + 1, vView = 0, vRand = r,
                             vMain = pointer m (encodePub L key)\<rparr> } }"

lemma registerOne_node:
  "registerOne L tx idc = map_option (\<lambda>m. idc\<lparr>NodeMap := m\<rparr>) (registerNode L tx (NodeMap idc))"
  by (cases "decodePub L (Sender tx)")
     (auto simp: registerOne_def registerNode_def AppendNode_def Let_def)

lemma foldM_registerOne:
  "foldM (registerOne L) txs idc =
   map_option (\<lambda>m. idc\<lparr>NodeMap := m\<rparr>) (foldM (registerNode L) txs (NodeMap idc))"
proof (induction txs arbitrary: idc)
  case (Cons tx txs)
  then show ?case by (cases "registerNode L tx (NodeMap idc)") (auto simp: registerOne_node)
qed simp

lemma mapNodes_comp: "mapNodes f (mapNodes g m) = mapNodes (f \<circ> g) m"
  by (simp add: mapNodes_def split_beta)

lemma chooseMain_cases:
  assumes "chooseMain L b i = Some j"
  shows "if length (NodeMap i) = 1 then j = i\<lparr>mainNode := Some (fst (hd (NodeMap i)))\<rparr>
         else \<exists>r key. drawnNumber b (randNum i) = Some r \<and> SelectRandomKey (NodeMap i) r = Some key \<and>
            j = i\<lparr>randNum := r, mainNode := pointer (NodeMap i) (encodePub L key)\<rparr>"
  using assms unfolding chooseMain_def SelectMain_def Let_def
  by (cases "length (NodeMap i) = 1") (auto simp: bind_eq_Some_conv)

lemma applyBlock_Append:
  assumes "Append L conf kv b idc = Some idc'"
  shows "applyBlock L b (viewOf idc) = Some (viewOf idc')"
proof -
  obtain c m idc2 where a: "foldM (registerNode L) (Transactions (sB b)) (NodeMap idc) = Some m"
    "chooseMain L b (ActivateConfirm (ActivateAll (idc\<lparr>IdBlocks := c, NodeMap := m\<rparr>))) = Some idc2"
    "idc' = idc2\<lparr>viewId := 0, roundId := roundId idc2 + 1\<rparr>"
    using assms by (auto simp: Append_def bind_eq_Some_conv foldM_registerOne)
  let ?m = "mapNodes (confirm \<circ> activate) m"
  let ?i = "ActivateConfirm (ActivateAll (idc\<lparr>IdBlocks := c, NodeMap := m\<rparr>))"
  have i: "?i = idc\<lparr>IdBlocks := c, NodeMap := ?m\<rparr>"
    by (simp add: ActivateAll_def ActivateConfirm_def mapNodes_comp)
  note ch = chooseMain_cases[OF a(2)[unfolded i]]
  show ?thesis
  proof (cases "length ?m = 1")
    case True
    then show ?thesis using ch a(3) by (simp add: applyBlock_def a(1) viewOf_def Let_def)
  next
    case False
    with ch obtain r key where
      "drawnNumber b (randNum idc) = Some r" "SelectRandomKey ?m r = Some key"
      "idc2 = idc\<lparr>IdBlocks := c, NodeMap := ?m, randNum := r, mainNode := pointer ?m (encodePub L key)\<rparr>"
      by auto
    then show ?thesis using False a(3) by (simp add: applyBlock_def a(1) viewOf_def Let_def)
  qed
qed

lemma applyBlock_Append_all:
  "foldM (Append L conf kv) bs idc = Some idc' \<Longrightarrow> foldM (applyBlock L) bs (viewOf idc) = Some (viewOf idc')"
  by (induction bs arbitrary: idc) (auto simp: bind_eq_Some_conv dest: applyBlock_Append)

definition viewOk :: "Lib \<Rightarrow> View \<Rightarrow> bool" where
  "viewOk L v \<longleftrightarrow> mwf (vMap v) \<and> (\<forall>k n. mget (vMap v) k = Some n \<longrightarrow> k = encodePub L (NodeId n))"

lemma mget_mapNodes [simp]: "mget (mapNodes f m) k = map_option f (mget m k)"
  by (induction m) (auto simp: mapNodes_def)

lemma mwf_mapNodes [simp]: "mwf (mapNodes f m) = mwf m"
  by (simp add: mwf_def mapNodes_def split_beta comp_def)

lemma keyed_ok:
  assumes "distinct (mkeys m)" "\<forall>x\<in>set m. fst x = encodePub L (NodeId (snd x))"
  shows "mwf m \<and> (\<forall>k n. mget m k = Some n \<longrightarrow> k = encodePub L (NodeId n))"
  using assms by (auto simp: mwf_def dest!: map_of_SomeD)

lemma viewOk_register:
  assumes "foldM (registerNode L) txs m = Some m'"
    and "mwf m \<and> (\<forall>k n. mget m k = Some n \<longrightarrow> k = encodePub L (NodeId n))"
  shows "mwf m' \<and> (\<forall>k n. mget m' k = Some n \<longrightarrow> k = encodePub L (NodeId n))"
  using assms
  by (rule foldM_invariant[where P = "\<lambda>m. mwf m \<and> (\<forall>k n. mget m k = Some n \<longrightarrow> k = encodePub L (NodeId n))"])
     (auto simp: registerNode_def bind_eq_Some_conv mget_mput split: if_splits)

lemma NodeId_activated [simp]: "NodeId (confirm (activate n)) = NodeId n"
  by (simp add: confirm_def activate_def)

lemma activated_awake: "\<not> Sleeping (confirm (activate n))"
  by (simp add: confirm_def activate_def)

lemma SelectRandomKey_running:
  "SelectRandomKey m r = Some key \<Longrightarrow> \<exists>n \<in> snd ` set m. IsRunning n \<and> NodeId n = key"
proof -
  assume "SelectRandomKey m r = Some key"
  then have "key \<in> set (sortKeys (map NodeId (filter IsRunning (map snd m))))"
    by (auto simp: SelectRandomKey_def GetSortedKeySlice_def bind_eq_Some_conv slot_eq_Some split: if_splits)
  then show ?thesis by (auto simp: sortKeys_def)
qed

lemma applyBlock_ok:
  assumes "viewOk L v" "applyBlock L b v = Some v'"
  shows "viewOk L v'" "\<forall>n \<in> snd ` set (vMap v'). \<not> Sleeping n"
    "\<exists>k n. vMain v' = Some k \<and> mget (vMap v') k = Some n \<and> (length (vMap v') = 1 \<or> IsRunning n)"
    "vView v' = 0 \<and> vRound v' = vRound v + 1"
proof -
  obtain m0 where m0: "foldM (registerNode L) (Transactions (sB b)) (vMap v) = Some m0"
    using assms(2) by (auto simp: applyBlock_def bind_eq_Some_conv)
  have ok0: "mwf m0 \<and> (\<forall>k n. mget m0 k = Some n \<longrightarrow> k = encodePub L (NodeId n))"
    by (rule viewOk_register[OF m0]) (use assms(1) in \<open>simp add: viewOk_def\<close>)
  let ?m = "mapNodes (confirm \<circ> activate) m0"
  have map: "vMap v' = ?m" "vView v' = 0 \<and> vRound v' = vRound v + 1"
    using assms(2) m0 by (auto simp: applyBlock_def Let_def bind_eq_Some_conv split: if_splits)
  then show ok: "viewOk L v'" "vView v' = 0 \<and> vRound v' = vRound v + 1"
    using ok0 by (auto simp: viewOk_def)
  show "\<forall>n \<in> snd ` set (vMap v'). \<not> Sleeping n"
    by (auto simp: map(1) mapNodes_def activated_awake)
  show "\<exists>k n. vMain v' = Some k \<and> mget (vMap v') k = Some n \<and> (length (vMap v') = 1 \<or> IsRunning n)"
  proof (cases "length ?m = 1")
    case True
    then obtain k n where kn: "?m = [(k, n)]" by (cases ?m) auto
    then have "vMain v' = Some k" using assms(2) m0 True by (auto simp: applyBlock_def Let_def)
    then show ?thesis using kn map(1) by auto
  next
    case False
    then obtain r key where k: "SelectRandomKey ?m r = Some key"
      "vMain v' = pointer ?m (encodePub L key)"
      using assms(2) m0 by (auto simp: applyBlock_def Let_def bind_eq_Some_conv)
    obtain k' n where n: "(k', n) \<in> set ?m" "IsRunning n" "NodeId n = key"
      using SelectRandomKey_running[OF k(1)] by auto
    then have get: "mget ?m k' = Some n" using ok0 by (simp add: set_mwf_iff)
    moreover have "k' = encodePub L key"
      using get n(3) ok(1) map(1) by (auto simp: viewOk_def)
    ultimately show ?thesis using k(2) n(2) map(1) by (auto simp: pointer_def)
  qed
qed

text \<open>C30: after any sequence of blocks the identity chain has a main node, which is in the map and running
  (or is the only node); no node is left asleep, every entry is stored under the node's own key, and
  every block has opened a new round with view 0.\<close>
theorem IdAppend_main_running:
  assumes "Init conf db = Some idc" "foldM (Append L conf kv) (bs @ [b]) idc = Some idc'"
  shows "(\<exists>k n. mainNode idc' = Some k \<and> mget (NodeMap idc') k = Some n \<and>
            (length (NodeMap idc') = 1 \<or> IsRunning n)) \<and>
         (\<forall>(k, n) \<in> set (NodeMap idc'). k = StrKey L n \<and> \<not> Sleeping n) \<and>
         viewId idc' = 0 \<and> roundId idc' = of_nat (length (bs @ [b]))"
proof -
  have run: "foldM (applyBlock L) (bs @ [b]) (viewOf idc) = Some (viewOf idc')"
    by (rule applyBlock_Append_all[OF assms(2)])
  have init: "viewOk L (viewOf idc)" "vRound (viewOf idc) = 0"
    using assms(1) by (auto simp: Init_def bind_eq_Some_conv viewOf_def viewOk_def mwf_def)
  obtain v where v: "foldM (applyBlock L) bs (viewOf idc) = Some v" "applyBlock L b v = Some (viewOf idc')"
    using run by (auto simp: foldM_append bind_eq_Some_conv)
  have "viewOk L v"
    by (rule foldM_invariant[OF v(1), of "viewOk L"]) (use init applyBlock_ok(1) in blast)+
  note r = applyBlock_ok[OF this v(2)]
  have "vRound v' = vRound w + of_nat (length cs)" if "foldM (applyBlock L) cs w = Some v'" "viewOk L w" for cs w v'
    using that
  proof (induction cs arbitrary: w)
    case (Cons a cs)
    then obtain y where y: "applyBlock L a w = Some y" "foldM (applyBlock L) cs y = Some v'"
      by (auto simp: bind_eq_Some_conv)
    then show ?case
      using Cons.IH[OF y(2)] applyBlock_ok(1,4)[OF Cons.prems(2) y(1)] by simp
  qed simp
  from this[OF v(1) init(1)] init(2) r(4) have round: "roundId idc' = of_nat (length (bs @ [b]))"
    by (simp add: viewOf_def)
  have "k = StrKey L n \<and> \<not> Sleeping n" if "(k, n) \<in> set (NodeMap idc')" for k n
  proof -
    have "mget (NodeMap idc') k = Some n" using that r(1) by (simp add: viewOk_def viewOf_def set_mwf_iff)
    moreover have "\<not> Sleeping (snd (k, n))" using that r(2) by (simp only: viewOf_def View.simps) blast
    ultimately show ?thesis using r(1) by (simp add: viewOk_def viewOf_def StrKey_def)
  qed
  then show ?thesis using r(3,4) round by (auto simp: viewOf_def)
qed

subsection \<open>Registration replays the chain\<close>







subsection \<open>Examples\<close>

lemma SelectRandomKey_total:
  assumes "filter IsRunning (map snd m) \<noteq> []" "length m < 2 ^ 64"
  shows "\<exists>k. SelectRandomKey m r = Some k"
proof -
  define rs where "rs = filter IsRunning (map snd m)"
  have "length rs \<le> length (map snd m)" unfolding rs_def by (rule length_filter_le)
  then have len: "length rs < 2 ^ 64" "0 < length rs"
    using assms(2) assms(1)[folded rs_def] by auto
  then have "unat (r mod of_nat (length rs)) < length rs"
    by (simp add: unat_mod_distrib unat_of_nat take_bit_nat_eq_self)
  moreover have "m \<noteq> []" using assms(1) by auto
  ultimately have "SelectRandomKey m r = Some (sortKeys (map NodeId rs) ! unat (r mod of_nat (length rs)))"
    using len(2)
    by (simp add: SelectRandomKey_def GetSortedKeySlice_def sortKeys_def slot_def rs_def[symmetric])
  then show ?thesis ..
qed

definition demoNode :: "nat \<Rightarrow> Node" where
  "demoNode k = \<lparr>NodeId = \<lparr>keyN = k, keyE = 3\<rparr>, ShardID = 0, IpAddr = ''10.0.0.1:1'', Activating = True,
                 Sleeping = False, Silence = 0\<rparr>"

definition demoMap :: nodeMap where
  "demoMap = [(''a'', demoNode 1), (''b'', demoNode 2), (''c'', demoNode 3), (''d'', demoNode 4)]"

lemma demoMap_running: "mwf demoMap" "runningKeys demoMap = {''a'', ''b'', ''c'', ''d''}"
proof -
  show m: "mwf demoMap" by (simp add: demoMap_def mwf_def)
  show "runningKeys demoMap = {''a'', ''b'', ''c'', ''d''}"
    unfolding runningKeys_alt[OF m] by (simp add: demoMap_def demoNode_def IsRunning_def)
qed

theorem Threshold_quorums_witness:
  "Threshold demoMap = 3 \<and> (\<exists>v \<in> {''a'', ''b'', ''c''} \<inter> {''b'', ''c'', ''d''}. v \<notin> {''b''})"
proof -
  have t: "Threshold demoMap = 3"
    by (simp add: Threshold_def RunningNodeAmount_def demoMap_def demoNode_def IsRunning_def quorumOf_def)
  show ?thesis
    using Threshold_quorums[of demoMap "{''a'', ''b'', ''c''}" "{''b'', ''c'', ''d''}" "{''b''}"] demoMap_running t
    by simp
qed

theorem SelectRandomKey_order_independent_witness:
  "SelectRandomKey demoMap 6 = SelectRandomKey (rev demoMap) 6"
  by (rule SelectRandomKey_order_independent)
     (auto simp: sameNodes_def demoMap_def demoNode_def inj_on_def)

definition demoIdc :: "((bytes \<times> bytes) \<times> bytes) list IdChain" where
  "demoIdc = \<lparr>NodeMap = [], roundId = 0, viewId = 0, randNum = 0, mainNode = None, idNonce = 0,
              IdBlocks = demoChain\<lparr>ChTxPool := (demoPool0\<lparr>localIndex := 0\<rparr>)\<rparr>,
              tempChainInfo = None, tmpTopHash = EmptyHash\<rparr>"

lemma demo_Init: "Init (demoConf UniRelay) [] = Some demoIdc"
  by (simp add: Init_def NewChain_def NewTxPool_def demoConf_fide demoConf_simps(6) cell_def demoIdc_def
      demoChain_def demoPool0_def)

abbreviation "demoG \<equiv> demoStd ''g'' []"
abbreviation "demoH \<equiv> demoStd ''h'' [(0, ''g'')]"

lemmas demo_append_simps =
  Append_def Chain.Append_def RemoveTxs_def demoLib_def demoStd_def demoChain_def AddBlock_def AddHeader_def
  UpdateNewestBlock_def demoKV_def StdHash_def EncodeH_def Let_def removeOne_def TxExist_def SInShard_def
  RInShard_def GenerateRegisterTx_def NewTransaction_def demoPool0_def updList_def cell_def replicate_6
  registerOne_def AppendNode_def RegisterTx_def chooseMain_def ActivateAll_def ActivateConfirm_def
  mapNodes_def activate_def confirm_def demoIdc_def drawnNumber_def SelectMain_def beNat_def
  listRemove_def pointer_def

lemma demo_chars: "char_of (103 :: nat) = CHR ''g''" "char_of (104 :: nat) = CHR ''h''"
  by code_simp+

lemma demo_append: "\<exists>idc. foldM (Append demoLib (demoConf UniRelay) demoKV) [demoG, demoH] demoIdc = Some idc"
proof -
  obtain i1 where i1: "Append demoLib (demoConf UniRelay) demoKV demoG demoIdc = Some i1"
    "NodeMap i1 = [(''g'', (demoNode 103))]" "ChTxPool (IdBlocks i1) = demoPool0\<lparr>localIndex := 0\<rparr>"
    by (simp add: demo_append_simps demoNode_def demo_chars)
  have run: "\<exists>k. SelectRandomKey [(''g'', demoNode 103), (''h'', demoNode 104)] r = Some k" for r
    by (rule SelectRandomKey_total) (simp_all add: demoNode_def IsRunning_def)
  then obtain k where k: "SelectRandomKey [(''g'', demoNode 103), (''h'', demoNode 104)] (randNum i1) = Some k" by blast
  have "\<exists>i2. Append demoLib (demoConf UniRelay) demoKV demoH i1 = Some i2"
    using i1(2,3) k by (simp add: demo_append_simps demoNode_def demo_chars)
  then show ?thesis using i1(1) by auto
qed

theorem IdAppend_main_running_witness:
  "\<exists>idc. foldM (Append demoLib (demoConf UniRelay) demoKV) [demoG, demoH] demoIdc = Some idc \<and>
         viewId idc = 0 \<and> roundId idc = 2 \<and> mainNode idc \<noteq> None"
proof -
  obtain idc where i: "foldM (Append demoLib (demoConf UniRelay) demoKV) [demoG, demoH] demoIdc = Some idc"
    using demo_append by blast
  have "[demoG, demoH] = [demoG] @ [demoH]" by simp
  from IdAppend_main_running[OF demo_Init i[unfolded this]] i show ?thesis by auto
qed



end
