(* ===== verification/Pbft.thy ===== *)
theory Pbft
  imports IdChain Proposals
begin

text \<open>
  \<^verbatim>\<open>src/consensus_shard/pbft/\<close>: the three-phase agreement that a domain runs on its operations.

  The state of a consensus instance is the record \<open>Pbft\<close>, with the maps of \<open>ConPbft\<close>.  The operations
  are looked up at run time in the registry \<open>Interfaces.Operations\<close>; the record \<open>Env\<close> holds what the
  handlers use of them and of the domain, as functions on the state \<open>app\<close> of the rest of the node:
  \<open>prepareOp\<close>, \<open>verifyOp\<close> and \<open>executeOp\<close> are the methods of the operation of a type (\<open>None\<close> when they
  panic, or when the type is not deployed), \<open>nodes\<close> is \<open>idChain.IDC.NodeMap\<close>, \<open>mainOf\<close> and \<open>threshold\<close>
  are those of the domain, \<open>self\<close> is the key of \<open>idChain.RunningNode\<close> and \<open>wake\<close> sets its field
  \<open>Activating\<close>.  \<open>digest\<close> is \<open>crypt.GetDigest\<close> on requests.

  The messages are given in decoded form; \<open>parsePrepareMsg\<close> and its like only undo the JSON coding of
  the senders.  \<open>out\<close> lists what the node has sent, with the address, and the rounds it has executed, which it
  logs.  \<open>HandleCommitMsgs\<close> may handle a pre-prepare message that came too early, which may execute the
  next round at once: the handlers take the function to do so as an argument, and
  \<open>HandlePrePrepare\<close> ties the knot with fuel.  Each turn of the knot uses up the commit messages
  of a round, so their number plus one is enough fuel.

  Clocks, logging and sleeping are left out: they do not change the state.  The view-change timer is the
  subject of another theory.
\<close>

record Request =
  RequestType :: bytes
  ReqContent :: bytes
  ReqTime :: int

datatype PMsg =
    PrePrepareM (reqOf: Request) (digestOf: bytes) (seqOf: "64 word")
  | PrepareM (digestOf: bytes) (seqOf: "64 word")
  | CommitM (digestOf: bytes) (seqOf: "64 word")
  | ReplyM "64 word" bool
  | SilenceM bytes

datatype Out =
    Sent PMsg bytes
  | Executed "64 word" bytes Request   \<comment> \<open>the round, the digest that was voted for, the request\<close>
  | MigrateRequest   \<comment> \<open>the proposals are handed over to the new main node\<close>

definition EpochReset :: bytes where
  \<comment> \<open>declared without a value\<close>
  "EpochReset = []"

definition Unprepared :: nat where "Unprepared = 1"
definition Prepared :: nat where "Prepared = 2"
definition Committed :: nat where "Committed = 3"

record 'a Pbft =
  sequence :: "64 word"
  PrePreMsgs :: "(64 word, bytes \<times> PMsg) gomap"
  PrepareMsgs :: "(64 word, (bytes, bytes \<times> 64 word) gomap) gomap"
  cntPrepareConfirm :: "(bytes, (bytes, bool) gomap) gomap"
  CommitMsgs :: "(64 word, (bytes, 64 word \<times> bytes) gomap) gomap"
  cntCommitConfirm :: "(bytes, (bytes, bool) gomap) gomap"
  isCommitBroadcast :: "(bytes, bool) gomap"
  cntReplyConfirm :: "(64 word, (bytes, bool) gomap) gomap option"   \<comment> \<open>\<open>None\<close> is the \<open>nil\<close> map\<close>
  proposalPool :: "(64 word, Request option) gomap"
  proposalStatus :: "(64 word, nat) gomap"
  isReply :: "(64 word, bool) gomap"
  proposeLock :: bool
  proposalBuffer :: ProposalBuffer
  legalNodesAddr :: bytes
  app :: 'a
  out :: "Out list"

record 'a Env =
  nodes :: "'a \<Rightarrow> nodeMap"
  mainOf :: "'a \<Rightarrow> bytes option"
  threshold :: "'a \<Rightarrow> 64 word"
  self :: bytes
  wake :: "bool \<Rightarrow> 'a \<Rightarrow> 'a"
  digest :: "Request \<Rightarrow> bytes"
  prepareOp :: "bytes \<Rightarrow> bytes list \<Rightarrow> 'a \<Rightarrow> (bool \<times> bytes list \<times> 'a) option"
  verifyOp :: "bytes \<Rightarrow> bytes list \<Rightarrow> 'a \<Rightarrow> (bool \<times> 'a) option"
  executeOp :: "bytes \<Rightarrow> 'a \<Rightarrow> 'a option"

definition NewPbftConsensus :: "bytes \<Rightarrow> 'a \<Rightarrow> 'a Pbft" where
  \<comment> \<open>with the address the constructor of the instance sets; the lock is held at first\<close>
  "NewPbftConsensus legal a =
     \<lparr>sequence = 0, PrePreMsgs = [], PrepareMsgs = [], cntPrepareConfirm = [], CommitMsgs = [],
      cntCommitConfirm = [], isCommitBroadcast = [], cntReplyConfirm = None, proposalPool = [],
      proposalStatus = [], isReply = [], proposeLock = True, proposalBuffer = NewProposalBuffer,
      legalNodesAddr = legal, app = a, out = []\<rparr>"

definition selfNode :: "'a Env \<Rightarrow> 'a Pbft \<Rightarrow> Node option" where
  "selfNode E st = mget (nodes E (app st)) (self E)"

definition selfIs :: "'a Env \<Rightarrow> (Node \<Rightarrow> bool) \<Rightarrow> 'a Pbft \<Rightarrow> bool" where
  "selfIs E p st = (case selfNode E st of Some n \<Rightarrow> p n | None \<Rightarrow> False)"

definition emit :: "Out \<Rightarrow> 'a Pbft \<Rightarrow> 'a Pbft" where
  "emit o1 st = st\<lparr>out := out st @ [o1]\<rparr>"

definition Enable :: "'a Pbft \<Rightarrow> 'a Pbft option" where
  \<comment> \<open>unlocking a mutex that is not locked ends the program\<close>
  "Enable st = (if proposeLock st then Some (st\<lparr>proposeLock := False\<rparr>) else None)"

subsection \<open>Commit\<close>

definition recordCommit :: "bool \<Rightarrow> bytes \<Rightarrow> bytes \<Rightarrow> 'a Pbft \<Rightarrow> 'a Pbft" where
  \<comment> \<open>the vote of a sender is counted for its digest if the sender is running\<close>
  "recordCommit running key sender st =
     (let m = getOr (cntCommitConfirm st) key [];
          m' = (if running then mput sender True m else m)
      in st\<lparr>cntCommitConfirm := mput key m' (cntCommitConfirm st)\<rparr>)"

definition endRound :: "64 word \<Rightarrow> bytes \<Rightarrow> Request \<Rightarrow> 'a \<Rightarrow> 'a Pbft \<Rightarrow> 'a Pbft" where
  \<comment> \<open>the bookkeeping around \<open>con.Execute\<close>, which has left the state \<open>a\<close>\<close>
  "endRound seq key r a st =
     (emit (Executed (sequence st) key r) st)
       \<lparr>isReply := mput seq True (isReply st), app := a,
        proposalStatus := mput seq Committed (proposalStatus st),
        PrePreMsgs := mdel seq (PrePreMsgs st), PrepareMsgs := mdel seq (PrepareMsgs st),
        CommitMsgs := mdel seq (CommitMsgs st), sequence := sequence st + 1\<rparr>"

definition executeRound ::
  "'a Env \<Rightarrow> (bytes \<times> PMsg \<Rightarrow> 'a Pbft \<Rightarrow> 'a Pbft option) \<Rightarrow> 64 word \<Rightarrow> bytes \<Rightarrow> 'a Pbft \<Rightarrow> 'a Pbft option" where
  \<comment> \<open>the block of \<open>HandleCommitMsgs\<close> that ends a round\<close>
  "executeRound E again seq key st =
     do { r \<leftarrow> getOr (proposalPool st) seq None;
          a \<leftarrow> executeOp E (RequestType r) (app st);
          let st1 = endRound seq key r a st
          in if mainOf E (app st1) \<noteq> Some (self E)
             then (case mget (PrePreMsgs st1) (sequence st1) of
                     Some m \<Rightarrow> again m st1
                   | None \<Rightarrow> Some st1)
             else Enable st1 }"

fun commitLoop ::
  "'a Env \<Rightarrow> (bytes \<times> PMsg \<Rightarrow> 'a Pbft \<Rightarrow> 'a Pbft option) \<Rightarrow>
   (bytes \<times> (64 word \<times> bytes)) list \<Rightarrow> 'a Pbft \<Rightarrow> 'a Pbft option" where
  "commitLoop E again [] st = Some st"
| "commitLoop E again ((sender, seq, key) # ms) st =
     do { n \<leftarrow> mget (nodes E (app st)) sender;
          let st1 = recordCommit (IsRunning n) key sender st;
              cnt = length (getOr (cntCommitConfirm st1) key [])
          in if threshold E (app st1) \<le> of_nat cnt \<and> \<not> getOr (isReply st1) seq False \<and>
                getOr (isCommitBroadcast st1) key False
             then executeRound E again seq key st1
             else commitLoop E again ms st1 }"

type_synonym voteOrder = "(bytes \<times> (64 word \<times> bytes)) list \<Rightarrow> (bytes \<times> (64 word \<times> bytes)) list"

definition HandleCommitMsgs ::
  "'a Env \<Rightarrow> voteOrder \<Rightarrow> (bytes \<times> PMsg \<Rightarrow> 'a Pbft \<Rightarrow> 'a Pbft option) \<Rightarrow> 'a Pbft \<Rightarrow> 'a Pbft option" where
  "HandleCommitMsgs E ord again st =
     (let ms = getOr (CommitMsgs st) (sequence st) []
      in if int (length ms) < sint (threshold E (app st)) then Some st
         else commitLoop E again (ord ms) st)"

definition HandleCommit ::
  "'a Env \<Rightarrow> voteOrder \<Rightarrow> (bytes \<times> PMsg \<Rightarrow> 'a Pbft \<Rightarrow> 'a Pbft option) \<Rightarrow>
   bytes \<Rightarrow> bytes \<Rightarrow> 64 word \<Rightarrow> 'a Pbft \<Rightarrow> 'a Pbft option" where
  "HandleCommit E ord again sender key seq st =
     (if getOr (proposalStatus st) seq 0 = Committed then Some st
      else let m = getOr (CommitMsgs st) seq []
           in HandleCommitMsgs E ord again
                (st\<lparr>CommitMsgs := mput seq (mput sender (seq, key) m) (CommitMsgs st)\<rparr>))"

subsection \<open>Prepare\<close>

definition recordPrepare :: "bool \<Rightarrow> bytes \<Rightarrow> bytes \<Rightarrow> 'a Pbft \<Rightarrow> 'a Pbft" where
  "recordPrepare running key sender st =
     (let m = getOr (cntPrepareConfirm st) key [];
          m' = (if running then mput sender True m else m)
      in st\<lparr>cntPrepareConfirm := mput key m' (cntPrepareConfirm st)\<rparr>)"

fun prepareLoop ::
  "'a Env \<Rightarrow> voteOrder \<Rightarrow> (bytes \<times> PMsg \<Rightarrow> 'a Pbft \<Rightarrow> 'a Pbft option) \<Rightarrow> Request option \<Rightarrow>
   (bytes \<times> (bytes \<times> 64 word)) list \<Rightarrow> 'a Pbft \<Rightarrow> 'a Pbft option" where
  \<comment> \<open>a request that was taken back (\<open>nil\<close> in the pool) makes the loop panic\<close>
  "prepareLoop E ord again req [] st = Some st"
| "prepareLoop E ord again req ((sender, key, seq) # ms) st =
     do { n \<leftarrow> mget (nodes E (app st)) sender;
          let st1 = recordPrepare (IsRunning n) key sender st;
              cnt = length (getOr (cntPrepareConfirm st1) key [])
          in if getOr (isCommitBroadcast st1) key False then Some st1
             else do { r \<leftarrow> req;
                       let thr = (if RequestType r = EpochReset \<and> selfIs E IsPreparing st1 then 0
                                  else threshold E (app st1))
                       in if thr \<le> of_nat cnt
                          then let st2 = st1\<lparr>isCommitBroadcast := mput key True (isCommitBroadcast st1)\<rparr>;
                                   st3 = (if selfIs E IsRunning st2
                                          then emit (Sent (CommitM key seq) (legalNodesAddr st2)) st2 else st2);
                                   st4 = st3\<lparr>proposalStatus := mput seq Prepared (proposalStatus st3),
                                            PrepareMsgs := mdel (sequence st3) (PrepareMsgs st3)\<rparr>
                               in HandleCommitMsgs E ord again st4
                          else prepareLoop E ord again req ms st1 } }"

type_synonym prepOrder = "(bytes \<times> (bytes \<times> 64 word)) list \<Rightarrow> (bytes \<times> (bytes \<times> 64 word)) list"

definition HandlePrepareMsgs ::
  "'a Env \<Rightarrow> prepOrder \<Rightarrow> voteOrder \<Rightarrow> (bytes \<times> PMsg \<Rightarrow> 'a Pbft \<Rightarrow> 'a Pbft option) \<Rightarrow>
   'a Pbft \<Rightarrow> 'a Pbft option" where
  "HandlePrepareMsgs E pord ord again st =
     (let ms = getOr (PrepareMsgs st) (sequence st) []
      in if int (length ms) < sint (threshold E (app st)) then Some st
         else case mget (proposalPool st) (sequence st) of
                None \<Rightarrow> Some st
              | Some req \<Rightarrow> prepareLoop E ord again req (pord ms) st)"

definition HandlePrepare ::
  "'a Env \<Rightarrow> prepOrder \<Rightarrow> voteOrder \<Rightarrow> (bytes \<times> PMsg \<Rightarrow> 'a Pbft \<Rightarrow> 'a Pbft option) \<Rightarrow>
   bytes \<Rightarrow> bytes \<Rightarrow> 64 word \<Rightarrow> 'a Pbft \<Rightarrow> 'a Pbft option" where
  "HandlePrepare E pord ord again sender key seq st =
     do { n \<leftarrow> mget (nodes E (app st)) sender;
          if Prepared \<le> getOr (proposalStatus st) seq 0 then Some st
          else let m = getOr (PrepareMsgs st) seq [];
                   m' = (if IsRunning n then mput sender (key, seq) m else m)
               in HandlePrepareMsgs E pord ord again (st\<lparr>PrepareMsgs := mput seq m' (PrepareMsgs st)\<rparr>) }"

subsection \<open>Pre-prepare\<close>

definition verifyPrePrepare :: "'a Env \<Rightarrow> 64 word \<Rightarrow> Request \<Rightarrow> bytes \<Rightarrow> bytes \<Rightarrow> 'a Pbft \<Rightarrow> bool option" where
  \<comment> \<open>\<open>verify\<close>; it panics for a proposer that is not the main node, and for a round too far ahead\<close>
  "verifyPrePrepare E seq req hash sender st =
     (if pointer (nodes E (app st)) sender \<noteq> mainOf E (app st) then None
      else if selfIs E IsWaiting st \<and> RequestType req \<noteq> EpochReset then Some False
      else if hash \<noteq> digest E req then Some False
      else if sequence st < seq
      then (if mget (proposalPool st) seq = None
            then (if sequence st = seq - 1 then Some False else None)
            else Some True)
      else if seq < sequence st then Some False
      else Some True)"

definition wakeFor :: "'a Env \<Rightarrow> Request \<Rightarrow> 64 word \<Rightarrow> 'a Pbft \<Rightarrow> 'a Pbft" where
  \<comment> \<open>a waiting node joins at the round of an epoch reset\<close>
  "wakeFor E req seq st =
     (if RequestType req = EpochReset \<and> selfIs E IsWaiting st
      then st\<lparr>sequence := seq, app := wake E True (app st)\<rparr> else st)"

definition NewReply :: "'a Env \<Rightarrow> 64 word \<Rightarrow> bool \<Rightarrow> 'a Pbft \<Rightarrow> Out option" where
  "NewReply E seq res st =
     do { m \<leftarrow> mainOf E (app st); n \<leftarrow> mget (nodes E (app st)) m; Some (Sent (ReplyM seq res) (IpAddr n)) }"

definition acceptProposal ::
  "'a Env \<Rightarrow> prepOrder \<Rightarrow> voteOrder \<Rightarrow> (bytes \<times> PMsg \<Rightarrow> 'a Pbft \<Rightarrow> 'a Pbft option) \<Rightarrow>
   Request \<Rightarrow> bytes \<Rightarrow> 64 word \<Rightarrow> 'a Pbft \<Rightarrow> 'a Pbft option" where
  \<comment> \<open>the part of \<open>HandlePrePrepare\<close> after \<open>verify\<close>\<close>
  "acceptProposal E pord ord again req hash seq st =
     (let st1 = st\<lparr>proposalPool := mput seq (Some req) (proposalPool st),
                  proposalStatus := mput seq Unprepared (proposalStatus st),
                  isReply := mput seq False (isReply st)\<rparr>
      in do { (flag, a) \<leftarrow> verifyOp E (RequestType req) (ParseContent (ReqContent req)) (app st1);
              let st2 = st1\<lparr>app := a\<rparr>
              in if \<not> flag
                 then do { o1 \<leftarrow> NewReply E seq False st2;
                           Some (emit o1 (st2\<lparr>proposalPool := mput seq None (proposalPool st2)\<rparr>)) }
                 else if selfIs E IsRunning st2
                 then Some (emit (Sent (PrepareM hash seq) (legalNodesAddr st2)) st2)
                 else HandlePrepare E pord ord again (self E) hash seq st2 })"

definition HandlePrePrepareWith ::
  "'a Env \<Rightarrow> prepOrder \<Rightarrow> voteOrder \<Rightarrow> (bytes \<times> PMsg \<Rightarrow> 'a Pbft \<Rightarrow> 'a Pbft option) \<Rightarrow>
   bytes \<Rightarrow> Request \<Rightarrow> bytes \<Rightarrow> 64 word \<Rightarrow> 'a Pbft \<Rightarrow> 'a Pbft option" where
  "HandlePrePrepareWith E pord ord again sender req hash seq st =
     (if mget (PrePreMsgs st) seq \<noteq> None \<and> pointer (nodes E (app st)) sender \<noteq> mainOf E (app st) then None
      else
        let st1 = (if mget (PrePreMsgs st) seq = None
                   then st\<lparr>PrePreMsgs := mput seq (sender, PrePrepareM req hash seq) (PrePreMsgs st)\<rparr> else st);
            st2 = wakeFor E req seq st1;
            tempSeq = sequence st2;
            st3 = wakeFor E req seq st2
        in do { res \<leftarrow> verifyPrePrepare E seq req hash sender st3;
                if \<not> res
                then Some (if RequestType req = EpochReset \<and> selfIs E IsWaiting st3
                           then st3\<lparr>sequence := tempSeq, app := wake E False (app st3)\<rparr> else st3)
                else acceptProposal E pord ord again req hash seq st3 })"

fun HandlePrePrepare ::
  "nat \<Rightarrow> 'a Env \<Rightarrow> prepOrder \<Rightarrow> voteOrder \<Rightarrow> bytes \<times> PMsg \<Rightarrow> 'a Pbft \<Rightarrow> 'a Pbft option" where
  "HandlePrePrepare (Suc fuel) E pord ord (sender, PrePrepareM req hash seq) st =
     HandlePrePrepareWith E pord ord (HandlePrePrepare fuel E pord ord) sender req hash seq st"
| "HandlePrePrepare _ _ _ _ _ _ = None"

subsection \<open>Reply and silence\<close>

definition HandleReply :: "'a Env \<Rightarrow> bytes \<Rightarrow> 64 word \<Rightarrow> bool \<Rightarrow> 'a Pbft \<Rightarrow> 'a Pbft option" where
  \<comment> \<open>writing to \<open>cntReplyConfirm\<close> panics while it is the \<open>nil\<close> map; no constructor makes it\<close>
  "HandleReply E sender seq res st =
     (if mainOf E (app st) \<noteq> Some (self E) then None
      else if sequence st \<noteq> seq then Some st
      else do { cnt \<leftarrow> cntReplyConfirm st;
                mget (nodes E (app st)) sender;
                let m = mput sender res (getOr cnt seq []);
                    st1 = st\<lparr>cntReplyConfirm := Some (mput seq m cnt)\<rparr>
                in do { r \<leftarrow> getOr (proposalPool st) seq None;
                        let thr = (if RequestType r = EpochReset then GlobalThreshold (nodes E (app st))
                                   else threshold E (app st))
                        in if getOr (isReply st) seq False then Some st1
                           else if thr \<le> of_nat (length (filter snd m))
                           then do { a \<leftarrow> executeOp E (RequestType r) (app st);
                                     let st2 = (emit (Executed (sequence st) [] r) st1)
                                           \<lparr>isReply := mput seq True (isReply st1), app := a,
                                            sequence := sequence st1 + 1\<rparr>
                                     in Some (if mainOf E a \<noteq> Some (self E) then emit MigrateRequest st2 else st2) }
                           else Some st1 } })"

definition silenceThreshold :: "Node \<Rightarrow> 64 word \<Rightarrow> Node \<times> bool" where
  \<comment> \<open>\<open>HandleNodeSilence\<close>: one more report; whether there are enough to schedule a removal\<close>
  "silenceThreshold n thr = (n\<lparr>Silence := Silence n + 1\<rparr>, thr \<le> Silence n + 1)"

subsection \<open>The proposer\<close>

definition NewPrePrepare :: "'a Env \<Rightarrow> int \<Rightarrow> 64 word \<Rightarrow> bytes \<Rightarrow> bytes list \<Rightarrow> 'a Pbft \<Rightarrow> PMsg \<times> 'a Pbft" where
  "NewPrePrepare E now seq planType vars st =
     (let req = \<lparr>RequestType = planType, ReqContent = NewByteContent vars, ReqTime = now\<rparr>
      in (PrePrepareM req (digest E req) seq,
          st\<lparr>proposalPool := mput seq (Some req) (proposalPool st)\<rparr>))"

definition Propose :: "'a Env \<Rightarrow> int \<Rightarrow> 'a Pbft \<Rightarrow> 'a Pbft option" where
  \<comment> \<open>run when the lock is free, which \<open>con.Disable()\<close> then takes; with an empty buffer it is given back
     and the goroutine tries again later\<close>
  "Propose E now st =
     do { (pro, buf) \<leftarrow> Pop (proposalBuffer st);
          let st1 = st\<lparr>proposeLock := True, proposalBuffer := buf\<rparr>
          in case pro of
               None \<Rightarrow> Enable st1
             | Some p \<Rightarrow>
                 do { (ok, vars, a) \<leftarrow> prepareOp E (ReqType p) (Vars p) (app st1);
                      let st2 = st1\<lparr>app := a\<rparr>
                      in if \<not> ok then Enable st2
                         else let (m, st3) = NewPrePrepare E now (sequence st2) (ReqType p) vars st2
                              in Some (emit (Sent m (legalNodesAddr st3)) st3) } }"

subsection \<open>The dispatcher\<close>

fun HandleMsg :: "nat \<Rightarrow> 'a Env \<Rightarrow> prepOrder \<Rightarrow> voteOrder \<Rightarrow> bytes \<times> PMsg \<Rightarrow> 'a Pbft \<Rightarrow> 'a Pbft option" where
  \<comment> \<open>a \<open>NodeSilence\<close> message is handled in a goroutine that touches no field of the consensus\<close>
  "HandleMsg fuel E pord ord (sender, PrePrepareM req hash seq) st =
     HandlePrePrepare fuel E pord ord (sender, PrePrepareM req hash seq) st"
| "HandleMsg fuel E pord ord (sender, PrepareM hash seq) st =
     HandlePrepare E pord ord (HandlePrePrepare fuel E pord ord) sender hash seq st"
| "HandleMsg fuel E pord ord (sender, CommitM hash seq) st =
     HandleCommit E ord (HandlePrePrepare fuel E pord ord) sender hash seq st"
| "HandleMsg fuel E pord ord (sender, ReplyM seq res) st = HandleReply E sender seq res st"
| "HandleMsg fuel E pord ord (sender, SilenceM nid) st = Some st"

subsection \<open>The handlers refine a step relation\<close>

text \<open>The abstract protocol: the atomic changes of the state, each with the condition under which it
  may happen.  \<open>M\<close> holds the messages the node has received.\<close>

definition certified :: "'a Env \<Rightarrow> 'a Pbft \<Rightarrow> bytes \<Rightarrow> bool" where
  \<comment> \<open>enough running nodes have prepared the digest\<close>
  "certified E st key \<longleftrightarrow> threshold E (app st) \<le> of_nat (length (getOr (cntPrepareConfirm st) key []))"

definition committed :: "'a Env \<Rightarrow> 'a Pbft \<Rightarrow> bytes \<Rightarrow> bool" where
  "committed E st key \<longleftrightarrow>
     threshold E (app st) \<le> of_nat (length (getOr (cntCommitConfirm st) key [])) \<and>
     getOr (isCommitBroadcast st) key False"

inductive pstep :: "'a Env \<Rightarrow> (bytes \<times> PMsg) set \<Rightarrow> 'a Pbft \<Rightarrow> 'a Pbft \<Rightarrow> bool" for E M where
  storeCommit: "(sender, CommitM key seq) \<in> M \<Longrightarrow>
    pstep E M st (st\<lparr>CommitMsgs := mput seq (mput sender (seq, key) (getOr (CommitMsgs st) seq [])) (CommitMsgs st)\<rparr>)"
| countCommit: "\<lbrakk>(sender, q, key) \<in> set (getOr (CommitMsgs st) (sequence st) []);
    mget (nodes E (app st)) sender = Some n\<rbrakk> \<Longrightarrow>
    pstep E M st (recordCommit (IsRunning n) key sender st)"
| execute: "\<lbrakk>committed E st key; getOr (proposalPool st) (sequence st) None = Some r;
    executeOp E (RequestType r) (app st) = Some a\<rbrakk> \<Longrightarrow>
    pstep E M st (endRound (sequence st) key r a st)"
| unlock: "pstep E M st (st\<lparr>proposeLock := False\<rparr>)"
| storePrepare: "(sender, PrepareM key seq) \<in> M \<Longrightarrow>
    pstep E M st (st\<lparr>PrepareMsgs := mput seq (mput sender (key, seq) (getOr (PrepareMsgs st) seq [])) (PrepareMsgs st)\<rparr>)"
| openRound: "pstep E M st (st\<lparr>PrepareMsgs := mput seq (getOr (PrepareMsgs st) seq []) (PrepareMsgs st)\<rparr>)"
| countPrepare: "\<lbrakk>(sender, key, q) \<in> set (getOr (PrepareMsgs st) (sequence st) []);
    mget (nodes E (app st)) sender = Some n\<rbrakk> \<Longrightarrow>
    pstep E M st (recordPrepare (IsRunning n) key sender st)"
| prepared: "\<lbrakk>certified E st key \<or> selfIs E IsPreparing st\<rbrakk> \<Longrightarrow>
    pstep E M st (st\<lparr>isCommitBroadcast := mput key True (isCommitBroadcast st),
                    proposalStatus := mput seq Prepared (proposalStatus st),
                    PrepareMsgs := mdel (sequence st) (PrepareMsgs st)\<rparr>)"
| sendCommit: "certified E st key \<Longrightarrow> pstep E M st (emit (Sent (CommitM key seq) to1) st)"
| storePrePrepare: "mget (PrePreMsgs st) seq = None \<Longrightarrow> m \<in> M \<Longrightarrow>
    pstep E M st (st\<lparr>PrePreMsgs := mput seq m (PrePreMsgs st)\<rparr>)"
| join: "selfIs E IsWaiting st \<Longrightarrow> pstep E M st (st\<lparr>sequence := seq, app := wake E b (app st)\<rparr>)"
| accept: "pstep E M st (st\<lparr>proposalPool := mput seq (Some req) (proposalPool st),
                  proposalStatus := mput seq Unprepared (proposalStatus st),
                  isReply := mput seq False (isReply st)\<rparr>)"
| verified: "verifyOp E t vars (app st) = Some (flag, a) \<Longrightarrow> pstep E M st (st\<lparr>app := a\<rparr>)"
| reject: "pstep E M st (emit (Sent (ReplyM seq False) to1) (st\<lparr>proposalPool := mput seq None (proposalPool st)\<rparr>))"
| sendPrepare: "\<lbrakk>hash = digest E req; getOr (proposalPool st) seq None = Some req\<rbrakk> \<Longrightarrow>
    pstep E M st (emit (Sent (PrepareM hash seq) to1) st)"

subsection \<open>Proof of the refinement\<close>

definition keyed :: "(bytes \<times> PMsg) set \<Rightarrow> 'a Pbft \<Rightarrow> bool" where
  \<comment> \<open>votes are stored under their own round and come from received messages\<close>
  "keyed M st \<longleftrightarrow>
     (\<forall>seq m. mget (CommitMsgs st) seq = Some m \<longrightarrow> mwf m \<and>
        (\<forall>s q k. mget m s = Some (q, k) \<longrightarrow> q = seq \<and> (s, CommitM k q) \<in> M)) \<and>
     (\<forall>seq m. mget (PrepareMsgs st) seq = Some m \<longrightarrow> mwf m \<and>
        (\<forall>s q k. mget m s = Some (k, q) \<longrightarrow> q = seq \<and> (s, PrepareM k q) \<in> M)) \<and>
     (\<forall>seq m. mget (PrePreMsgs st) seq = Some m \<longrightarrow> m \<in> M) \<and>
     cntReplyConfirm st = None"

lemma keyed_pstep: "pstep E M st st' \<Longrightarrow> keyed M st \<Longrightarrow> keyed M st'"
proof (induction rule: pstep.induct)
  case (storeCommit sender key seq st)
  then show ?case by (auto simp: keyed_def mget_mput getOr_def split: option.splits if_splits)
next
  case (storePrepare sender key seq st)
  then show ?case by (auto simp: keyed_def mget_mput getOr_def split: option.splits if_splits)
next
  case (openRound seq st)
  then show ?case by (auto simp: keyed_def mget_mput getOr_def split: option.splits if_splits)
qed (auto simp: keyed_def mget_mput mget_mdel emit_def recordCommit_def recordPrepare_def endRound_def Let_def
      split: if_splits)

lemma keyed_psteps: "(pstep E M)\<^sup>*\<^sup>* st st' \<Longrightarrow> keyed M st \<Longrightarrow> keyed M st'"
  by (induction rule: rtranclp_induct) (auto intro: keyed_pstep)

lemma keyed_commit:
  assumes "keyed M st" "(s, q, k) \<in> set (getOr (CommitMsgs st) (sequence st) [])"
  shows "q = sequence st" "(s, CommitM k q) \<in> M"
  using assms by (cases "mget (CommitMsgs st) (sequence st)"; fastforce simp: keyed_def getOr_def set_mwf_iff)+

lemma keyed_prepare:
  assumes "keyed M st" "(s, k, q) \<in> set (getOr (PrepareMsgs st) (sequence st) [])"
  shows "q = sequence st" "(s, PrepareM k q) \<in> M"
  using assms by (cases "mget (PrepareMsgs st) (sequence st)"; fastforce simp: keyed_def getOr_def set_mwf_iff)+

lemma recordCommit_same [simp]:
  "CommitMsgs (recordCommit b k s st) = CommitMsgs st" "sequence (recordCommit b k s st) = sequence st"
  "app (recordCommit b k s st) = app st" "PrePreMsgs (recordCommit b k s st) = PrePreMsgs st"
  by (simp_all add: recordCommit_def Let_def)

lemma recordPrepare_same [simp]:
  "PrepareMsgs (recordPrepare b k s st) = PrepareMsgs st" "sequence (recordPrepare b k s st) = sequence st"
  "app (recordPrepare b k s st) = app st" "CommitMsgs (recordPrepare b k s st) = CommitMsgs st"
  by (simp_all add: recordPrepare_def Let_def)

lemma Enable_psteps: "Enable st = Some st' \<Longrightarrow> (pstep E M)\<^sup>*\<^sup>* st st'"
  by (auto simp: Enable_def intro: unlock split: if_splits)

definition refines :: "'a Env \<Rightarrow> (bytes \<times> PMsg) set \<Rightarrow> (bytes \<times> PMsg \<Rightarrow> 'a Pbft \<Rightarrow> 'a Pbft option) \<Rightarrow> bool" where
  "refines E M handler \<longleftrightarrow>
     (\<forall>m st st'. keyed M st \<longrightarrow> m \<in> M \<longrightarrow> handler m st = Some st' \<longrightarrow> (pstep E M)\<^sup>*\<^sup>* st st')"

lemma refinesD:
  "refines E M handler \<Longrightarrow> keyed M st \<Longrightarrow> m \<in> M \<Longrightarrow> handler m st = Some st' \<Longrightarrow> (pstep E M)\<^sup>*\<^sup>* st st'"
  unfolding refines_def by blast

lemma executeRound_psteps:
  assumes "refines E M again" "executeRound E again (sequence st) key st = Some st'" "committed E st key"
    and "keyed M st"
  shows "(pstep E M)\<^sup>*\<^sup>* st st'"
proof -
  obtain r a where r: "getOr (proposalPool st) (sequence st) None = Some r"
    "executeOp E (RequestType r) (app st) = Some a"
    using assms(2) by (auto simp: executeRound_def bind_eq_Some_conv)
  let ?st1 = "endRound (sequence st) key r a st"
  have s: "pstep E M st ?st1" by (rule pstep.execute[OF assms(3) r])
  have k: "keyed M ?st1" by (rule keyed_pstep[OF s assms(4)])
  have rest: "(if mainOf E (app ?st1) \<noteq> Some (self E)
       then (case mget (PrePreMsgs ?st1) (sequence ?st1) of Some m \<Rightarrow> again m ?st1 | None \<Rightarrow> Some ?st1)
       else Enable ?st1) = Some st'"
    using assms(2) by (simp add: executeRound_def r Let_def)
  have "(pstep E M)\<^sup>*\<^sup>* ?st1 st'"
  proof (cases "mainOf E (app ?st1) \<noteq> Some (self E)")
    case True
    show ?thesis
    proof (cases "mget (PrePreMsgs ?st1) (sequence ?st1)")
      case None
      then show ?thesis using rest True by simp
    next
      case (Some m)
      then have "m \<in> M" using k by (cases m) (auto simp: keyed_def)
      moreover have "again m ?st1 = Some st'" using rest True Some by simp
      ultimately show ?thesis by (rule refinesD[OF assms(1) k])
    qed
  next
    case False
    then show ?thesis using rest by (auto intro: Enable_psteps)
  qed
  with s show ?thesis by (rule converse_rtranclp_into_rtranclp)
qed

lemma commitLoop_psteps:
  assumes again: "refines E M again"
    and "commitLoop E again ms st = Some st'" "keyed M st"
    and "set ms \<subseteq> set (getOr (CommitMsgs st) (sequence st) [])"
  shows "(pstep E M)\<^sup>*\<^sup>* st st'"
  using assms(2-)
proof (induction ms arbitrary: st)
  case (Cons v ms)
  obtain sender seq key where v: "v = (sender, seq, key)" by (cases v)
  obtain n where n: "mget (nodes E (app st)) sender = Some n"
    using Cons.prems(1) by (auto simp: v bind_eq_Some_conv)
  let ?st1 = "recordCommit (IsRunning n) key sender st"
  have mem: "(sender, seq, key) \<in> set (getOr (CommitMsgs st) (sequence st) [])" using Cons.prems(3) v by simp
  have seq: "seq = sequence st" by (rule keyed_commit(1)[OF Cons.prems(2) mem])
  have s: "pstep E M st ?st1" by (rule pstep.countCommit[OF mem n])
  have k: "keyed M ?st1" by (rule keyed_pstep[OF s Cons.prems(2)])
  have "(pstep E M)\<^sup>*\<^sup>* ?st1 st'"
  proof (cases "threshold E (app ?st1) \<le> of_nat (length (getOr (cntCommitConfirm ?st1) key [])) \<and>
      \<not> getOr (isReply ?st1) seq False \<and> getOr (isCommitBroadcast ?st1) key False")
    case True
    then have "executeRound E again (sequence ?st1) key ?st1 = Some st'"
      using Cons.prems(1) n seq by (simp add: Let_def v)
    moreover have "committed E ?st1 key" using True by (simp add: committed_def)
    ultimately show ?thesis using executeRound_psteps[OF again _ _ k] by blast
  next
    case False
    then have "commitLoop E again ms ?st1 = Some st'"
      using Cons.prems(1) n by (auto simp: Let_def v split: if_splits)
    then show ?thesis by (rule Cons.IH) (use Cons.prems(3) k in auto)
  qed
  with s show ?case by (rule converse_rtranclp_into_rtranclp)
qed simp

lemma HandleCommitMsgs_psteps:
  assumes "refines E M again" "iter_ok ord" "HandleCommitMsgs E ord again st = Some st'" "keyed M st"
  shows "(pstep E M)\<^sup>*\<^sup>* st st'"
proof (cases "int (length (getOr (CommitMsgs st) (sequence st) [])) < sint (threshold E (app st))")
  case False
  then have "commitLoop E again (ord (getOr (CommitMsgs st) (sequence st) [])) st = Some st'"
    using assms(3) by (simp add: HandleCommitMsgs_def Let_def)
  then show ?thesis
    by (rule commitLoop_psteps[OF assms(1)]) (use assms(4) iter_ok_set[OF assms(2)] in auto)
qed (use assms(3) in \<open>simp add: HandleCommitMsgs_def Let_def\<close>)

lemma HandleCommit_psteps:
  assumes "refines E M again" "iter_ok ord" "HandleCommit E ord again sender key seq st = Some st'" "keyed M st"
    and "(sender, CommitM key seq) \<in> M"
  shows "(pstep E M)\<^sup>*\<^sup>* st st'"
proof (cases "getOr (proposalStatus st) seq 0 = Committed")
  case False
  let ?st1 = "st\<lparr>CommitMsgs := mput seq (mput sender (seq, key) (getOr (CommitMsgs st) seq [])) (CommitMsgs st)\<rparr>"
  have s: "pstep E M st ?st1" by (rule pstep.storeCommit[OF assms(5)])
  have "HandleCommitMsgs E ord again ?st1 = Some st'"
    using assms(3) False by (simp add: HandleCommit_def Let_def)
  from HandleCommitMsgs_psteps[OF assms(1,2) this keyed_pstep[OF s assms(4)]] s
  show ?thesis by (rule converse_rtranclp_into_rtranclp[rotated])
qed (use assms(3) in \<open>simp add: HandleCommit_def\<close>)

lemma certify_psteps:
  assumes "certified E st key \<or> selfIs E IsPreparing st" "selfIs E IsRunning st \<Longrightarrow> certified E st key"
  shows "(pstep E M)\<^sup>*\<^sup>* st
     (let st2 = st\<lparr>isCommitBroadcast := mput key True (isCommitBroadcast st)\<rparr>;
          st3 = (if selfIs E IsRunning st2
                 then emit (Sent (CommitM key seq) (legalNodesAddr st2)) st2 else st2)
      in st3\<lparr>proposalStatus := mput seq Prepared (proposalStatus st3),
             PrepareMsgs := mdel (sequence st3) (PrepareMsgs st3)\<rparr>)"
proof -
  let ?st1 = "st\<lparr>isCommitBroadcast := mput key True (isCommitBroadcast st),
                    proposalStatus := mput seq Prepared (proposalStatus st),
                    PrepareMsgs := mdel (sequence st) (PrepareMsgs st)\<rparr>"
  have s: "pstep E M st ?st1" by (rule pstep.prepared[OF assms(1)])
  have same: "selfIs E IsRunning (st\<lparr>isCommitBroadcast := x\<rparr>) = selfIs E IsRunning st" for x
    by (simp add: selfIs_def selfNode_def)
  show ?thesis
  proof (cases "selfIs E IsRunning st")
    case True
    then have "certified E ?st1 key" using assms(2) by (simp add: certified_def)
    then have s2: "pstep E M ?st1 (emit (Sent (CommitM key seq) (legalNodesAddr st)) ?st1)"
      by (rule pstep.sendCommit)
    have eq: "emit (Sent (CommitM key seq) (legalNodesAddr st)) ?st1 =
        (emit (Sent (CommitM key seq) (legalNodesAddr st))
           (st\<lparr>isCommitBroadcast := mput key True (isCommitBroadcast st)\<rparr>))
          \<lparr>proposalStatus := mput seq Prepared (proposalStatus st),
           PrepareMsgs := mdel (sequence st) (PrepareMsgs st)\<rparr>"
      by (simp add: emit_def)
    have "(pstep E M)\<^sup>*\<^sup>* st (emit (Sent (CommitM key seq) (legalNodesAddr st)) ?st1)"
      using s s2 by (rule converse_rtranclp_into_rtranclp[OF _ r_into_rtranclp])
    then show ?thesis unfolding eq using True by (simp add: same Let_def emit_def)
  next
    case False
    then show ?thesis using s by (auto simp: same Let_def)
  qed
qed

lemma prepareLoop_psteps:
  assumes again: "refines E M again" and "iter_ok ord"
    and "prepareLoop E ord again req ms st = Some st'" "keyed M st"
    and "set ms \<subseteq> set (getOr (PrepareMsgs st) (sequence st) [])"
  shows "(pstep E M)\<^sup>*\<^sup>* st st'"
  using assms(3-)
proof (induction ms arbitrary: st)
  case (Cons v ms)
  obtain sender key seq where v: "v = (sender, key, seq)" by (cases v)
  obtain n where n: "mget (nodes E (app st)) sender = Some n"
    using Cons.prems(1) by (auto simp: v bind_eq_Some_conv)
  let ?st1 = "recordPrepare (IsRunning n) key sender st"
  have mem: "(sender, key, seq) \<in> set (getOr (PrepareMsgs st) (sequence st) [])" using Cons.prems(3) v by simp
  have s: "pstep E M st ?st1" by (rule pstep.countPrepare[OF mem n])
  have k: "keyed M ?st1" by (rule keyed_pstep[OF s Cons.prems(2)])
  have "(pstep E M)\<^sup>*\<^sup>* ?st1 st'"
  proof (cases "getOr (isCommitBroadcast ?st1) key False")
    case True
    then show ?thesis using Cons.prems(1) n by (simp add: v Let_def)
  next
    case False
    then obtain r where r: "req = Some r" using Cons.prems(1) n by (auto simp: v Let_def bind_eq_Some_conv)
    let ?thr = "if RequestType r = EpochReset \<and> selfIs E IsPreparing ?st1 then 0 else threshold E (app ?st1)"
    let ?cnt = "of_nat (length (getOr (cntPrepareConfirm ?st1) key [])) :: 64 word"
    show ?thesis
    proof (cases "?thr \<le> ?cnt")
      case True
      define st4 where "st4 = (let st2 = ?st1\<lparr>isCommitBroadcast := mput key True (isCommitBroadcast ?st1)\<rparr>;
          st3 = (if selfIs E IsRunning st2
                 then emit (Sent (CommitM key seq) (legalNodesAddr st2)) st2 else st2)
        in st3\<lparr>proposalStatus := mput seq Prepared (proposalStatus st3),
               PrepareMsgs := mdel (sequence st3) (PrepareMsgs st3)\<rparr>)"
      have "certified E ?st1 key \<or> selfIs E IsPreparing ?st1"
        using True by (auto simp: certified_def split: if_splits)
      moreover have "certified E ?st1 key" if "selfIs E IsRunning ?st1"
      proof -
        have "\<not> selfIs E IsPreparing ?st1"
          using that by (auto simp: selfIs_def IsRunning_def IsPreparing_def split: option.splits)
        then show ?thesis using True by (simp add: certified_def)
      qed
      ultimately have p: "(pstep E M)\<^sup>*\<^sup>* ?st1 st4"
        unfolding st4_def by (rule certify_psteps)
      have "HandleCommitMsgs E ord again st4 = Some st'"
        using Cons.prems(1) n False r True unfolding st4_def by (simp add: v Let_def)
      from HandleCommitMsgs_psteps[OF again assms(2) this keyed_psteps[OF p k]] p show ?thesis by simp
    next
      case less: False
      then have "prepareLoop E ord again req ms ?st1 = Some st'"
        using Cons.prems(1) n False r by (simp add: v Let_def)
      then show ?thesis by (rule Cons.IH) (use Cons.prems(3) k in auto)
    qed
  qed
  with s show ?case by (rule converse_rtranclp_into_rtranclp)
qed simp

lemma HandlePrepareMsgs_psteps:
  assumes "refines E M again" "iter_ok pord" "iter_ok ord"
    and "HandlePrepareMsgs E pord ord again st = Some st'" "keyed M st"
  shows "(pstep E M)\<^sup>*\<^sup>* st st'"
proof (cases "int (length (getOr (PrepareMsgs st) (sequence st) [])) < sint (threshold E (app st))")
  case True
  then show ?thesis using assms(4) by (simp add: HandlePrepareMsgs_def Let_def)
next
  case False
  show ?thesis
  proof (cases "mget (proposalPool st) (sequence st)")
    case None
    then show ?thesis using assms(4) False by (simp add: HandlePrepareMsgs_def Let_def)
  next
    case (Some req)
    then have "prepareLoop E ord again req (pord (getOr (PrepareMsgs st) (sequence st) [])) st = Some st'"
      using assms(4) False by (simp add: HandlePrepareMsgs_def Let_def)
    then show ?thesis
      by (rule prepareLoop_psteps[OF assms(1,3)]) (use assms(5) iter_ok_set[OF assms(2)] in auto)
  qed
qed

lemma HandlePrepare_psteps:
  assumes "refines E M again" "iter_ok pord" "iter_ok ord"
    and "HandlePrepare E pord ord again sender key seq st = Some st'" "keyed M st"
    and "\<And>n. mget (nodes E (app st)) sender = Some n \<Longrightarrow> IsRunning n \<Longrightarrow> (sender, PrepareM key seq) \<in> M"
  shows "(pstep E M)\<^sup>*\<^sup>* st st'"
proof -
  obtain n where n: "mget (nodes E (app st)) sender = Some n"
    using assms(4) by (auto simp: HandlePrepare_def bind_eq_Some_conv)
  let ?m = "getOr (PrepareMsgs st) seq []"
  let ?st1 = "st\<lparr>PrepareMsgs := mput seq (if IsRunning n then mput sender (key, seq) ?m else ?m) (PrepareMsgs st)\<rparr>"
  show ?thesis
  proof (cases "Prepared \<le> getOr (proposalStatus st) seq 0")
    case True
    then show ?thesis using assms(4) n by (simp add: HandlePrepare_def)
  next
    case False
    then have h: "HandlePrepareMsgs E pord ord again ?st1 = Some st'"
      using assms(4) n by (simp add: HandlePrepare_def Let_def)
    have s: "pstep E M st ?st1"
    proof (cases "IsRunning n")
      case True
      then show ?thesis using pstep.storePrepare[OF assms(6)[OF n True]] by simp
    qed (simp add: pstep.openRound)
    from HandlePrepareMsgs_psteps[OF assms(1-3) h keyed_pstep[OF s assms(5)]] s
    show ?thesis by (rule converse_rtranclp_into_rtranclp[rotated])
  qed
qed

lemma acceptProposal_psteps:
  assumes "refines E M again" "iter_ok pord" "iter_ok ord"
    and "acceptProposal E pord ord again req hash seq st = Some st'" "keyed M st" "hash = digest E req"
  shows "(pstep E M)\<^sup>*\<^sup>* st st'"
proof -
  let ?st1 = "st\<lparr>proposalPool := mput seq (Some req) (proposalPool st),
                  proposalStatus := mput seq Unprepared (proposalStatus st),
                  isReply := mput seq False (isReply st)\<rparr>"
  obtain flag a where v: "verifyOp E (RequestType req) (ParseContent (ReqContent req)) (app ?st1) = Some (flag, a)"
    using assms(4) by (auto simp: acceptProposal_def Let_def bind_eq_Some_conv)
  let ?st2 = "?st1\<lparr>app := a\<rparr>"
  have s1: "pstep E M st ?st1" by (rule pstep.accept)
  have s2: "pstep E M ?st1 ?st2" by (rule pstep.verified[OF v])
  have k2: "keyed M ?st2" by (rule keyed_pstep[OF s2 keyed_pstep[OF s1 assms(5)]])
  have p2: "(pstep E M)\<^sup>*\<^sup>* st ?st2"
    using s1 s2 by (rule converse_rtranclp_into_rtranclp[OF _ r_into_rtranclp])
  have rest: "(if \<not> flag
       then do { o1 \<leftarrow> NewReply E seq False ?st2;
                 Some (emit o1 (?st2\<lparr>proposalPool := mput seq None (proposalPool ?st2)\<rparr>)) }
       else if selfIs E IsRunning ?st2
       then Some (emit (Sent (PrepareM hash seq) (legalNodesAddr ?st2)) ?st2)
       else HandlePrepare E pord ord again (self E) hash seq ?st2) = Some st'"
    using assms(4) v by (simp add: acceptProposal_def Let_def)
  have "(pstep E M)\<^sup>*\<^sup>* ?st2 st'"
  proof (cases flag)
    case False
    then obtain o1 where "NewReply E seq False ?st2 = Some o1"
      and st': "st' = emit o1 (?st2\<lparr>proposalPool := mput seq None (proposalPool ?st2)\<rparr>)"
      using rest by (auto simp: bind_eq_Some_conv)
    then obtain to1 where "o1 = Sent (ReplyM seq False) to1"
      by (auto simp: NewReply_def bind_eq_Some_conv)
    then show ?thesis unfolding st' using pstep.reject by blast
  next
    case True
    show ?thesis
    proof (cases "selfIs E IsRunning ?st2")
      case run: True
      have "getOr (proposalPool ?st2) seq None = Some req" by (simp add: getOr_def mget_mput)
      from pstep.sendPrepare[OF assms(6) this] run True rest show ?thesis by auto
    next
      case idle: False
      have h: "HandlePrepare E pord ord again (self E) hash seq ?st2 = Some st'"
        using True idle rest by simp
      show ?thesis
        by (rule HandlePrepare_psteps[OF assms(1-3) h k2])
          (use idle in \<open>simp add: selfIs_def selfNode_def\<close>)
    qed
  qed
  with p2 show ?thesis by simp
qed

lemma wakeFor_psteps: "(pstep E M)\<^sup>*\<^sup>* st (wakeFor E req seq st)"
  using pstep.join[where st = st and E = E and M = M] by (auto simp: wakeFor_def)

lemma HandlePrePrepareWith_psteps:
  assumes "refines E M again" "iter_ok pord" "iter_ok ord"
    and "HandlePrePrepareWith E pord ord again sender req hash seq st = Some st'" "keyed M st"
    and "(sender, PrePrepareM req hash seq) \<in> M"
  shows "(pstep E M)\<^sup>*\<^sup>* st st'"
proof -
  define st1 where "st1 = (if mget (PrePreMsgs st) seq = None
     then st\<lparr>PrePreMsgs := mput seq (sender, PrePrepareM req hash seq) (PrePreMsgs st)\<rparr> else st)"
  define st2 where "st2 = wakeFor E req seq st1"
  define st3 where "st3 = wakeFor E req seq st2"
  have "(pstep E M)\<^sup>*\<^sup>* st st1" unfolding st1_def using pstep.storePrePrepare[OF _ assms(6)] by auto
  then have p3: "(pstep E M)\<^sup>*\<^sup>* st st3"
    unfolding st2_def st3_def by (meson rtranclp_trans wakeFor_psteps)
  have k3: "keyed M st3" by (rule keyed_psteps[OF p3 assms(5)])
  have g: "\<not> (mget (PrePreMsgs st) seq \<noteq> None \<and> pointer (nodes E (app st)) sender \<noteq> mainOf E (app st))"
    by (rule notI) (use assms(4) in \<open>simp add: HandlePrePrepareWith_def\<close>)
  have main: "do { res \<leftarrow> verifyPrePrepare E seq req hash sender st3;
          if \<not> res
          then Some (if RequestType req = EpochReset \<and> selfIs E IsWaiting st3
                     then st3\<lparr>sequence := sequence st2, app := wake E False (app st3)\<rparr> else st3)
          else acceptProposal E pord ord again req hash seq st3 } = Some st'"
    using assms(4)
    unfolding HandlePrePrepareWith_def Let_def if_not_P[OF g] st1_def[symmetric] st2_def[symmetric] st3_def[symmetric] .
  then obtain res where res: "verifyPrePrepare E seq req hash sender st3 = Some res"
    by (auto simp only: bind_eq_Some_conv)
  have "(pstep E M)\<^sup>*\<^sup>* st3 st'"
  proof (cases res)
    case True
    then have a: "acceptProposal E pord ord again req hash seq st3 = Some st'" using main res by simp
    have "hash = digest E req" using res True by (auto simp: verifyPrePrepare_def split: if_splits)
    from acceptProposal_psteps[OF assms(1-3) a k3 this] show ?thesis .
  next
    case False
    then have "st' = (if RequestType req = EpochReset \<and> selfIs E IsWaiting st3
        then st3\<lparr>sequence := sequence st2, app := wake E False (app st3)\<rparr> else st3)"
      using main res by simp
    then show ?thesis using pstep.join[of E st3 M] by auto
  qed
  with p3 show ?thesis by simp
qed

lemma HandlePrePrepare_refines:
  assumes "iter_ok pord" "iter_ok ord"
  shows "refines E M (HandlePrePrepare fuel E pord ord)"
proof (induction fuel)
  case 0
  show ?case by (auto simp: refines_def)
next
  case (Suc fuel)
  show ?case unfolding refines_def
  proof (intro allI impI)
    fix m st st'
    assume a: "keyed M st" "m \<in> M" "HandlePrePrepare (Suc fuel) E pord ord m st = Some st'"
    then obtain sender req hash seq where m: "m = (sender, PrePrepareM req hash seq)"
      by (cases m; cases "snd m") auto
    show "(pstep E M)\<^sup>*\<^sup>* st st'"
      by (rule HandlePrePrepareWith_psteps[OF Suc assms, of sender req hash seq]) (use a m in auto)
  qed
qed

lemma HandleMsg_psteps:
  assumes "iter_ok pord" "iter_ok ord" "keyed M st" "(sender, m) \<in> M"
    and "HandleMsg fuel E pord ord (sender, m) st = Some st'"
  shows "(pstep E M)\<^sup>*\<^sup>* st st'"
proof (cases m)
  case (PrePrepareM req hash seq)
  then show ?thesis using refinesD[OF HandlePrePrepare_refines[OF assms(1,2)] assms(3,4)] assms(5) by simp
next
  case (PrepareM hash seq)
  have "HandlePrepare E pord ord (HandlePrePrepare fuel E pord ord) sender hash seq st = Some st'"
    using assms(5) PrepareM by simp
  from HandlePrepare_psteps[OF HandlePrePrepare_refines[OF assms(1,2)] assms(1,2) this assms(3)]
  show ?thesis using assms(4) PrepareM by simp
next
  case (CommitM hash seq)
  have "HandleCommit E ord (HandlePrePrepare fuel E pord ord) sender hash seq st = Some st'"
    using assms(5) CommitM by simp
  from HandleCommit_psteps[OF HandlePrePrepare_refines[OF assms(1,2)] assms(2) this assms(3)]
  show ?thesis using assms(4) CommitM by simp
next
  case (ReplyM seq res)
  then have "st' = st" using assms(3,5) by (auto simp: HandleReply_def keyed_def split: if_splits)
  then show ?thesis by simp
next
  case (SilenceM nid)
  then show ?thesis using assms(5) by simp
qed

subsection \<open>The runs of an instance\<close>

text \<open>\<open>M\<close> holds the messages that ever reach the node.  Between the handlers the rest of the node may change
  its own state, new proposals may be buffered, and the first main node is enabled.\<close>

inductive pbftReach :: "'a Env \<Rightarrow> (bytes \<times> PMsg) set \<Rightarrow> 'a Pbft \<Rightarrow> bool" for E M where
  start: "pbftReach E M (NewPbftConsensus legal a)"
| deliver: "\<lbrakk>pbftReach E M st; m \<in> M; iter_ok pord; iter_ok ord; HandleMsg fuel E pord ord m st = Some st'\<rbrakk> \<Longrightarrow>
    pbftReach E M st'"
| propose: "\<lbrakk>pbftReach E M st; \<not> proposeLock st; Propose E now st = Some st'\<rbrakk> \<Longrightarrow> pbftReach E M st'"
| schedule: "pbftReach E M st \<Longrightarrow> pbftReach E M (st\<lparr>proposalBuffer := buf\<rparr>)"
| enable: "pbftReach E M st \<Longrightarrow> Enable st = Some st' \<Longrightarrow> pbftReach E M st'"
| outside: "pbftReach E M st \<Longrightarrow> pbftReach E M (st\<lparr>app := a\<rparr>)"

definition idleOut :: "Out \<Rightarrow> bool" where
  \<comment> \<open>what a proposer may add to \<open>out\<close>\<close>
  "idleOut o1 \<longleftrightarrow> (\<exists>req d s to1. o1 = Sent (PrePrepareM req d s) to1)"

definition sideStep :: "'a Pbft \<Rightarrow> 'a Pbft \<Rightarrow> bool" where
  \<comment> \<open>the changes outside the handlers of messages\<close>
  "sideStep st st' \<longleftrightarrow> (\<exists>lock buf pool a os. (\<forall>o1\<in>set os. idleOut o1) \<and>
     st' = st\<lparr>proposeLock := lock, proposalBuffer := buf, proposalPool := pool, app := a, out := out st @ os\<rparr>)"

lemma sideStep_Enable: "Enable st = Some st' \<Longrightarrow> sideStep st st'"
  unfolding sideStep_def
  by (rule exI[of _ False], rule exI[of _ "proposalBuffer st"], rule exI[of _ "proposalPool st"],
      rule exI[of _ "app st"], rule exI[of _ "[]"]) (auto simp: Enable_def split: if_splits)

lemma sideStep_Propose:
  assumes "Propose E now st = Some st'"
  shows "sideStep st st'"
proof -
  obtain pro buf where pop: "Pop (proposalBuffer st) = Some (pro, buf)"
    using assms by (auto simp: Propose_def bind_eq_Some_conv)
  note start = assms[unfolded Propose_def pop]
  have wit: ?thesis if "st' = st\<lparr>proposeLock := lock, proposalBuffer := b, proposalPool := pool, app := a, out := out st @ os\<rparr>"
    "\<forall>o1\<in>set os. idleOut o1" for lock b pool a os
    unfolding sideStep_def using that by (intro exI conjI)
  show ?thesis
  proof (cases pro)
    case None
    show ?thesis
      by (rule wit[where lock = False and b = buf and pool = "proposalPool st" and a = "app st" and os = "[]"]) (use start None in \<open>auto simp: Enable_def\<close>)
  next
    case (Some p)
    then obtain ok vars a where pre: "prepareOp E (ReqType p) (Vars p) (app st) = Some (ok, vars, a)"
      using start by (auto simp: bind_eq_Some_conv)
    show ?thesis
    proof (cases ok)
      case False
      show ?thesis
        by (rule wit[where lock = False and b = buf and pool = "proposalPool st" and a = a and os = "[]"]) (use start Some pre False in \<open>auto simp: Enable_def\<close>)
    next
      case True
      let ?req = "\<lparr>RequestType = ReqType p, ReqContent = NewByteContent vars, ReqTime = now\<rparr>"
      show ?thesis
        by (rule wit[where lock = True and b = buf and pool = "mput (sequence st) (Some ?req) (proposalPool st)" and a = a
              and os = "[Sent (PrePrepareM ?req (digest E ?req) (sequence st)) (legalNodesAddr st)]"])
          (use start Some pre True in \<open>auto simp: NewPrePrepare_def Let_def emit_def idleOut_def\<close>)
    qed
  qed
qed

lemma pbftReach_induct [consumes 1, case_names start steps side]:
  assumes "pbftReach E M st" "\<And>legal a. P (NewPbftConsensus legal a)"
    and "\<And>st st'. P st \<Longrightarrow> keyed M st \<Longrightarrow> pstep E M st st' \<Longrightarrow> P st'"
    and "\<And>st st'. P st \<Longrightarrow> keyed M st \<Longrightarrow> sideStep st st' \<Longrightarrow> P st'"
  shows "P st"
proof -
  have steps: "P st' \<and> keyed M st'" if "(pstep E M)\<^sup>*\<^sup>* st st'" "P st" "keyed M st" for st st'
    using that by (induction rule: rtranclp_induct) (auto intro: assms(3) keyed_pstep)
  have side: "P st' \<and> keyed M st'" if "sideStep st st'" "P st \<and> keyed M st" for st st'
    using that assms(4)[of st st'] by (auto simp: sideStep_def keyed_def)
  have "P st \<and> keyed M st"
    using assms(1)
  proof (induction rule: pbftReach.induct)
    case (start legal a)
    then show ?case using assms(2) by (simp add: keyed_def NewPbftConsensus_def)
  next
    case (deliver st m pord ord fuel st')
    then show ?case using steps[OF HandleMsg_psteps[of pord ord M st "fst m" "snd m" fuel E st']] by simp
  next
    case (propose st now st')
    then show ?case using side[OF sideStep_Propose] by blast
  next
    case (schedule st buf)
    have "sideStep st (st\<lparr>proposalBuffer := buf\<rparr>)"
      unfolding sideStep_def by (rule exI[of _ "proposeLock st"], rule exI[of _ buf],
        rule exI[of _ "proposalPool st"], rule exI[of _ "app st"], rule exI[of _ "[]"]) simp
    then show ?case using side schedule by blast
  next
    case (enable st st')
    then show ?case using side[OF sideStep_Enable] by blast
  next
    case (outside st a)
    have "sideStep st (st\<lparr>app := a\<rparr>)"
      unfolding sideStep_def by (rule exI[of _ "proposeLock st"], rule exI[of _ "proposalBuffer st"],
        rule exI[of _ "proposalPool st"], rule exI[of _ a], rule exI[of _ "[]"]) simp
    then show ?case using side outside by blast
  qed
  then show ?thesis ..
qed

subsection \<open>Certificates\<close>

definition voters :: "'a Env \<Rightarrow> bytes set" where
  \<comment> \<open>the nodes that are running at some time\<close>
  "voters E = {p. \<exists>a n. mget (nodes E a) p = Some n \<and> IsRunning n}"

definition voted :: "'a Env \<Rightarrow> (bytes \<times> PMsg) set \<Rightarrow> (64 word \<Rightarrow> PMsg) \<Rightarrow> bytes set" where
  \<comment> \<open>the voters from which the node received such a vote, in some round\<close>
  "voted E M vote = {p \<in> voters E. \<exists>q. (p, vote q) \<in> M}"

definition backed :: "'a Env \<Rightarrow> (bytes \<times> PMsg) set \<Rightarrow> (64 word \<Rightarrow> PMsg) \<Rightarrow> nat \<Rightarrow> bool" where
  "backed E M vote T \<longleftrightarrow> (\<exists>S. finite S \<and> T \<le> card S \<and> S \<subseteq> voted E M vote)"

definition tally :: "'a Env \<Rightarrow> (bytes \<times> PMsg) set \<Rightarrow> (64 word \<Rightarrow> PMsg) \<Rightarrow> (bytes, bool) gomap \<Rightarrow> bool" where
  \<comment> \<open>the counted votes were sent, each by the node it is counted for\<close>
  "tally E M vote m \<longleftrightarrow> mwf m \<and> set (mkeys m) \<subseteq> voted E M vote"

lemma tally_empty [simp]: "tally E M vote []"
  by (simp add: tally_def)

lemma tally_record:
  assumes "\<forall>key. tally E M (vote key) (getOr c key [])" "(p, vote k q) \<in> M" "mget (nodes E a) p = Some n"
    "c' = mput k (if IsRunning n then mput p True (getOr c k []) else getOr c k []) c"
  shows "\<forall>key. tally E M (vote key) (getOr c' key [])"
proof
  fix key
  have "p \<in> voted E M (vote k)" if "IsRunning n" using assms(2,3) that by (auto simp: voted_def voters_def)
  moreover have "tally E M (vote k) (getOr c k [])" using assms(1) ..
  ultimately have "tally E M (vote k) (if IsRunning n then mput p True (getOr c k []) else getOr c k [])"
    by (simp add: tally_def mwf_mput set_mkeys_mput del: set_map)
  then show "tally E M (vote key) (getOr c' key [])"
    using assms(1,4) by (cases "key = k") (simp_all add: getOr_def mget_mput)
qed

lemma tally_backed:
  fixes T :: "64 word"
  assumes "tally E M vote m" "T \<le> of_nat (length m)"
  shows "backed E M vote (unat T)"
proof -
  have "unat T \<le> unat (of_nat (length m) :: 64 word)" using assms(2) by (simp add: word_le_nat_alt)
  also have "\<dots> \<le> length m" by (simp add: unat_of_nat take_bit_eq_mod)
  also have "\<dots> = card (set (mkeys m))" using assms(1) distinct_card[of "mkeys m"] by (simp add: tally_def mwf_def)
  finally show ?thesis using assms(1) unfolding backed_def tally_def by blast
qed

definition counted :: "'a Env \<Rightarrow> (bytes \<times> PMsg) set \<Rightarrow> 'a Pbft \<Rightarrow> bool" where
  "counted E M st \<longleftrightarrow>
     (\<forall>key. tally E M (PrepareM key) (getOr (cntPrepareConfirm st) key [])) \<and>
     (\<forall>key. tally E M (CommitM key) (getOr (cntCommitConfirm st) key []))"

definition outBacked :: "'a Env \<Rightarrow> (bytes \<times> PMsg) set \<Rightarrow> nat \<Rightarrow> Out \<Rightarrow> bool" where
  "outBacked E M T o1 = (case o1 of
      Sent (CommitM key q) to1 \<Rightarrow> backed E M (PrepareM key) T
    | Executed s key r \<Rightarrow> backed E M (CommitM key) T
    | _ \<Rightarrow> True)"

lemma counted_certified:
  "counted E M st \<Longrightarrow> certified E st key \<Longrightarrow> T \<le> threshold E (app st) \<Longrightarrow> backed E M (PrepareM key) (unat T)"
  unfolding counted_def certified_def by (blast intro: tally_backed order_trans)

lemma counted_committed:
  "counted E M st \<Longrightarrow> committed E st key \<Longrightarrow> T \<le> threshold E (app st) \<Longrightarrow> backed E M (CommitM key) (unat T)"
  unfolding counted_def committed_def by (blast intro: tally_backed order_trans)

lemma counted_pstep:
  assumes "pstep E M st st'" "keyed M st" "counted E M st"
  shows "counted E M st'"
  using assms
proof (induction rule: pstep.induct)
  case (countCommit sender q key st n)
  have "(sender, CommitM key q) \<in> M" by (rule keyed_commit(2)[OF countCommit(3,1)])
  from tally_record[of E M CommitM "cntCommitConfirm st", OF _ this countCommit(2) refl] countCommit(4)
  show ?case by (simp add: counted_def recordCommit_def Let_def)
next
  case (countPrepare sender key q st n)
  have "(sender, PrepareM key q) \<in> M" by (rule keyed_prepare(2)[OF countPrepare(3,1)])
  from tally_record[of E M PrepareM "cntPrepareConfirm st", OF _ this countPrepare(2) refl] countPrepare(4)
  show ?case by (simp add: counted_def recordPrepare_def Let_def)
qed (auto simp: counted_def endRound_def emit_def)

lemma outBacked_pstep:
  assumes "pstep E M st st'" "counted E M st" "\<And>a. T \<le> threshold E a" "\<forall>o1\<in>set (out st). outBacked E M (unat T) o1"
  shows "\<forall>o1\<in>set (out st'). outBacked E M (unat T) o1"
  using assms
proof (induction rule: pstep.induct)
  case (execute st key r a)
  have "backed E M (CommitM key) (unat T)" by (rule counted_committed[OF execute(4,1,5)])
  then show ?case using execute(6) by (simp add: endRound_def emit_def outBacked_def)
next
  case (sendCommit st key seq to1)
  have "backed E M (PrepareM key) (unat T)" by (rule counted_certified[OF sendCommit(2,1,3)])
  then show ?case using sendCommit(4) by (simp add: emit_def outBacked_def)
qed (auto simp: emit_def outBacked_def recordCommit_def recordPrepare_def Let_def)

lemma idle_backed: "idleOut o1 \<Longrightarrow> outBacked E M T o1"
  by (auto simp: idleOut_def outBacked_def)

lemma pbftReach_out:
  assumes "pbftReach E M st" "\<And>a. T \<le> threshold E a"
  shows "counted E M st \<and> (\<forall>o1\<in>set (out st). outBacked E M (unat T) o1)"
  using assms(1)
proof (induction rule: pbftReach_induct)
  case (start legal a)
  show ?case by (simp add: counted_def NewPbftConsensus_def getOr_def)
next
  case (steps st st')
  then show ?case using counted_pstep outBacked_pstep[OF _ _ assms(2)] by blast
next
  case (side st st')
  then show ?case by (auto simp: counted_def sideStep_def intro: idle_backed)
qed

subsection \<open>Order of execution\<close>

definition rounds :: "'a Pbft \<Rightarrow> 64 word list" where
  \<comment> \<open>the rounds the node has executed, in order\<close>
  "rounds st = concat (map (\<lambda>o1. case o1 of Executed s key r \<Rightarrow> [s] | _ \<Rightarrow> []) (out st))"

definition inOrder :: "'a Pbft \<Rightarrow> bool" where
  "inOrder st \<longleftrightarrow> rounds st = map of_nat [0..<length (rounds st)] \<and> sequence st = of_nat (length (rounds st))"

lemma rounds_pstep:
  assumes "pstep E M st st'" "\<And>st. \<not> selfIs E IsWaiting st"
  shows "rounds st' = rounds st \<and> sequence st' = sequence st \<or>
         rounds st' = rounds st @ [sequence st] \<and> sequence st' = sequence st + 1"
  using assms
  by (induction rule: pstep.induct)
    (simp_all add: rounds_def emit_def endRound_def recordCommit_def recordPrepare_def Let_def)

lemma rounds_side: "sideStep st st' \<Longrightarrow> rounds st' = rounds st \<and> sequence st' = sequence st"
proof -
  assume "sideStep st st'"
  then obtain lock buf pool a os where os: "\<forall>o1\<in>set os. idleOut o1"
    and st': "st' = st\<lparr>proposeLock := lock, proposalBuffer := buf, proposalPool := pool, app := a, out := out st @ os\<rparr>"
    unfolding sideStep_def by blast
  have "concat (map (\<lambda>o1. case o1 of Executed s key r \<Rightarrow> [s] | _ \<Rightarrow> []) os) = []"
    using os by (auto simp: idleOut_def split: Out.split)
  then show ?thesis by (simp add: st' rounds_def del: concat_eq_Nil_conv)
qed

lemma inOrder_cases:
  assumes "inOrder st" "rounds st' = rounds st \<and> sequence st' = sequence st \<or>
         rounds st' = rounds st @ [sequence st] \<and> sequence st' = sequence st + 1"
  shows "inOrder st'"
  using assms(2)
proof
  assume "rounds st' = rounds st \<and> sequence st' = sequence st"
  then show ?thesis using assms(1) by (simp only: inOrder_def)
next
  assume r: "rounds st' = rounds st @ [sequence st] \<and> sequence st' = sequence st + 1"
  then have len: "length (rounds st') = Suc (length (rounds st))" by simp
  show ?thesis unfolding inOrder_def len using r assms(1) by (simp add: inOrder_def[of st])
qed

text \<open>C3: A node that is never waiting executes the rounds of its domain in order, each exactly once: the rounds
  executed so far are 0, 1, 2, ... without gap, and the next round is the current one.\<close>
theorem rounds_in_order:
  assumes "pbftReach E M st" "\<And>a n. mget (nodes E a) (self E) = Some n \<Longrightarrow> \<not> IsWaiting n"
  shows "rounds st = map of_nat [0..<length (rounds st)] \<and> sequence st = of_nat (length (rounds st))"
proof -
  have w: "\<not> selfIs E IsWaiting st" for st
    using assms(2) by (auto simp: selfIs_def selfNode_def split: option.splits)
  have "inOrder st"
    using assms(1)
  proof (induction rule: pbftReach_induct)
    case (start legal a)
    show ?case by (simp add: inOrder_def rounds_def NewPbftConsensus_def)
  next
    case (steps st st')
    then show ?case using inOrder_cases rounds_pstep[OF _ w] by blast
  next
    case (side st st')
    then show ?case using rounds_side inOrder_cases by blast
  qed
  then show ?thesis by (simp add: inOrder_def)
qed

subsection \<open>What the runs guarantee\<close>

text \<open>C2: Certificates: whenever a node has executed a round for a digest, it received commit messages for that digest from
  at least as many running nodes as the threshold asks for, and whenever it has sent a commit, it received as many prepare messages.\<close>
theorem pbft_certificates:
  assumes "pbftReach E M st" "\<And>a. T \<le> threshold E a"
  shows "(Executed s key r \<in> set (out st) \<longrightarrow> backed E M (CommitM key) (unat T)) \<and>
         (Sent (CommitM key q) to1 \<in> set (out st) \<longrightarrow> backed E M (PrepareM key) (unat T))"
  using pbftReach_out[of E M st T, OF assms] by (auto simp: outBacked_def)

lemma executed_backed:
  "pbftReach E M st \<Longrightarrow> (\<And>a. T \<le> threshold E a) \<Longrightarrow> Executed s key r \<in> set (out st) \<Longrightarrow> backed E M (CommitM key) (unat T)"
  using pbftReach_out[of E M st T] by (auto simp: outBacked_def)

lemma backed_inside: "backed E M vote T \<Longrightarrow> voters E \<subseteq> V \<Longrightarrow> \<exists>S. T \<le> card S \<and> S \<subseteq> V \<and> S \<subseteq> voted E M vote"
  unfolding backed_def voted_def by blast

text \<open>C1: Safety of the votes: let two nodes of a domain of \<open>n\<close> running nodes, of which at most \<open>(n - 1) div 3\<close> are
  faulty, wait for \<open>Threshold\<close> votes.  Whatever the two have executed, in whatever round, there is a correct node
  that sent the first a commit for the digest it executed and the second a commit for the digest that one executed.\<close>
theorem executions_share_voter:
  assumes "pbftReach E1 M1 st1" "pbftReach E2 M2 st2"
    and "finite V" "V \<noteq> {}" "card V < 2 ^ 62" "voters E1 \<subseteq> V" "voters E2 \<subseteq> V"
    and "\<And>a. threshold E1 a = quorumOf (of_nat (card V))" "\<And>a. threshold E2 a = quorumOf (of_nat (card V))"
    and "F \<subseteq> V" "card F \<le> (card V - 1) div 3"
    and "Executed s1 key1 r1 \<in> set (out st1)" "Executed s2 key2 r2 \<in> set (out st2)"
  shows "\<exists>p \<in> V - F. (\<exists>q. (p, CommitM key1 q) \<in> M1) \<and> (\<exists>q. (p, CommitM key2 q) \<in> M2)"
proof -
  let ?T = "quorumOf (of_nat (card V)) :: 64 word"
  have pos: "0 < card V" using assms(3,4) by (simp add: card_gt_0_iff)
  have "backed E1 M1 (CommitM key1) (unat ?T)" by (rule executed_backed[OF assms(1) _ assms(12)]) (simp add: assms(8))
  then obtain A where A: "unat ?T \<le> card A" "A \<subseteq> V" "A \<subseteq> voted E1 M1 (CommitM key1)"
    using backed_inside assms(6) by blast
  have "backed E2 M2 (CommitM key2) (unat ?T)" by (rule executed_backed[OF assms(2) _ assms(13)]) (simp add: assms(9))
  then obtain B where B: "unat ?T \<le> card B" "B \<subseteq> V" "B \<subseteq> voted E2 M2 (CommitM key2)"
    using backed_inside assms(7) by blast
  have "card F \<le> faultsTolerated (card V)" using assms(11) by (simp add: faultsTolerated_def)
  from uintQuorum.quorums_share_correct[OF assms(3) pos assms(5) A(2) B(2) assms(10) A(1) B(1) this]
  obtain p where "p \<in> A" "p \<in> B" "p \<notin> F" by blast
  then show ?thesis using A(2,3) B(3) unfolding voted_def by blast
qed

text \<open>C4: Every message handler of a consensus instance is a sequence of steps of the abstract protocol, whose
  steps state when a commit may be sent, when a round may be executed and which requests are prepared;
  so what the handlers do to the maps of \<open>ConPbft\<close>, nested calls included, is allowed by the protocol.\<close>
theorem HandleMsg_protocol:
  assumes "iter_ok pord" "iter_ok ord" "keyed M st" "(sender, m) \<in> M"
    and "HandleMsg fuel E pord ord (sender, m) st = Some st'"
  shows "(pstep E M)\<^sup>*\<^sup>* st st' \<and> keyed M st'"
  using HandleMsg_psteps[OF assms] keyed_psteps assms(3) by blast

lemma pbftReach_keyed: "pbftReach E M st \<Longrightarrow> keyed M st"
proof (induction rule: pbftReach_induct)
  case (start legal a)
  show ?case by (simp add: NewPbftConsensus_def keyed_def)
next
  case (steps st st')
  then show ?case by (blast intro: keyed_pstep)
next
  case (side st st')
  then show ?case by (auto simp: sideStep_def keyed_def)
qed

text \<open>C40: A node whose operation rejects the proposal of the main node answers with a reply message, takes the
  request back and sends no prepare; when that reply reaches the main node in the same round, the main node
  panics, in every state it can reach, since no constructor makes the map \<open>cntReplyConfirm\<close>.\<close>
theorem rejected_proposal_crashes_main:
  assumes "verifyOp E (RequestType req) (ParseContent (ReqContent req)) (app st) = Some (False, a)"
    and "mainOf E a = Some m" "mget (nodes E a) m = Some n"
    and "pbftReach E' M' st'" "mainOf E' (app st') = Some (self E')" "sequence st' = seq"
  shows "(\<exists>st1. acceptProposal E pord ord again req hash seq st = Some st1 \<and>
           out st1 = out st @ [Sent (ReplyM seq False) (IpAddr n)] \<and> mget (proposalPool st1) seq = Some None) \<and>
         HandleMsg fuel E' pord ord (sender, ReplyM seq False) st' = None"
proof
  show "\<exists>st1. acceptProposal E pord ord again req hash seq st = Some st1 \<and>
           out st1 = out st @ [Sent (ReplyM seq False) (IpAddr n)] \<and> mget (proposalPool st1) seq = Some None"
    using assms(1-3) by (simp add: acceptProposal_def Let_def NewReply_def emit_def mget_mput)
  have "cntReplyConfirm st' = None" using pbftReach_keyed[OF assms(4)] by (simp add: keyed_def)
  then show "HandleMsg fuel E' pord ord (sender, ReplyM seq False) st' = None"
    using assms(5,6) by (simp add: HandleReply_def)
qed

subsection \<open>A run\<close>

definition demoEnv :: "bytes \<Rightarrow> nat Env" where
  \<comment> \<open>four running nodes, of which \<open>a\<close> is the main node; the operation ''no'' is refused\<close>
  "demoEnv me = \<lparr>nodes = \<lambda>a. demoMap, mainOf = \<lambda>a. Some ''a'', threshold = \<lambda>a. 3, self = me, wake = \<lambda>b a. a,
     digest = ReqContent, prepareOp = \<lambda>t vars a. Some (True, vars, a),
     verifyOp = \<lambda>t vars a. Some (t = ''op'', a), executeOp = \<lambda>t a. Some (a + 1)\<rparr>"

definition demoReq :: Request where
  "demoReq = \<lparr>RequestType = ''op'', ReqContent = ''x'', ReqTime = 0\<rparr>"

definition demoMsgs :: "(bytes \<times> PMsg) list" where
  "demoMsgs = [(''a'', PrePrepareM demoReq ''x'' 0),
     (''a'', PrepareM ''x'' 0), (''b'', PrepareM ''x'' 0), (''c'', PrepareM ''x'' 0),
     (''a'', CommitM ''x'' 0), (''b'', CommitM ''x'' 0), (''c'', CommitM ''x'' 0)]"

definition demoEnd :: "nat Pbft" where
  "demoEnd = (NewPbftConsensus ''all'' 0)\<lparr>sequence := 1,
     cntPrepareConfirm := [(''x'', [(''a'', True), (''b'', True), (''c'', True)])],
     cntCommitConfirm := [(''x'', [(''a'', True), (''b'', True), (''c'', True)])],
     isCommitBroadcast := [(''x'', True)], proposalPool := [(0, Some demoReq)],
     proposalStatus := [(0, Committed)], isReply := [(0, True)], app := 1,
     out := [Sent (PrepareM ''x'' 0) ''all'', Sent (CommitM ''x'' 0) ''all'', Executed 0 ''x'' demoReq]\<rparr>"

lemma pbftReach_foldM:
  assumes "foldM (HandleMsg fuel E pord ord) ms st = Some st'" "set ms \<subseteq> M" "iter_ok pord" "iter_ok ord"
    "pbftReach E M st"
  shows "pbftReach E M st'"
  using assms
proof (induction ms arbitrary: st)
  case (Cons m ms)
  then obtain st1 where "HandleMsg fuel E pord ord m st = Some st1" "foldM (HandleMsg fuel E pord ord) ms st1 = Some st'"
    by (auto simp: bind_eq_Some_conv)
  then show ?case using Cons pbftReach.deliver[of E M st m pord ord fuel st1] by simp
qed simp

lemma three_more: "\<not> (3 :: 64 word) \<le> 1" "\<not> (3 :: 64 word) \<le> 2"
  by (simp_all add: word_le_nat_alt)

lemma iter_id: "iter_ok id"
  unfolding id_def by (rule iter_ok_id)

lemma demo_run: "foldM (HandleMsg (Suc (Suc 0)) (demoEnv ''b'') id id) demoMsgs (NewPbftConsensus ''all'' 0) = Some demoEnd"
  by (simp add: three_more demoMsgs_def demoEnv_def demoEnd_def NewPbftConsensus_def HandlePrePrepareWith_def
      wakeFor_def verifyPrePrepare_def acceptProposal_def pointer_def selfIs_def selfNode_def demoMap_def
      demoNode_def IsRunning_def IsWaiting_def IsPreparing_def demoReq_def EpochReset_def emit_def HandlePrepare_def getOr_def
      HandlePrepareMsgs_def HandleCommit_def HandleCommitMsgs_def recordPrepare_def recordCommit_def
      Prepared_def Committed_def Unprepared_def executeRound_def endRound_def Let_def)

lemma demo_reach: "pbftReach (demoEnv ''b'') (set demoMsgs) demoEnd"
  by (rule pbftReach_foldM[OF demo_run _ iter_id iter_id pbftReach.start]) simp

lemma demo_voters: "voters (demoEnv me) = {''a'', ''b'', ''c'', ''d''}"
proof -
  have "voters (demoEnv me) = runningKeys demoMap"
    unfolding voters_def runningKeys_def by (auto simp: demoEnv_def)
  then show ?thesis by (simp add: demoMap_running(2))
qed

theorem pbft_certificates_witness:
  "backed (demoEnv ''b'') (set demoMsgs) (CommitM ''x'') (unat (3 :: 64 word)) \<and>
   backed (demoEnv ''b'') (set demoMsgs) (PrepareM ''x'') (unat (3 :: 64 word))"
  using pbft_certificates[OF demo_reach, of 3 0 "''x''" demoReq 0 "''all''"]
  by (simp add: demoEnv_def demoEnd_def)

theorem rounds_in_order_witness: "rounds demoEnd = map of_nat [0..<1] \<and> sequence demoEnd = 1"
proof -
  have l: "length (rounds demoEnd) = 1" by (simp add: rounds_def demoEnd_def)
  have "rounds demoEnd = map of_nat [0..<length (rounds demoEnd)] \<and> sequence demoEnd = of_nat (length (rounds demoEnd))"
    by (rule rounds_in_order[OF demo_reach])
      (auto simp: demoEnv_def demoMap_def demoNode_def IsWaiting_def split: if_splits)
  then show ?thesis by (simp only: l) simp
qed

theorem executions_share_voter_witness:
  "\<exists>p \<in> {''a'', ''b'', ''c'', ''d''} - {''d''}.
     (\<exists>q. (p, CommitM ''x'' q) \<in> set demoMsgs) \<and> (\<exists>q. (p, CommitM ''x'' q) \<in> set demoMsgs)"
proof -
  have q: "quorumOf (of_nat (card {''a'', ''b'', ''c'', ''d''})) = (3 :: 64 word)" by (simp add: quorumOf_def)
  show ?thesis
    by (rule executions_share_voter[OF demo_reach demo_reach, where ?s1.0 = 0 and ?s2.0 = 0 and ?r1.0 = demoReq and ?r2.0 = demoReq])
      (simp_all only: demo_voters q, simp_all add: demoEnv_def demoEnd_def)
qed

theorem HandleMsg_protocol_witness:
  "\<exists>st. HandleMsg 1 (demoEnv ''b'') id id (''a'', PrepareM ''x'' 0) (NewPbftConsensus ''all'' 0) = Some st \<and>
      (pstep (demoEnv ''b'') {(''a'', PrepareM ''x'' 0)})\<^sup>*\<^sup>* (NewPbftConsensus ''all'' 0) st"
proof -
  have "\<exists>st. HandleMsg 1 (demoEnv ''b'') id id (''a'', PrepareM ''x'' 0) (NewPbftConsensus ''all'' 0) = Some st"
    by (simp add: demoEnv_def NewPbftConsensus_def demoMap_def demoNode_def IsRunning_def HandlePrepare_def getOr_def
        HandlePrepareMsgs_def Prepared_def Let_def)
  moreover have "keyed M (NewPbftConsensus ''all'' 0)" for M by (rule pbftReach_keyed[OF pbftReach.start])
  ultimately show ?thesis
    using HandleMsg_protocol[OF iter_id iter_id, of "{(''a'', PrepareM ''x'' 0)}" "NewPbftConsensus ''all'' 0"
        "''a''" "PrepareM ''x'' 0" 1 "demoEnv ''b''"]
    by (metis insertI1)
qed

theorem rejected_proposal_crashes_main_witness:
  "HandleMsg 1 (demoEnv ''a'') id id (''b'', ReplyM 0 False) (NewPbftConsensus ''all'' 0) = None"
  by (rule rejected_proposal_crashes_main[where E' = "demoEnv ''a''" and M' = "{}" and E = "demoEnv ''b''" and st = "NewPbftConsensus ''all'' 0"
        and a = 0 and req = "demoReq\<lparr>RequestType := ''no''\<rparr>" and m = "''a''" and n = "demoNode 1", OF _ _ _ pbftReach.start, THEN conjunct2])
    (simp_all add: demoEnv_def NewPbftConsensus_def demoReq_def demoMap_def)

end
