(* ===== verification/BlockTree.thy ===== *)
theory BlockTree
  imports Chain
begin

text \<open>
  What the chains of Monoxide and Monosulfide have in common: blocks are stored by hash, each names the
  hash of its parent, and the code walks from a block to the genesis block of its shard.  The theory is
  parametric in the hash and the parent of a block.  \<open>branch\<close> is the walk; \<open>None\<close> stands for the panic on
  a parent that is not stored and for a walk that does not end, which \<open>rooted_branch\<close> excludes for the fuel
  the callers take, one more than there are blocks.
\<close>

fun branch :: "nat \<Rightarrow> ('b \<Rightarrow> hash) \<Rightarrow> (hash, 'b) gomap \<Rightarrow> 'b option \<Rightarrow> 'b \<Rightarrow> 'b list option" where
  \<comment> \<open>the blocks from \<open>b\<close> up to, and without, the genesis block\<close>
  "branch 0 par blocks gen b = None"
| "branch (Suc n) par blocks gen b =
     (if gen = Some b then Some []
      else do { p \<leftarrow> mget blocks (par b);
                bs \<leftarrow> branch n par blocks gen p;
                Some (b # bs) })"

definition addWeight :: "hash list \<Rightarrow> (hash, nat) gomap \<Rightarrow> (hash, nat) gomap" where
  "addWeight hs w = fold (\<lambda>h w. mput h (getOr w h 0 + 1) w) hs w"

subsection \<open>Paths\<close>

inductive path :: "('b \<Rightarrow> hash) \<Rightarrow> (hash, 'b) gomap \<Rightarrow> 'b \<Rightarrow> 'b \<Rightarrow> 'b list \<Rightarrow> bool" for par blocks g where
  here: "path par blocks g g []"
| up: "b \<noteq> g \<Longrightarrow> mget blocks (par b) = Some p \<Longrightarrow> path par blocks g p bs \<Longrightarrow> path par blocks g b (b # bs)"

inductive_cases path_NilE: "path par blocks g b []"
inductive_cases path_ConsE: "path par blocks g b (c # bs)"

lemma path_Nil [simp]: "path par blocks g b [] \<longleftrightarrow> b = g"
  by (metis path.here path_NilE)

lemma path_Cons: "path par blocks g b (c # bs) \<longleftrightarrow>
    c = b \<and> b \<noteq> g \<and> (\<exists>p. mget blocks (par b) = Some p \<and> path par blocks g p bs)"
proof
  assume "path par blocks g b (c # bs)"
  then show "c = b \<and> b \<noteq> g \<and> (\<exists>p. mget blocks (par b) = Some p \<and> path par blocks g p bs)"
    by (rule path_ConsE) simp
next
  assume "c = b \<and> b \<noteq> g \<and> (\<exists>p. mget blocks (par b) = Some p \<and> path par blocks g p bs)"
  then obtain p where "c = b" "b \<noteq> g" "mget blocks (par b) = Some p" "path par blocks g p bs" by blast
  then show "path par blocks g b (c # bs)" using path.up[of b g blocks par p bs] by simp
qed

lemma path_g: "path par blocks g g bs \<longleftrightarrow> bs = []"
  by (cases bs) (auto simp: path_Nil path_Cons)

lemma path_unique: "path par blocks g b bs \<Longrightarrow> path par blocks g b cs \<Longrightarrow> bs = cs"
proof (induction arbitrary: cs rule: path.induct)
  case here
  then show ?case by (simp add: path_g)
next
  case (up b p bs)
  show ?case
  proof (cases cs)
    case Nil
    then show ?thesis using up(1,5) by simp
  next
    case (Cons c ds)
    then have "c = b" "path par blocks g p ds" using up(2,5) by (auto simp: path_Cons)
    then show ?thesis using up(4)[of ds] Cons by simp
  qed
qed

lemma branch_iff: "branch n par blocks (Some g) b = Some bs \<longleftrightarrow> path par blocks g b bs \<and> length bs < n"
proof (induction n arbitrary: b bs)
  case (Suc n)
  show ?case
  proof (cases "b = g")
    case True
    then show ?thesis by (cases bs) (auto simp: path_g)
  next
    case False
    then show ?thesis
      by (cases bs) (auto simp: bind_eq_Some_conv path_Nil path_Cons Suc)
  qed
qed simp

lemma path_suffix: "path par blocks g b (bs @ c # cs) \<Longrightarrow> path par blocks g c (c # cs)"
proof (induction bs arbitrary: b)
  case (Cons a bs)
  then show ?case by (auto simp: path_Cons)
qed (auto simp: path_Cons)

lemma path_distinct: "path par blocks g b bs \<Longrightarrow> distinct bs"
proof (induction rule: path.induct)
  case (up b p bs)
  have "b \<notin> set bs"
  proof
    assume "b \<in> set bs"
    then obtain as cs where "bs = as @ b # cs" by (auto simp: in_set_conv_decomp)
    then have "path par blocks g b (b # cs)" using up path_suffix by metis
    with path.up[OF up(1-3)] have "bs = cs" using path_unique by fastforce
    with \<open>bs = as @ b # cs\<close> show False by simp
  qed
  with up show ?case by simp
qed simp

lemma path_members: "path par blocks g b bs \<Longrightarrow> c \<in> set bs \<Longrightarrow> c \<noteq> b \<Longrightarrow> \<exists>h. mget blocks h = Some c"
proof (induction arbitrary: c rule: path.induct)
  case (up b p bs)
  then show ?case by (cases "c = p") auto
qed simp

lemma path_append:
  "path par blocks g b (bs @ c # cs) \<longleftrightarrow>
     path par blocks c b bs \<and> path par blocks g c (c # cs) \<and> g \<notin> set bs"
proof (induction bs arbitrary: b)
  case Nil
  show ?case by (auto simp: path_Cons)
next
  case (Cons a bs)
  show ?case
  proof
    assume l: "path par blocks g b ((a # bs) @ c # cs)"
    then obtain p where p: "a = b" "b \<noteq> g" "mget blocks (par b) = Some p" "path par blocks g p (bs @ c # cs)"
      by (auto simp: path_Cons)
    moreover have "b \<noteq> c" using path_distinct[OF l] p(1) by auto
    ultimately show "path par blocks c b (a # bs) \<and> path par blocks g c (c # cs) \<and> g \<notin> set (a # bs)"
      using Cons[of p] by (auto simp: path_Cons)
  next
    assume "path par blocks c b (a # bs) \<and> path par blocks g c (c # cs) \<and> g \<notin> set (a # bs)"
    then show "path par blocks g b ((a # bs) @ c # cs)"
      using Cons by (auto simp: path_Cons)
  qed
qed

lemma path_mono:
  assumes "path par blocks g b bs" "\<And>h c. mget blocks h = Some c \<Longrightarrow> mget blocks' h = Some c"
  shows "path par blocks' g b bs"
  using assms(1) by (induction rule: path.induct) (auto intro: path.intros assms(2))

lemma path_length:
  assumes "path par blocks g b bs" "mget blocks h = Some b"
  shows "length bs \<le> length blocks"
proof -
  have "set bs \<subseteq> snd ` set blocks"
  proof
    fix c assume "c \<in> set bs"
    then obtain k where "mget blocks k = Some c"
      using path_members[OF assms(1)] assms(2) by (cases "c = b") blast+
    then have "(k, c) \<in> set blocks" by (rule map_of_SomeD)
    then show "c \<in> snd ` set blocks" by force
  qed
  then have "card (set bs) \<le> card (snd ` set blocks)" by (intro card_mono) auto
  also have "\<dots> \<le> length blocks" by (metis card_image_le card_length finite_set le_trans)
  finally show ?thesis using path_distinct[OF assms(1)] by (simp add: distinct_card)
qed

lemma path_two_ends:
  assumes "path par blocks g b bs" "path par blocks g' b cs" "g \<noteq> g'"
  shows "(\<exists>p. mget blocks (par g) = Some p) \<or> (\<exists>p. mget blocks (par g') = Some p)"
  using assms
proof (induction arbitrary: cs rule: path.induct)
  case here
  then show ?case by (cases cs) (auto simp: path_Cons)
next
  case (up b p bs)
  show ?case
  proof (cases "b = g'")
    case True
    then show ?thesis using up(2) by auto
  next
    case False
    then obtain ds where "cs = b # ds" "path par blocks g' p ds"
      using up(2,5) by (cases cs) (auto simp: path_Cons)
    then show ?thesis using up(4) up(6) by blast
  qed
qed

subsection \<open>Trees of blocks\<close>

definition tree :: "('b \<Rightarrow> hash) \<Rightarrow> ('b \<Rightarrow> hash) \<Rightarrow> ('b \<Rightarrow> nat) \<Rightarrow> (nat \<Rightarrow> 'b option) \<Rightarrow> (hash, 'b) gomap \<Rightarrow> bool" where
  \<comment> \<open>blocks are stored under their hash and lead to the genesis block of their shard\<close>
  "tree hsh par sid gen blocks \<longleftrightarrow>
     (\<forall>h b. mget blocks h = Some b \<longrightarrow> hsh b = h \<and> (\<exists>g bs. gen (sid b) = Some g \<and> path par blocks g b bs)) \<and>
     (\<forall>i g. gen i = Some g \<longrightarrow> mget blocks (hsh g) = Some g \<and> mget blocks (par g) = None)"

definition below :: "('b \<Rightarrow> hash) \<Rightarrow> ('b \<Rightarrow> hash) \<Rightarrow> ('b \<Rightarrow> nat) \<Rightarrow> (nat \<Rightarrow> 'b option) \<Rightarrow> (hash, 'b) gomap \<Rightarrow> hash \<Rightarrow> hash set" where
  \<comment> \<open>the stored blocks whose branch meets \<open>h\<close>\<close>
  "below hsh par sid gen blocks h =
     {k. \<exists>b g bs. mget blocks k = Some b \<and> gen (sid b) = Some g \<and> path par blocks g b bs \<and> h \<in> hsh ` set bs}"

definition weighed :: "('b \<Rightarrow> hash) \<Rightarrow> ('b \<Rightarrow> hash) \<Rightarrow> ('b \<Rightarrow> nat) \<Rightarrow> (nat \<Rightarrow> 'b option) \<Rightarrow> (hash, 'b) gomap \<Rightarrow> (hash, nat) gomap \<Rightarrow> bool" where
  "weighed hsh par sid gen blocks w \<longleftrightarrow> (\<forall>h. getOr w h 0 = card (below hsh par sid gen blocks h))"

definition linkedKids :: "('b \<Rightarrow> hash) \<Rightarrow> ('b \<Rightarrow> hash) \<Rightarrow> (nat \<Rightarrow> 'b option) \<Rightarrow> (hash, 'b) gomap \<Rightarrow> (hash, hash list) gomap \<Rightarrow> bool" where
  \<comment> \<open>the children recorded for a hash are the blocks with that parent\<close>
  "linkedKids hsh par gen blocks pth \<longleftrightarrow>
     (\<forall>h. distinct (getOr pth h []) \<and>
          set (getOr pth h []) = {k. \<exists>b. mget blocks k = Some b \<and> par b = h \<and> (\<forall>i. gen i \<noteq> Some b)})"

lemma treeD:
  assumes "tree hsh par sid gen blocks"
  shows "mget blocks h = Some b \<Longrightarrow> hsh b = h"
    "mget blocks h = Some b \<Longrightarrow> \<exists>g bs. gen (sid b) = Some g \<and> path par blocks g b bs"
    "gen i = Some g \<Longrightarrow> mget blocks (hsh g) = Some g" "gen i = Some g \<Longrightarrow> mget blocks (par g) = None"
  using assms unfolding tree_def by blast+

lemma tree_genesis_unique:
  assumes "tree hsh par sid gen blocks" "gen i = Some g" "gen j = Some g'"
    "path par blocks g b bs" "path par blocks g' b cs"
  shows "g = g'"
  using path_two_ends[OF assms(4,5)] treeD(4)[OF assms(1,2)] treeD(4)[OF assms(1,3)] by auto

lemma tree_branch:
  assumes "tree hsh par sid gen blocks" "mget blocks h = Some b"
  shows "\<exists>g bs. gen (sid b) = Some g \<and> branch (Suc (length blocks)) par blocks (gen (sid b)) b = Some bs \<and>
           path par blocks g b bs"
proof -
  obtain g bs where g: "gen (sid b) = Some g" "path par blocks g b bs" using treeD(2)[OF assms] by blast
  then have "branch (Suc (length blocks)) par blocks (Some g) b = Some bs"
    using path_length[OF g(2) assms(2)] by (simp only: branch_iff less_Suc_eq_le)
  then show ?thesis using g by (intro exI[of _ g] exI[of _ bs]) simp
qed

lemma tree_path_inj:
  assumes "tree hsh par sid gen blocks" "mget blocks h = Some b" "path par blocks g b bs"
  shows "distinct (map hsh bs)"
proof -
  have "mget blocks (hsh c) = Some c" if "c \<in> set bs" for c
    using path_members[OF assms(3) that] assms(2) treeD(1)[OF assms(1)] by (cases "c = b") auto
  then have "inj_on hsh (set bs)" by (intro inj_onI) (metis option.inject)
  then show ?thesis using path_distinct[OF assms(3)] by (simp add: distinct_map)
qed

subsection \<open>Storing a block\<close>

text \<open>A block with a new hash whose parent is stored in the tree of its shard.\<close>

lemma insert_path:
  assumes t: "tree hsh par sid gen blocks" and fresh: "mget blocks (hsh b) = None"
    and g: "gen (sid b) = Some g" and new: "\<And>i g. gen i = Some g \<Longrightarrow> par g \<noteq> hsh b"
    and p: "path par (mput (hsh b) b blocks) g b bs"
  shows "\<exists>p cs. bs = b # cs \<and> b \<noteq> g \<and> mget blocks (par b) = Some p \<and> path par blocks g p cs"
proof -
  let ?blocks = "mput (hsh b) b blocks"
  have "b \<noteq> g" using treeD(3)[OF t g] fresh by auto
  then obtain q cs where q: "bs = b # cs" "mget ?blocks (par b) = Some q" "path par ?blocks g q cs"
    using p by (cases bs) (auto simp: path_Cons)
  have "q \<noteq> b" using path_unique[OF p, of cs] q(1,3) by (metis not_Cons_self)
  then have s: "mget blocks (par b) = Some q" using q(2) by (simp split: if_splits)
  obtain g' ds where g': "gen (sid q) = Some g'" "path par blocks g' q ds" using treeD(2)[OF t s] by blast
  have up: "path par ?blocks g' q ds" by (rule path_mono[OF g'(2)]) (use fresh in auto)
  have ends: "mget ?blocks (par g) = None" "mget ?blocks (par g') = None"
    using treeD(4)[OF t g] treeD(4)[OF t g'(1)] new[OF g] new[OF g'(1)] by simp_all
  have "g' = g"
  proof (rule ccontr)
    assume "g' \<noteq> g"
    with path_two_ends[OF q(3) up] show False unfolding ends by blast
  qed
  moreover from this have "cs = ds" using path_unique[OF q(3)] up by simp
  ultimately have "bs = b # ds" "path par blocks g q ds" using q(1) g'(2) by simp_all
  then show ?thesis using s \<open>b \<noteq> g\<close> by simp
qed

lemma insert_tree:
  assumes t: "tree hsh par sid gen blocks" and fresh: "mget blocks (hsh b) = None"
    and g: "gen (sid b) = Some g" and new: "\<And>i g. gen i = Some g \<Longrightarrow> par g \<noteq> hsh b"
    and p: "path par (mput (hsh b) b blocks) g b bs"
  shows "tree hsh par sid gen (mput (hsh b) b blocks)"
proof -
  have mono: "path par (mput (hsh b) b blocks) g' c cs" if "path par blocks g' c cs" for g' c cs
    by (rule path_mono[OF that]) (use fresh in auto)
  show ?thesis
    unfolding tree_def
  proof (intro conjI allI impI)
    fix h c assume c: "mget (mput (hsh b) b blocks) h = Some c"
    show "hsh c = h" using c treeD(1)[OF t] by (auto split: if_splits)
    show "\<exists>g bs. gen (sid c) = Some g \<and> path par (mput (hsh b) b blocks) g c bs"
    proof (cases "h = hsh b")
      case True
      then show ?thesis using c g p by auto
    next
      case False
      then have "mget blocks h = Some c" using c by simp
      from treeD(2)[OF t this] show ?thesis using mono by blast
    qed
  next
    fix i g' assume g': "gen i = Some g'"
    show "mget (mput (hsh b) b blocks) (hsh g') = Some g'" using treeD(3)[OF t g'] fresh by auto
    show "mget (mput (hsh b) b blocks) (par g') = None" using treeD(4)[OF t g'] new[OF g'] by auto
  qed
qed

lemma hashAt_mput [simp]: "hashAt (mput i h m) j = (if j = i then h else hashAt m j)"
  by (simp add: hashAt_def)

lemma getOr_mput: "getOr (mput k v m) k' d = (if k' = k then v else getOr m k' d)"
  by (simp add: getOr_def)

lemma addWeight_at:
  "distinct hs \<Longrightarrow> getOr (addWeight hs w) h 0 = getOr w h 0 + (if h \<in> set hs then 1 else 0)"
proof (induction hs arbitrary: w)
  case (Cons k hs)
  then have "getOr (addWeight (k # hs) w) h 0 =
      getOr (mput k (getOr w k 0 + 1) w) h 0 + (if h \<in> set hs then 1 else 0)"
    by (simp add: addWeight_def)
  then show ?case using Cons.prems by (auto simp: getOr_mput)
qed (simp add: addWeight_def)

lemma finite_below: "finite (below hsh par sid gen blocks h)"
proof (rule finite_subset)
  show "below hsh par sid gen blocks h \<subseteq> fst ` set blocks"
    by (force simp: below_def dest: map_of_SomeD)
qed simp

lemma below_mem:
  assumes "mget blocks k = Some b" "gen (sid b) = Some g" "path par blocks g b bs"
  shows "k \<in> below hsh par sid gen blocks h \<longleftrightarrow> h \<in> hsh ` set bs"
proof
  assume "k \<in> below hsh par sid gen blocks h"
  then obtain cs where "path par blocks g b cs" "h \<in> hsh ` set cs"
    using assms(1,2) by (auto simp: below_def)
  then show "h \<in> hsh ` set bs" using path_unique[OF assms(3)] by blast
qed (use assms in \<open>auto simp: below_def\<close>)

lemma insert_below:
  assumes t: "tree hsh par sid gen blocks" and fresh: "mget blocks (hsh b) = None"
    and g: "gen (sid b) = Some g" and new: "\<And>i g. gen i = Some g \<Longrightarrow> par g \<noteq> hsh b"
    and p: "path par (mput (hsh b) b blocks) g b bs"
  shows "below hsh par sid gen (mput (hsh b) b blocks) h =
         below hsh par sid gen blocks h \<union> (if h \<in> hsh ` set bs then {hsh b} else {})"
proof (rule set_eqI)
  fix k
  let ?blocks = "mput (hsh b) b blocks"
  show "k \<in> below hsh par sid gen ?blocks h \<longleftrightarrow>
        k \<in> below hsh par sid gen blocks h \<union> (if h \<in> hsh ` set bs then {hsh b} else {})"
  proof (cases "k = hsh b")
    case True
    have "k \<notin> below hsh par sid gen blocks h" using fresh True by (auto simp: below_def)
    moreover have "k \<in> below hsh par sid gen ?blocks h \<longleftrightarrow> h \<in> hsh ` set bs"
      by (rule below_mem[where b = b and g = g]) (use True g p in simp_all)
    ultimately show ?thesis using True by simp
  next
    case False
    show ?thesis
    proof (cases "mget blocks k")
      case None
      then show ?thesis using False by (auto simp: below_def)
    next
      case (Some c)
      obtain g' cs where c: "gen (sid c) = Some g'" "path par blocks g' c cs" using treeD(2)[OF t Some] by blast
      have "path par ?blocks g' c cs" by (rule path_mono[OF c(2)]) (use fresh in auto)
      then have "k \<in> below hsh par sid gen ?blocks h \<longleftrightarrow> h \<in> hsh ` set cs"
        by (intro below_mem[where b = c and g = g']) (use Some False c(1) in simp_all)
      moreover have "k \<in> below hsh par sid gen blocks h \<longleftrightarrow> h \<in> hsh ` set cs"
        by (rule below_mem[where b = c and g = g']) (use Some c in simp_all)
      ultimately show ?thesis using False by simp
    qed
  qed
qed

lemma insert_weighed:
  assumes t: "tree hsh par sid gen blocks" and fresh: "mget blocks (hsh b) = None"
    and g: "gen (sid b) = Some g" and new: "\<And>i g. gen i = Some g \<Longrightarrow> par g \<noteq> hsh b"
    and p: "path par (mput (hsh b) b blocks) g b bs"
    and w: "weighed hsh par sid gen blocks w"
  shows "weighed hsh par sid gen (mput (hsh b) b blocks) (addWeight (map hsh bs) w)"
  unfolding weighed_def
proof
  fix h
  have t': "tree hsh par sid gen (mput (hsh b) b blocks)" by (rule insert_tree[OF t fresh g new p])
  have d: "distinct (map hsh bs)" by (rule tree_path_inj[OF t' _ p, of "hsh b"]) simp
  have "hsh b \<notin> below hsh par sid gen blocks h" using fresh by (auto simp: below_def)
  then show "getOr (addWeight (map hsh bs) w) h 0 = card (below hsh par sid gen (mput (hsh b) b blocks) h)"
    using w finite_below[of hsh par sid gen blocks h]
    by (simp add: insert_below[OF t fresh g new p] addWeight_at[OF d] weighed_def)
qed

lemma insert_linkedKids:
  assumes k: "linkedKids hsh par gen blocks pth" and fresh: "mget blocks (hsh b) = None"
    and g: "\<And>i. gen i \<noteq> Some b"
  shows "linkedKids hsh par gen (mput (hsh b) b blocks) (mput (par b) (getOr pth (par b) [] @ [hsh b]) pth)"
  unfolding linkedKids_def
proof (intro allI conjI)
  fix h
  let ?kids = "\<lambda>blocks. {k. \<exists>b. mget blocks k = Some b \<and> par b = h \<and> (\<forall>i. gen i \<noteq> Some b)}"
  have old: "distinct (getOr pth h [])" "set (getOr pth h []) = ?kids blocks"
    using k by (auto simp: linkedKids_def)
  then have "hsh b \<notin> set (getOr pth h [])" using fresh by auto
  then show "distinct (getOr (mput (par b) (getOr pth (par b) [] @ [hsh b]) pth) h [])"
    using old(1) by (auto simp: getOr_mput)
  have "?kids (mput (hsh b) b blocks) = ?kids blocks \<union> (if h = par b then {hsh b} else {})"
    using fresh g by (auto split: if_splits)
  then show "set (getOr (mput (par b) (getOr pth (par b) [] @ [hsh b]) pth) h []) = ?kids (mput (hsh b) b blocks)"
    using old(2) by (auto simp: getOr_mput)
qed

end
