(* ===== verification/Monoxide.thy ===== *)
theory Monoxide
  imports BlockTree
begin

text \<open>
  \<^verbatim>\<open>src/monoxide/monoxideChain.go\<close>: every node keeps one tree of relay blocks per shard; the nonce of a block is the number of its shard.
  \<open>mxWeight\<close> counts, for each block, the blocks of its subtree, \<open>mxPath\<close> lists its children, and \<open>findTop\<close>
  goes down from the genesis block to the heaviest child.  A pointer to a block is the block with its
  address \<open>rAddr\<close>.

  The loops that follow parent hashes take as many steps as there are blocks (\<open>tree_branch\<close>), and so does
  the descent (\<open>descend_spec\<close>); the fuel is one more.
\<close>

record 'd RelayChain =
  mxStorage :: 'd
  mxPool :: Pool
  mxBlocks :: "(hash, RelayBlock) gomap"
  mxWeight :: "(hash, nat) gomap"
  mxPath :: "(hash, hash list) gomap"
  mxTop :: "(nat, hash) gomap"
  mxGs :: "(nat, RelayBlock) gomap"

definition relaySid :: "RelayBlock \<Rightarrow> nat" where
  "relaySid b = unat (rNonce (rH b))"

definition relayParent :: "RelayBlock \<Rightarrow> hash" where
  "relayParent b = rParentHash (rH b)"

definition relayGenesis :: "hash \<Rightarrow> nat \<Rightarrow> nat \<Rightarrow> RelayBlock" where
  \<comment> \<open>the base block of a shard, at an address\<close>
  "relayGenesis idTop sid a =
     \<lparr>rH = \<lparr>rNonce = of_nat sid, rParentHash = idTop, ConfirmedTxRoot = [], OutTxRoot = [], rTimestamp = 0\<rparr>,
      rB = \<lparr>Intra = [], Out = []\<rparr>, rAddr = a\<rparr>"

definition addGenesis :: "Lib \<Rightarrow> hash \<Rightarrow> nat \<Rightarrow> nat \<Rightarrow> 'd RelayChain \<Rightarrow> 'd RelayChain" where
  "addGenesis L idTop a sid c =
     (let b = relayGenesis idTop sid (a + sid); h = RelayBHash L b
      in c\<lparr>mxGs := mput sid b (mxGs c), mxBlocks := mput h b (mxBlocks c), mxTop := mput sid h (mxTop c)\<rparr>)"

definition NewRelayChain :: "Lib \<Rightarrow> Conf \<Rightarrow> hash \<Rightarrow> nat \<Rightarrow> nat \<Rightarrow> 'd \<Rightarrow> 'd RelayChain option" where
  \<comment> \<open>with the top hash of the identity chain, the shard of the node, the address of the first new object
     and the storage\<close>
  "NewRelayChain L conf idTop shard a db =
     do { pool \<leftarrow> NewTxPool conf shard;
          Some (fold (addGenesis L idTop a) [0..<monoShardAmount (monoConf conf)]
            \<lparr>mxStorage = db, mxPool = pool, mxBlocks = [], mxWeight = [], mxPath = [], mxTop = [], mxGs = []\<rparr>) }"

definition generateOne :: "Lib \<Rightarrow> Conf \<Rightarrow> mapOrder \<Rightarrow> int \<Rightarrow> nat \<Rightarrow> 'd RelayChain \<Rightarrow> nat \<Rightarrow> RelayBlock option" where
  "generateOne L conf ord now a c sid =
     do { intra \<leftarrow> PackageTxsFrom conf ord (mxPool c) sid;
          Some \<lparr>rH = \<lparr>rNonce = of_nat sid, rParentHash = hashAt (mxTop c) sid,
                     ConfirmedTxRoot = GenTxRoot (sha L) (txHash L) intra,
                     OutTxRoot = GenTxRoot (sha L) (txHash L) [], rTimestamp = now\<rparr>,
                rB = \<lparr>Intra = intra, Out = []\<rparr>, rAddr = a + sid\<rparr> }"

definition GenerateBlock :: "Lib \<Rightarrow> Conf \<Rightarrow> mapOrder \<Rightarrow> int \<Rightarrow> nat \<Rightarrow> 'd RelayChain \<Rightarrow> RelayBlock list option" where
  "GenerateBlock L conf ord now a c = mapM (generateOne L conf ord now a c) [0..<monoShardAmount (monoConf conf)]"

definition IsVaildTxSet :: "Transaction list \<Rightarrow> bool" where
  "IsVaildTxSet txs = True"

definition VerifyBlock :: "Lib \<Rightarrow> RelayBlock \<Rightarrow> bool" where
  "VerifyBlock L block =
     (if GenTxRoot (sha L) (txHash L) (Intra (rB block)) \<noteq> ConfirmedTxRoot (rH block) then False
      else if GenTxRoot (sha L) (txHash L) (Out (rB block)) \<noteq> OutTxRoot (rH block) then False
      else IsVaildTxSet (Intra (rB block) @ Out (rB block)))"

subsection \<open>The heaviest branch\<close>

fun pickChild :: "(hash, nat) gomap \<Rightarrow> hash list \<Rightarrow> hash list \<Rightarrow> nat \<Rightarrow> hash \<Rightarrow> hash" where
  \<comment> \<open>the loop over the children; on a tie a child on the current path is preferred\<close>
  "pickChild w cur [] maxW tar = tar"
| "pickChild w cur (h # hs) maxW tar =
     (if maxW < getOr w h 0 then pickChild w cur hs (getOr w h 0) h
      else if getOr w h 0 = maxW \<and> h \<in> set cur then pickChild w cur hs maxW h
      else pickChild w cur hs maxW tar)"

fun descend ::
  "nat \<Rightarrow> ('b \<Rightarrow> hash) \<Rightarrow> (hash, 'b) gomap \<Rightarrow> (hash, nat) gomap \<Rightarrow> (hash, hash list) gomap \<Rightarrow> hash list \<Rightarrow>
   'b \<Rightarrow> 'b option \<Rightarrow> ('b \<times> 'b option) option" where
  \<comment> \<open>the second loop of \<open>findTop\<close>: the top block and the block where it leaves the current path\<close>
  "descend 0 hsh blocks w pth cur t fork = None"
| "descend (Suc n) hsh blocks w pth cur t fork =
     (let kids = getOr pth (hsh t) []
      in if kids = [] then Some (t, fork)
         else let tar = pickChild w cur kids 0 (hsh t);
                  fork' = (if tar \<notin> set cur \<and> fork = None then Some t else fork)
              in do { t' \<leftarrow> mget blocks tar; descend n hsh blocks w pth cur t' fork' })"

definition findTop :: "Lib \<Rightarrow> nat \<Rightarrow> 'd RelayChain \<Rightarrow> (RelayBlock \<times> RelayBlock option) option" where
  "findTop L sid c =
     do { t \<leftarrow> mget (mxBlocks c) (hashAt (mxTop c) sid);
          bs \<leftarrow> branch (Suc (length (mxBlocks c))) relayParent (mxBlocks c) (mget (mxGs c) sid) t;
          g \<leftarrow> mget (mxGs c) sid;
          descend (Suc (length (mxBlocks c))) (RelayBHash L) (mxBlocks c) (mxWeight c) (mxPath c)
            (map (RelayBHash L) bs) g None }"

subsection \<open>Appending a block\<close>

definition upTo :: "'d RelayChain \<Rightarrow> RelayBlock \<Rightarrow> RelayBlock option \<Rightarrow> RelayBlock list option" where
  \<comment> \<open>the blocks the two roll loops visit, from a block up to the fork\<close>
  "upTo c fork b = (case b of None \<Rightarrow> None
     | Some b \<Rightarrow> branch (Suc (length (mxBlocks c))) relayParent (mxBlocks c) (Some fork) b)"

definition switchBranch :: "Lib \<Rightarrow> Conf \<Rightarrow> RelayBlock option \<Rightarrow> RelayBlock \<Rightarrow> RelayBlock \<Rightarrow> 'd RelayChain \<Rightarrow> Pool option" where
  \<comment> \<open>the transactions of the branch that is left go back to the pool, those of the new one leave it\<close>
  "switchBranch L conf old best fork c =
     do { back1 \<leftarrow> upTo c fork old;
          pool1 \<leftarrow> foldM (\<lambda>b pool. foldM (TxPool.Append conf (txHash L)) (Intra (rB b)) pool) back1 (mxPool c);
          new1 \<leftarrow> upTo c fork (Some best);
          foldM (\<lambda>b pool. RemoveTxs conf (txHash L) (Intra (rB b)) pool) new1 pool1 }"

definition storeRelay :: "Lib \<Rightarrow> 'd KV \<Rightarrow> RelayBlock \<Rightarrow> 'd RelayChain \<Rightarrow> 'd RelayChain option" where
  \<comment> \<open>the block is stored and linked to its parent, and the weights of its branch grow\<close>
  "storeRelay L kv block c =
     (let h = RelayBHash L block; p = relayParent block
      in do { enc \<leftarrow> RelayEncode L block;
              db \<leftarrow> AddBlock kv h (relayHash L (rH block)) enc (mxStorage c);
              let c1 = c\<lparr>mxStorage := db, mxBlocks := mput h block (mxBlocks c),
                        mxPath := mput p (getOr (mxPath c) p [] @ [h]) (mxPath c)\<rparr>
              in do { bs \<leftarrow> branch (Suc (length (mxBlocks c1))) relayParent (mxBlocks c1)
                            (mget (mxGs c1) (relaySid block)) block;
                      Some (c1\<lparr>mxWeight := addWeight (map (RelayBHash L) bs) (mxWeight c1)\<rparr>) } })"

definition Append :: "Lib \<Rightarrow> Conf \<Rightarrow> 'd KV \<Rightarrow> RelayBlock \<Rightarrow> 'd RelayChain \<Rightarrow> 'd RelayChain option" where
  "Append L conf kv block c =
     (if \<not> VerifyBlock L block then None
      else do { c2 \<leftarrow> storeRelay L kv block c;
                let sid = relaySid block; oldTop = mget (mxBlocks c2) (hashAt (mxTop c2) sid)
                in if relayParent block = hashAt (mxTop c2) sid
                   then do { p1 \<leftarrow> RemoveTxs conf (txHash L) (Intra (rB block)) (mxPool c2);
                             p2 \<leftarrow> AppendRelay conf (txHash L) (Intra (rB block)) p1;
                             Some (c2\<lparr>mxTop := mput sid (RelayBHash L block) (mxTop c2), mxPool := p2\<rparr>) }
                   else do { (best, fork) \<leftarrow> findTop L sid c2;
                             pool \<leftarrow> (case fork of
                                 Some f \<Rightarrow> switchBranch L conf oldTop best f c2
                               | None \<Rightarrow> if Some best \<noteq> oldTop then None
                                         else RemoveTxs conf (txHash L) (Intra (rB block)) (mxPool c2));
                             Some (c2\<lparr>mxTop := mput sid (RelayBHash L best) (mxTop c2), mxPool := pool\<rparr>) } })"

definition BlockExist :: "'d RelayChain \<Rightarrow> hash \<Rightarrow> bool" where
  "BlockExist c h = (mget (mxBlocks c) h \<noteq> None)"

subsection \<open>The descent\<close>

lemma pickChild_cases:
  "pickChild w cur hs maxW tar = tar \<and> (\<forall>k\<in>set hs. getOr w k 0 \<le> maxW) \<or>
   pickChild w cur hs maxW tar \<in> set hs \<and> maxW \<le> getOr w (pickChild w cur hs maxW tar) 0 \<and>
   (\<forall>k\<in>set hs. getOr w k 0 \<le> getOr w (pickChild w cur hs maxW tar) 0)"
proof (induction w cur hs maxW tar rule: pickChild.induct)
  case (2 w cur h hs maxW tar)
  consider "maxW < getOr w h 0" | "getOr w h 0 = maxW" "h \<in> set cur"
    | "\<not> maxW < getOr w h 0" "\<not> (getOr w h 0 = maxW \<and> h \<in> set cur)" by blast
  then show ?case
  proof cases
    case 1
    with "2.IH"(1) show ?thesis by auto
  next
    case 2
    with "2.IH"(2) show ?thesis by auto
  next
    case 3
    with "2.IH"(3) show ?thesis by auto
  qed
qed simp

lemma pickChild_best:
  assumes "hs \<noteq> []" "\<forall>k\<in>set hs. 0 < getOr w k 0"
  shows "pickChild w cur hs 0 tar \<in> set hs \<and> (\<forall>k\<in>set hs. getOr w k 0 \<le> getOr w (pickChild w cur hs 0 tar) 0)"
  using pickChild_cases[of w cur hs 0 tar] assms by (cases hs) auto

lemma pickChild_current:
  "k \<in> set hs \<Longrightarrow> k \<in> set cur \<Longrightarrow> getOr w (pickChild w cur hs maxW tar) 0 \<le> getOr w k 0 \<Longrightarrow>
   maxW \<le> getOr w k 0 \<Longrightarrow> pickChild w cur hs maxW tar \<in> set cur"
proof (induction w cur hs maxW tar rule: pickChild.induct)
  case (2 w cur h hs maxW tar)
  have tail: "pickChild w cur hs m t \<in> set cur" if "t \<in> set cur" "getOr w t 0 = m"
    "getOr w (pickChild w cur hs m t) 0 \<le> m" for m t
    using that
  proof (induction hs arbitrary: t)
    case (Cons a hs)
    then show ?case using pickChild_cases[of w cur hs "getOr w a 0" a] by (auto split: if_splits)
  qed simp
  show ?case
  proof (cases "k = h")
    case True
    then show ?thesis using "2.prems" tail[of h "getOr w h 0"] by (cases "maxW < getOr w h 0") auto
  next
    case False
    then have k: "k \<in> set hs" using "2.prems"(1) by simp
    consider "maxW < getOr w h 0" | "getOr w h 0 = maxW" "h \<in> set cur"
      | "\<not> maxW < getOr w h 0" "\<not> (getOr w h 0 = maxW \<and> h \<in> set cur)" by blast
    then show ?thesis
    proof cases
      case 1
      moreover have "getOr w h 0 \<le> getOr w k 0"
        using pickChild_cases[of w cur hs "getOr w h 0" h] "2.prems"(3) 1 by auto
      ultimately show ?thesis using "2.IH"(1)[OF 1 k "2.prems"(2)] "2.prems"(3) by simp
    next
      case 2
      then show ?thesis using "2.IH"(2)[OF _ _ k] "2.prems" by simp
    next
      case 3
      then have eq: "pickChild w cur (h # hs) maxW tar = pickChild w cur hs maxW tar" by auto
      show ?thesis
        using "2.IH"(3)[OF 3 k "2.prems"(2)] "2.prems"(3,4) unfolding eq by blast
    qed
  qed
qed simp

definition heaviest :: "('b \<Rightarrow> hash) \<Rightarrow> ('b \<Rightarrow> hash) \<Rightarrow> (hash, nat) gomap \<Rightarrow> (hash, hash list) gomap \<Rightarrow> 'b list \<Rightarrow> bool" where
  \<comment> \<open>every block of the branch is at least as heavy as each of its siblings\<close>
  "heaviest hsh par w pth bs \<longleftrightarrow> (\<forall>b\<in>set bs. \<forall>k\<in>set (getOr pth (par b) []). getOr w k 0 \<le> getOr w (hsh b) 0)"

lemma path_split:
  assumes "path par blocks g b (bs @ cs)" "path par blocks g c cs"
  shows "path par blocks c b bs"
proof (cases cs)
  case Nil
  then show ?thesis using assms by simp
next
  case (Cons d ds)
  then have "d = c" using assms(2) by (simp add: path_Cons)
  then show ?thesis using assms(1) path_append[of par blocks g b bs c ds] Cons by simp
qed

lemma kid_block:
  assumes lk: "linkedKids hsh par gen blocks pth" and t: "tree hsh par sid gen blocks"
    and wg: "weighed hsh par sid gen blocks w" and k: "k \<in> set (getOr pth h [])"
  shows "\<exists>b. mget blocks k = Some b \<and> hsh b = k \<and> par b = h \<and> (\<forall>i. gen i \<noteq> Some b) \<and> 0 < getOr w k 0"
proof -
  obtain b where b: "mget blocks k = Some b" "par b = h" "\<forall>i. gen i \<noteq> Some b"
    using lk k by (auto simp: linkedKids_def)
  obtain g bs where g: "gen (sid b) = Some g" "path par blocks g b bs" using treeD(2)[OF t b(1)] by blast
  have "b \<noteq> g" using g(1) b(3) by blast
  then have "b \<in> set bs" using g(2) by (cases bs) (auto simp: path_Cons)
  then have "k \<in> below hsh par sid gen blocks k"
    using b(1) g treeD(1)[OF t b(1)] by (auto simp: below_def)
  then have "0 < card (below hsh par sid gen blocks k)" using finite_below by (metis card_gt_0_iff empty_iff)
  then show ?thesis using b wg treeD(1)[OF t b(1)] by (auto simp: weighed_def)
qed

definition forkAt ::
  "('b \<Rightarrow> hash) \<Rightarrow> ('b \<Rightarrow> hash) \<Rightarrow> (hash, nat) gomap \<Rightarrow> (hash, hash list) gomap \<Rightarrow> (hash, 'b) gomap \<Rightarrow> 'b \<Rightarrow> hash list \<Rightarrow> 'b \<Rightarrow> 'b list \<Rightarrow> 'b option \<Rightarrow> bool" where
  \<comment> \<open>how the branch to \<open>t\<close>, beyond a block reached by \<open>bs\<close>, leaves the current path: at \<open>f\<close>, to a child
     that is heavier than the child on the current path\<close>
  "forkAt hsh par w pth blocks g cur t bs fork \<longleftrightarrow> (case fork of
      None \<Rightarrow> \<exists>cs. path par blocks g t (cs @ bs) \<and> hsh ` set cs \<subseteq> set cur
    | Some f \<Rightarrow> \<exists>as ds. as \<noteq> [] \<and> path par blocks g f (ds @ bs) \<and> path par blocks f t as \<and>
        path par blocks g t (as @ ds @ bs) \<and> hsh ` set ds \<subseteq> set cur \<and> hsh (last as) \<notin> set cur \<and>
        (\<forall>k\<in>set (getOr pth (hsh f) []). k \<in> set cur \<longrightarrow> getOr w k 0 < getOr w (hsh (last as)) 0))"

lemma descend_leaf:
  assumes "tree hsh par sid gen blocks" "weighed hsh par sid gen blocks w" "linkedKids hsh par gen blocks pth"
    and "gen i = Some g" "path par blocks g x bs" "mget blocks (hsh x) = Some x"
    and "heaviest hsh par w pth bs" "length blocks < n + length bs"
  shows "\<exists>best cs fork'. descend n hsh blocks w pth cur x fork = Some (best, fork') \<and>
     path par blocks g best (cs @ bs) \<and> mget blocks (hsh best) = Some best \<and> getOr pth (hsh best) [] = [] \<and>
     heaviest hsh par w pth (cs @ bs) \<and> (fork \<noteq> None \<longrightarrow> fork' = fork) \<and>
     (fork = None \<longrightarrow> forkAt hsh par w pth blocks g cur best bs fork')"
  using assms(5-)
proof (induction n arbitrary: x bs fork)
  case 0
  then show ?case using path_length[OF "0.prems"(1,2)] by simp
next
  case (Suc n)
  note t = assms(1) and wg = assms(2) and lk = assms(3)
  show ?case
  proof (cases "getOr pth (hsh x) [] = []")
    case True
    then have "descend (Suc n) hsh blocks w pth cur x fork = Some (x, fork)" by simp
    moreover have "fork = None \<longrightarrow> forkAt hsh par w pth blocks g cur x bs fork"
      using Suc.prems(1) by (auto simp: forkAt_def intro!: exI[of _ "[]"])
    ultimately show ?thesis using Suc.prems(1-3) True by (intro exI[of _ x] exI[of _ "[]"] exI[of _ fork]) simp
  next
    case False
    let ?kids = "getOr pth (hsh x) []"
    let ?r = "pickChild w cur ?kids 0 (hsh x)"
    let ?fork = "if ?r \<notin> set cur \<and> fork = None then Some x else fork"
    have pos: "\<forall>k\<in>set ?kids. 0 < getOr w k 0" using kid_block[OF lk t wg] by blast
    have r: "?r \<in> set ?kids" "\<forall>k\<in>set ?kids. getOr w k 0 \<le> getOr w ?r 0"
      using pickChild_best[OF False pos] by auto
    obtain y where y: "mget blocks ?r = Some y" "hsh y = ?r" "par y = hsh x" "\<forall>i. gen i \<noteq> Some y"
      using kid_block[OF lk t wg r(1)] by blast
    have p: "path par blocks g y (y # bs)"
      using Suc.prems(1,2) y assms(4) by (auto simp: path_Cons)
    have hv: "heaviest hsh par w pth (y # bs)" using Suc.prems(3) r(2) y(2,3) by (simp add: heaviest_def)
    have step: "descend (Suc n) hsh blocks w pth cur x fork = descend n hsh blocks w pth cur y ?fork"
      using False y(1) by (simp add: Let_def)
    obtain best cs fork' where ih: "descend n hsh blocks w pth cur y ?fork = Some (best, fork')"
      "path par blocks g best (cs @ y # bs)" "mget blocks (hsh best) = Some best" "getOr pth (hsh best) [] = []"
      "heaviest hsh par w pth (cs @ y # bs)" "?fork \<noteq> None \<longrightarrow> fork' = ?fork"
      "?fork = None \<longrightarrow> forkAt hsh par w pth blocks g cur best (y # bs) fork'"
      using Suc.IH[OF p _ hv, of ?fork] y(1,2) Suc.prems(4) by auto
    have "forkAt hsh par w pth blocks g cur best bs fork'" if none: "fork = None"
    proof (cases "?r \<in> set cur")
      case True
      then have "forkAt hsh par w pth blocks g cur best (y # bs) fork'" using ih(7) none by simp
      then show ?thesis
      proof (cases fork')
        case None
        with \<open>forkAt hsh par w pth blocks g cur best (y # bs) fork'\<close>
        obtain ds where "path par blocks g best (ds @ y # bs)" "hsh ` set ds \<subseteq> set cur"
          by (auto simp: forkAt_def)
        then have "path par blocks g best ((ds @ [y]) @ bs) \<and> hsh ` set (ds @ [y]) \<subseteq> set cur"
          using True y(2) by simp
        then show ?thesis unfolding forkAt_def None option.case by (rule exI)
      next
        case (Some f)
        with \<open>forkAt hsh par w pth blocks g cur best (y # bs) fork'\<close>
        obtain as es where ae: "as \<noteq> []" "path par blocks g f (es @ y # bs)" "path par blocks f best as"
          "path par blocks g best (as @ es @ y # bs)" "hsh ` set es \<subseteq> set cur" "hsh (last as) \<notin> set cur"
          "\<forall>k\<in>set (getOr pth (hsh f) []). k \<in> set cur \<longrightarrow> getOr w k 0 < getOr w (hsh (last as)) 0"
          by (auto simp: forkAt_def)
        then have "as \<noteq> [] \<and> path par blocks g f ((es @ [y]) @ bs) \<and> path par blocks f best as \<and>
          path par blocks g best (as @ (es @ [y]) @ bs) \<and> hsh ` set (es @ [y]) \<subseteq> set cur \<and> hsh (last as) \<notin> set cur \<and>
          (\<forall>k\<in>set (getOr pth (hsh f) []). k \<in> set cur \<longrightarrow> getOr w k 0 < getOr w (hsh (last as)) 0)"
          using True y(2) by simp
        then show ?thesis unfolding forkAt_def Some option.case by (intro exI)
      qed
    next
      case out: False
      then have f: "fork' = Some x" using ih(6) none by simp
      have heavier: "\<forall>k\<in>set ?kids. k \<in> set cur \<longrightarrow> getOr w k 0 < getOr w ?r 0"
        using pickChild_current[of _ ?kids cur w 0 "hsh x"] out by (meson le0 not_le)
      have "path par blocks x best (cs @ [y])" by (rule path_split[OF _ Suc.prems(1)]) (use ih(2) in simp)
      then have "cs @ [y] \<noteq> [] \<and> path par blocks g x ([] @ bs) \<and> path par blocks x best (cs @ [y]) \<and>
          path par blocks g best ((cs @ [y]) @ [] @ bs) \<and> hsh ` set [] \<subseteq> set cur \<and> hsh (last (cs @ [y])) \<notin> set cur \<and>
          (\<forall>k\<in>set ?kids. k \<in> set cur \<longrightarrow> getOr w k 0 < getOr w (hsh (last (cs @ [y]))) 0)"
        using heavier out ih(2) Suc.prems(1) y(2) by simp
      then show ?thesis unfolding forkAt_def f option.case by (intro exI)
    qed
    moreover have "fork \<noteq> None \<longrightarrow> fork' = fork" using ih(6) by auto
    ultimately show ?thesis using ih step by (intro exI[of _ best] exI[of _ "cs @ [y]"] exI[of _ fork']) simp
  qed
qed

subsection \<open>The invariant of the chain\<close>

definition mxTree :: "Lib \<Rightarrow> 'd RelayChain \<Rightarrow> bool" where
  "mxTree L c \<longleftrightarrow>
     tree (RelayBHash L) relayParent relaySid (mget (mxGs c)) (mxBlocks c) \<and>
     weighed (RelayBHash L) relayParent relaySid (mget (mxGs c)) (mxBlocks c) (mxWeight c) \<and>
     linkedKids (RelayBHash L) relayParent (mget (mxGs c)) (mxBlocks c) (mxPath c) \<and>
     (\<forall>i g. mget (mxGs c) i = Some g \<longrightarrow> relaySid g = i)"

definition onTop :: "Lib \<Rightarrow> 'd RelayChain \<Rightarrow> RelayBlock \<Rightarrow> RelayBlock \<Rightarrow> RelayBlock list \<Rightarrow> bool" where
  \<comment> \<open>\<open>t\<close> ends a heaviest branch over the genesis block \<open>g\<close>\<close>
  "onTop L c g t bs \<longleftrightarrow>
     mget (mxBlocks c) (RelayBHash L t) = Some t \<and> path relayParent (mxBlocks c) g t bs \<and>
     getOr (mxPath c) (RelayBHash L t) [] = [] \<and>
     heaviest (RelayBHash L) relayParent (mxWeight c) (mxPath c) bs"

definition mxInv :: "Lib \<Rightarrow> 'd RelayChain \<Rightarrow> bool" where
  \<comment> \<open>the top of every shard is the end of a heaviest branch\<close>
  "mxInv L c \<longleftrightarrow> mxTree L c \<and>
     (\<forall>i g. mget (mxGs c) i = Some g \<longrightarrow>
        (\<exists>t bs. hashAt (mxTop c) i = RelayBHash L t \<and> onTop L c g t bs))"

lemma mxTreeD:
  assumes "mxTree L c"
  shows "tree (RelayBHash L) relayParent relaySid (mget (mxGs c)) (mxBlocks c)"
    "weighed (RelayBHash L) relayParent relaySid (mget (mxGs c)) (mxBlocks c) (mxWeight c)"
    "linkedKids (RelayBHash L) relayParent (mget (mxGs c)) (mxBlocks c) (mxPath c)"
    "mget (mxGs c) i = Some g \<Longrightarrow> relaySid g = i"
  using assms unfolding mxTree_def by blast+

definition freshFor :: "Lib \<Rightarrow> RelayBlock \<Rightarrow> 'd RelayChain \<Rightarrow> bool" where
  \<comment> \<open>a block that is not stored yet, and whose hash is not the one all genesis blocks refer to\<close>
  "freshFor L block c \<longleftrightarrow> \<not> BlockExist c (RelayBHash L block) \<and>
     (\<forall>i g. mget (mxGs c) i = Some g \<longrightarrow> relayParent g \<noteq> RelayBHash L block)"

lemma storeRelay_effect:
  assumes "storeRelay L kv block c = Some c2"
  shows "mxBlocks c2 = mput (RelayBHash L block) block (mxBlocks c)"
    "mxPath c2 = mput (relayParent block) (getOr (mxPath c) (relayParent block) [] @ [RelayBHash L block]) (mxPath c)"
    "mxTop c2 = mxTop c" "mxPool c2 = mxPool c" "mxGs c2 = mxGs c"
    "\<exists>g bs. mget (mxGs c) (relaySid block) = Some g \<and> path relayParent (mxBlocks c2) g block bs \<and>
       mxWeight c2 = addWeight (map (RelayBHash L) bs) (mxWeight c)"
proof -
  define blocks where "blocks = mput (RelayBHash L block) block (mxBlocks c)"
  define n where "n = Suc (length blocks)"
  obtain db bs where bs: "branch n relayParent blocks (mget (mxGs c) (relaySid block)) block = Some bs"
    and c2: "c2 = c\<lparr>mxStorage := db, mxBlocks := blocks,
        mxPath := mput (relayParent block) (getOr (mxPath c) (relayParent block) [] @ [RelayBHash L block]) (mxPath c),
        mxWeight := addWeight (map (RelayBHash L) bs) (mxWeight c)\<rparr>"
  proof -
    obtain enc db where db: "AddBlock kv (RelayBHash L block) (relayHash L (rH block)) enc (mxStorage c) = Some db"
      "RelayEncode L block = Some enc"
      using assms unfolding storeRelay_def Let_def bind_eq_Some_conv by blast
    define c1 where "c1 = c\<lparr>mxStorage := db, mxBlocks := blocks,
        mxPath := mput (relayParent block) (getOr (mxPath c) (relayParent block) [] @ [RelayBHash L block]) (mxPath c)\<rparr>"
    have "branch n relayParent (mxBlocks c1) (mget (mxGs c1) (relaySid block)) block \<bind>
        (\<lambda>bs. Some (c1\<lparr>mxWeight := addWeight (map (RelayBHash L) bs) (mxWeight c1)\<rparr>)) = Some c2"
      using assms unfolding storeRelay_def Let_def db bind.bind_lunit c1_def n_def blocks_def by simp
    then obtain bs where "branch n relayParent (mxBlocks c1) (mget (mxGs c1) (relaySid block)) block = Some bs"
      "c2 = c1\<lparr>mxWeight := addWeight (map (RelayBHash L) bs) (mxWeight c1)\<rparr>"
      unfolding bind_eq_Some_conv by blast
    then show ?thesis by (intro that[of bs db]) (simp_all add: c1_def)
  qed
  have eqs: "mxBlocks c2 = mput (RelayBHash L block) block (mxBlocks c)"
    "mxPath c2 = mput (relayParent block) (getOr (mxPath c) (relayParent block) [] @ [RelayBHash L block]) (mxPath c)"
    "mxTop c2 = mxTop c" "mxPool c2 = mxPool c" "mxGs c2 = mxGs c"
    "mxWeight c2 = addWeight (map (RelayBHash L) bs) (mxWeight c)"
    by (simp_all add: c2 blocks_def)
  show "mxBlocks c2 = mput (RelayBHash L block) block (mxBlocks c)"
    "mxPath c2 = mput (relayParent block) (getOr (mxPath c) (relayParent block) [] @ [RelayBHash L block]) (mxPath c)"
    "mxTop c2 = mxTop c" "mxPool c2 = mxPool c" "mxGs c2 = mxGs c" by (fact eqs)+
  show "\<exists>g bs. mget (mxGs c) (relaySid block) = Some g \<and> path relayParent (mxBlocks c2) g block bs \<and>
       mxWeight c2 = addWeight (map (RelayBHash L) bs) (mxWeight c)"
  proof (cases "mget (mxGs c) (relaySid block)")
    case None
    have "branch n par blocks None b = None" for n par blocks and b :: RelayBlock
      by (induction n arbitrary: b) (auto simp: Option.bind_eq_None_conv)
    then show ?thesis using bs None by simp
  next
    case (Some g)
    then have "path relayParent blocks g block bs" using bs by (simp only: branch_iff)
    then show ?thesis using Some eqs(6) by (auto simp: c2)
  qed
qed

lemma storeRelay_tree:
  assumes t: "mxTree L c" and s: "storeRelay L kv block c = Some c2" and f: "freshFor L block c"
  shows "mxTree L c2"
proof -
  obtain g bs where g: "mget (mxGs c) (relaySid block) = Some g" "path relayParent (mxBlocks c2) g block bs"
    "mxWeight c2 = addWeight (map (RelayBHash L) bs) (mxWeight c)"
    using storeRelay_effect(6)[OF s] by blast
  have fresh: "mget (mxBlocks c) (RelayBHash L block) = None" and
    new: "\<And>i g. mget (mxGs c) i = Some g \<Longrightarrow> relayParent g \<noteq> RelayBHash L block"
    using f by (auto simp: freshFor_def BlockExist_def)
  note p = g(2)[unfolded storeRelay_effect(1)[OF s]]
  have ng: "\<And>i. mget (mxGs c) i \<noteq> Some block" using treeD(3)[OF mxTreeD(1)[OF t]] fresh by fastforce
  note tr = insert_tree[OF mxTreeD(1)[OF t] fresh g(1) new p]
  note we = insert_weighed[OF mxTreeD(1)[OF t] fresh g(1) new p mxTreeD(2)[OF t]]
  note li = insert_linkedKids[OF mxTreeD(3)[OF t] fresh ng]
  show ?thesis
    unfolding mxTree_def storeRelay_effect(1,2,5)[OF s] g(3)
    by (intro conjI allI impI tr we li mxTreeD(4)[OF t])
qed

lemma storeRelay_view:
  assumes t: "mxTree L c" and s: "storeRelay L kv block c = Some c2" and f: "freshFor L block c"
  obtains g p cs where "mget (mxGs c) (relaySid block) = Some g" "mget (mxBlocks c) (relayParent block) = Some p"
    "path relayParent (mxBlocks c) g p cs" "path relayParent (mxBlocks c2) g block (block # cs)"
    "\<forall>k. getOr (mxWeight c2) k 0 = getOr (mxWeight c) k 0 + (if k \<in> RelayBHash L ` set (block # cs) then 1 else 0)"
    "mget (mxBlocks c2) (RelayBHash L block) = Some block"
proof -
  obtain g bs where g: "mget (mxGs c) (relaySid block) = Some g" "path relayParent (mxBlocks c2) g block bs"
    "mxWeight c2 = addWeight (map (RelayBHash L) bs) (mxWeight c)"
    using storeRelay_effect(6)[OF s] by blast
  have fresh: "mget (mxBlocks c) (RelayBHash L block) = None" and
    new: "\<And>i g. mget (mxGs c) i = Some g \<Longrightarrow> relayParent g \<noteq> RelayBHash L block"
    using f by (auto simp: freshFor_def BlockExist_def)
  obtain p cs where p: "bs = block # cs" "mget (mxBlocks c) (relayParent block) = Some p" "path relayParent (mxBlocks c) g p cs"
  proof -
    have "\<exists>p cs. bs = block # cs \<and> block \<noteq> g \<and> mget (mxBlocks c) (relayParent block) = Some p \<and>
        path relayParent (mxBlocks c) g p cs"
      by (rule insert_path[OF mxTreeD(1)[OF t] fresh g(1) _ g(2)[unfolded storeRelay_effect(1)[OF s]]]) (rule new)
    then show ?thesis using that by blast
  qed
  have st: "mget (mxBlocks c2) (RelayBHash L block) = Some block" by (simp add: storeRelay_effect(1)[OF s])
  have "distinct (map (RelayBHash L) bs)"
    by (rule tree_path_inj[OF mxTreeD(1)[OF storeRelay_tree[OF t s f]] st g(2)])
  from addWeight_at[OF this] show ?thesis using that[of g p cs] g p st by simp
qed

lemma kids_of_stored:
  assumes t: "mxTree L c" and k: "k \<in> set (getOr (mxPath c) h [])"
  shows "\<exists>b p. mget (mxBlocks c) k = Some b \<and> RelayBHash L b = k \<and> relayParent b = h \<and> mget (mxBlocks c) h = Some p"
proof -
  obtain b where b: "mget (mxBlocks c) k = Some b" "RelayBHash L b = k" "relayParent b = h" "\<forall>i. mget (mxGs c) i \<noteq> Some b"
    using kid_block[OF mxTreeD(3)[OF t] mxTreeD(1)[OF t] mxTreeD(2)[OF t] k] by blast
  obtain g bs where g: "mget (mxGs c) (relaySid b) = Some g" "path relayParent (mxBlocks c) g b bs"
    using treeD(2)[OF mxTreeD(1)[OF t] b(1)] by blast
  have "b \<noteq> g" using g(1) b(4) by blast
  then show ?thesis using b g(2) by (cases bs) (auto simp: path_Cons)
qed

lemma path_kid:
  assumes t: "mxTree L c" and st: "mget (mxBlocks c) (RelayBHash L t) = Some t"
    and p: "path relayParent (mxBlocks c) g t bs" and g: "mget (mxGs c) i = Some g" and b: "b \<in> set bs"
  shows "RelayBHash L b \<in> set (getOr (mxPath c) (relayParent b) [])" "mget (mxBlocks c) (RelayBHash L b) = Some b"
    "\<exists>ds. path relayParent (mxBlocks c) g b (b # ds)"
proof -
  show s: "mget (mxBlocks c) (RelayBHash L b) = Some b"
  proof (cases "b = t")
    case False
    then obtain h where "mget (mxBlocks c) h = Some b" using path_members[OF p b] by blast
    moreover from this have "RelayBHash L b = h" by (rule treeD(1)[OF mxTreeD(1)[OF t]])
    ultimately show ?thesis by simp
  qed (use st in simp)
  obtain as ds where "bs = as @ b # ds" using b by (auto simp: in_set_conv_decomp)
  then have pb: "path relayParent (mxBlocks c) g b (b # ds)" using path_suffix p by metis
  then show "\<exists>ds. path relayParent (mxBlocks c) g b (b # ds)" ..
  have ng: "mget (mxGs c) j \<noteq> Some b" for j
  proof
    assume "mget (mxGs c) j = Some b"
    from tree_genesis_unique[OF mxTreeD(1)[OF t] this g path.here pb] have "b = g" .
    then show False using pb by (simp add: path_Cons)
  qed
  have "set (getOr (mxPath c) (relayParent b) []) =
      {k. \<exists>x. mget (mxBlocks c) k = Some x \<and> relayParent x = relayParent b \<and> (\<forall>i. mget (mxGs c) i \<noteq> Some x)}"
    using mxTreeD(3)[OF t] unfolding linkedKids_def by blast
  then show "RelayBHash L b \<in> set (getOr (mxPath c) (relayParent b) [])" using s ng by blast
qed

lemma onTop_other:
  assumes t: "mxTree L c" and s: "storeRelay L kv block c = Some c2" and f: "freshFor L block c"
    and top1: "onTop L c g t bs" and i: "mget (mxGs c) i = Some g" and ne: "relaySid block \<noteq> i"
  shows "onTop L c2 g t bs"
proof -
  obtain g' p cs where v: "mget (mxGs c) (relaySid block) = Some g'" "mget (mxBlocks c) (relayParent block) = Some p"
    "path relayParent (mxBlocks c) g' p cs" "path relayParent (mxBlocks c2) g' block (block # cs)"
    "\<forall>k. getOr (mxWeight c2) k 0 = getOr (mxWeight c) k 0 + (if k \<in> RelayBHash L ` set (block # cs) then 1 else 0)"
    "mget (mxBlocks c2) (RelayBHash L block) = Some block"
    using storeRelay_view[OF t s f] by blast
  have gne: "g \<noteq> g'" using mxTreeD(4)[OF t i] mxTreeD(4)[OF t v(1)] ne by auto
  have st: "mget (mxBlocks c) (RelayBHash L t) = Some t" and pt: "path relayParent (mxBlocks c) g t bs"
    and leaf: "getOr (mxPath c) (RelayBHash L t) [] = []" and hv: "heaviest (RelayBHash L) relayParent (mxWeight c) (mxPath c) bs"
    using top1 by (auto simp: onTop_def)
  have fresh: "mget (mxBlocks c) (RelayBHash L block) = None"
    using f by (simp add: freshFor_def BlockExist_def)
  \<comment> \<open>nothing that leads to \<open>g\<close> is the parent or on the branch of the new block\<close>
  have apart: False if ax: "mget (mxBlocks c) (RelayBHash L x) = Some x" "path relayParent (mxBlocks c) g x xs"
    "RelayBHash L x \<in> RelayBHash L ` set (p # cs)" for x xs
  proof -
    have stp: "mget (mxBlocks c) (RelayBHash L p) = Some p"
      using treeD(1)[OF mxTreeD(1)[OF t] v(2)] v(2) by simp
    have "x \<in> set (p # cs)"
    proof -
      obtain y where y: "y \<in> set (p # cs)" "RelayBHash L y = RelayBHash L x" using ax(3) by (metis imageE)
      then have "mget (mxBlocks c) (RelayBHash L y) = Some y"
        using stp path_kid(2)[OF t stp v(3) v(1), of y] by auto
      then show ?thesis using y ax(1) by simp
    qed
    then have "\<exists>ds. path relayParent (mxBlocks c) g' x ds"
      using v(3) path_kid(3)[OF t stp v(3) v(1), of x] by auto
    then show False using tree_genesis_unique[OF mxTreeD(1)[OF t] i v(1) ax(2)] gne by blast
  qed
  have par: "relayParent block = RelayBHash L p" using treeD(1)[OF mxTreeD(1)[OF t] v(2)] by simp
  have kids: "getOr (mxPath c2) (RelayBHash L x) [] = getOr (mxPath c) (RelayBHash L x) []"
    if "mget (mxBlocks c) (RelayBHash L x) = Some x" "path relayParent (mxBlocks c) g x xs" for x xs
    using apart[OF that] by (auto simp: storeRelay_effect(2)[OF s] getOr_mput par)
  have same: "getOr (mxWeight c2) (RelayBHash L x) 0 = getOr (mxWeight c) (RelayBHash L x) 0"
    if "mget (mxBlocks c) (RelayBHash L x) = Some x" "path relayParent (mxBlocks c) g x xs" for x xs
    using apart[OF that] that(1) fresh v(5) by auto
  show ?thesis
    unfolding onTop_def
  proof (intro conjI)
    show "mget (mxBlocks c2) (RelayBHash L t) = Some t" using st fresh by (auto simp: storeRelay_effect(1)[OF s])
    show "path relayParent (mxBlocks c2) g t bs"
      by (rule path_mono[OF pt]) (use fresh in \<open>auto simp: storeRelay_effect(1)[OF s]\<close>)
    show "getOr (mxPath c2) (RelayBHash L t) [] = []" using kids[OF st pt] leaf by simp
    show "heaviest (RelayBHash L) relayParent (mxWeight c2) (mxPath c2) bs"
      unfolding heaviest_def
    proof (intro ballI)
      fix b k assume b: "b \<in> set bs" and k: "k \<in> set (getOr (mxPath c2) (relayParent b) [])"
      obtain ds where pb: "path relayParent (mxBlocks c) g b (b # ds)" using path_kid(3)[OF t st pt i b] by blast
      then obtain q where q: "mget (mxBlocks c) (relayParent b) = Some q" "path relayParent (mxBlocks c) g q ds"
        by (auto simp: path_Cons)
      have hq: "relayParent b = RelayBHash L q" using treeD(1)[OF mxTreeD(1)[OF t] q(1)] by simp
      then have k0: "k \<in> set (getOr (mxPath c) (relayParent b) [])" using kids[of q ds] k q by simp
      obtain y where y: "mget (mxBlocks c) k = Some y" "RelayBHash L y = k" "relayParent y = relayParent b"
        using kids_of_stored[OF t k0] by blast
      have "y \<noteq> g" using treeD(4)[OF mxTreeD(1)[OF t] i] q(1) y(3) by auto
      then have py: "path relayParent (mxBlocks c) g y (y # ds)" using y q by (auto simp: path_Cons)
      have "getOr (mxWeight c) k 0 \<le> getOr (mxWeight c) (RelayBHash L b) 0" using hv b k0 by (auto simp: heaviest_def)
      then show "getOr (mxWeight c2) k 0 \<le> getOr (mxWeight c2) (RelayBHash L b) 0"
        using same[OF _ py] same[OF path_kid(2)[OF t st pt i b] pb] y by auto
    qed
  qed
qed

lemma onTop_extend:
  assumes t: "mxTree L c" and s: "storeRelay L kv block c = Some c2" and f: "freshFor L block c"
    and top1: "onTop L c g p cs" and par: "relayParent block = RelayBHash L p"
    and g: "mget (mxGs c) (relaySid block) = Some g"
  shows "onTop L c2 g block (block # cs)"
proof -
  obtain g' p' cs' where v: "mget (mxGs c) (relaySid block) = Some g'" "mget (mxBlocks c) (relayParent block) = Some p'"
    "path relayParent (mxBlocks c) g' p' cs'" "path relayParent (mxBlocks c2) g' block (block # cs')"
    "\<forall>k. getOr (mxWeight c2) k 0 = getOr (mxWeight c) k 0 + (if k \<in> RelayBHash L ` set (block # cs') then 1 else 0)"
    "mget (mxBlocks c2) (RelayBHash L block) = Some block"
    using storeRelay_view[OF t s f] by blast
  have st: "mget (mxBlocks c) (RelayBHash L p) = Some p" and pt: "path relayParent (mxBlocks c) g p cs"
    and leaf: "getOr (mxPath c) (RelayBHash L p) [] = []" and hv: "heaviest (RelayBHash L) relayParent (mxWeight c) (mxPath c) cs"
    using top1 by (auto simp: onTop_def)
  have eq: "g' = g" "p' = p" using v(1,2) g st par by simp_all
  then have cs: "cs' = cs" using path_unique[OF v(3)] pt by simp
  have fresh: "mget (mxBlocks c) (RelayBHash L block) = None"
    using f by (simp add: freshFor_def BlockExist_def)
  have pne: "relayParent block \<noteq> RelayBHash L block" using v(2) fresh by auto
  have "getOr (mxPath c) (RelayBHash L block) [] = []"
  proof (rule ccontr)
    assume "getOr (mxPath c) (RelayBHash L block) [] \<noteq> []"
    then obtain k where "k \<in> set (getOr (mxPath c) (RelayBHash L block) [])" by (meson hd_in_set)
    from kids_of_stored[OF t this] show False using fresh by auto
  qed
  then have noKids: "getOr (mxPath c2) (RelayBHash L block) [] = []"
    using pne by (simp add: storeRelay_effect(2)[OF s] getOr_mput)
  have "heaviest (RelayBHash L) relayParent (mxWeight c2) (mxPath c2) (block # cs)"
    unfolding heaviest_def
  proof (intro ballI)
    fix b k assume b: "b \<in> set (block # cs)" and k: "k \<in> set (getOr (mxPath c2) (relayParent b) [])"
    show "getOr (mxWeight c2) k 0 \<le> getOr (mxWeight c2) (RelayBHash L b) 0"
    proof (cases "b = block")
      case True
      then have "k = RelayBHash L block" using k leaf par by (simp add: storeRelay_effect(2)[OF s] getOr_mput)
      then show ?thesis using True by simp
    next
      case False
      then have b': "b \<in> set cs" using b by simp
      have "relayParent b \<noteq> relayParent block"
        using path_kid(1)[OF t st pt g b'] leaf par by auto
      then have "k \<in> set (getOr (mxPath c) (relayParent b) [])"
        using k by (simp add: storeRelay_effect(2)[OF s] getOr_mput)
      then have "getOr (mxWeight c) k 0 \<le> getOr (mxWeight c) (RelayBHash L b) 0" using hv b' by (auto simp: heaviest_def)
      moreover have "getOr (mxWeight c2) (RelayBHash L b) 0 = getOr (mxWeight c) (RelayBHash L b) 0 + 1"
        using v(5)[rule_format, of "RelayBHash L b"] b' by (simp add: cs)
      ultimately show ?thesis using v(5)[rule_format, of k] by (simp split: if_splits)
    qed
  qed
  then show ?thesis using v(4,6) noKids by (simp add: onTop_def eq cs)
qed

lemma findTop_correct:
  assumes t: "mxTree L c" and g: "mget (mxGs c) i = Some g" and h: "hashAt (mxTop c) i = RelayBHash L x"
    and st: "mget (mxBlocks c) (RelayBHash L x) = Some x" and p: "path relayParent (mxBlocks c) g x bs"
  shows "\<exists>best cs fork. findTop L i c = Some (best, fork) \<and> onTop L c g best cs \<and>
     forkAt (RelayBHash L) relayParent (mxWeight c) (mxPath c) (mxBlocks c) g (map (RelayBHash L) bs) best [] fork"
proof -
  let ?n = "Suc (length (mxBlocks c))"
  have "length bs < ?n" using path_length[OF p st] by simp
  then have br: "branch ?n relayParent (mxBlocks c) (Some g) x = Some bs" using p by (simp only: branch_iff)
  have sg: "mget (mxBlocks c) (RelayBHash L g) = Some g" by (rule treeD(3)[OF mxTreeD(1)[OF t] g])
  have pg: "path relayParent (mxBlocks c) g g []" by (rule path.here)
  have hv: "heaviest (RelayBHash L) relayParent (mxWeight c) (mxPath c) []" by (simp add: heaviest_def)
  obtain best cs fork where d: "descend ?n (RelayBHash L) (mxBlocks c) (mxWeight c) (mxPath c) (map (RelayBHash L) bs) g None = Some (best, fork)"
    "path relayParent (mxBlocks c) g best (cs @ [])" "mget (mxBlocks c) (RelayBHash L best) = Some best"
    "getOr (mxPath c) (RelayBHash L best) [] = []" "heaviest (RelayBHash L) relayParent (mxWeight c) (mxPath c) (cs @ [])"
    "forkAt (RelayBHash L) relayParent (mxWeight c) (mxPath c) (mxBlocks c) g (map (RelayBHash L) bs) best [] fork"
    using descend_leaf[OF mxTreeD(1)[OF t] mxTreeD(2)[OF t] mxTreeD(3)[OF t] g pg sg hv, of ?n "map (RelayBHash L) bs" None]
    by auto
  have "findTop L i c = Some (best, fork)"
    unfolding findTop_def h st bind.bind_lunit g br by (simp only: bind.bind_lunit d(1))
  moreover have "onTop L c g best cs" using d(2-5) by (simp add: onTop_def)
  ultimately show ?thesis using d(6) by blast
qed

lemma leaf_on_path:
  assumes t: "mxTree L c" and g: "mget (mxGs c) i = Some g"
    and st: "mget (mxBlocks c) (RelayBHash L x) = Some x" and p: "path relayParent (mxBlocks c) g x bs"
    and y: "y = g \<or> y \<in> set bs" and leaf: "getOr (mxPath c) (RelayBHash L y) [] = []"
  shows "y = x"
proof (rule ccontr)
  assume ne: "y \<noteq> x"
  have "\<exists>b\<in>set bs. relayParent b = RelayBHash L y"
    using p y ne
  proof (induction rule: path.induct)
    case (up b q bs)
    have q: "RelayBHash L q = relayParent b" using treeD(1)[OF mxTreeD(1)[OF t] up(2)] .
    show ?case
    proof (cases "y = q")
      case True
      then show ?thesis using q by simp
    next
      case False
      then show ?thesis using up(4,5,6) by auto
    qed
  qed simp
  then show False using path_kid(1)[OF t st p g] leaf by force
qed

lemma Append_store:
  assumes "Append L conf kv block c = Some c'"
  obtains c2 where "storeRelay L kv block c = Some c2" "VerifyBlock L block"
    "mxBlocks c' = mxBlocks c2" "mxWeight c' = mxWeight c2" "mxPath c' = mxPath c2" "mxGs c' = mxGs c2"
    "if relayParent block = hashAt (mxTop c) (relaySid block)
     then mxTop c' = mput (relaySid block) (RelayBHash L block) (mxTop c)
     else \<exists>best fork. findTop L (relaySid block) c2 = Some (best, fork) \<and>
            mxTop c' = mput (relaySid block) (RelayBHash L best) (mxTop c)"
proof -
  obtain c2 where c2: "storeRelay L kv block c = Some c2" "VerifyBlock L block"
    using assms by (auto simp: Append_def bind_eq_Some_conv split: if_splits)
  show ?thesis
    by (rule that[OF c2]; use assms c2 storeRelay_effect(3)[OF c2(1)] in
        \<open>auto simp: Append_def bind_eq_Some_conv Let_def split: if_splits prod.splits\<close>)
qed

lemma same_tree:
  assumes "mxBlocks c' = mxBlocks c" "mxWeight c' = mxWeight c" "mxPath c' = mxPath c" "mxGs c' = mxGs c"
  shows "mxTree L c' = mxTree L c" "onTop L c' g t bs = onTop L c g t bs"
  by (simp_all add: mxTree_def onTop_def assms)

lemma old_top_stored:
  assumes inv: "mxInv L c" and s: "storeRelay L kv block c = Some c2" and f: "freshFor L block c"
    and g: "mget (mxGs c) i = Some g"
  obtains t bs where "hashAt (mxTop c2) i = RelayBHash L t" "onTop L c g t bs"
    "mget (mxBlocks c2) (RelayBHash L t) = Some t" "path relayParent (mxBlocks c2) g t bs"
proof -
  obtain t bs where t: "hashAt (mxTop c) i = RelayBHash L t" "onTop L c g t bs"
    using inv g unfolding mxInv_def by blast
  have fresh: "mget (mxBlocks c) (RelayBHash L block) = None" using f by (simp add: freshFor_def BlockExist_def)
  have st: "mget (mxBlocks c) (RelayBHash L t) = Some t" and p: "path relayParent (mxBlocks c) g t bs"
    using t(2) by (simp_all add: onTop_def)
  have "mget (mxBlocks c2) (RelayBHash L t) = Some t" using st fresh by (auto simp: storeRelay_effect(1)[OF s])
  moreover have "path relayParent (mxBlocks c2) g t bs"
    by (rule path_mono[OF p]) (use fresh in \<open>auto simp: storeRelay_effect(1)[OF s]\<close>)
  ultimately show ?thesis using that[of t bs] t by (simp add: storeRelay_effect(3)[OF s])
qed

lemma Append_inv:
  assumes inv: "mxInv L c" and ap: "Append L conf kv block c = Some c'" and f: "freshFor L block c"
  shows "mxInv L c'"
proof -
  obtain c2 where s: "storeRelay L kv block c = Some c2" and
    eqs: "mxBlocks c' = mxBlocks c2" "mxWeight c' = mxWeight c2" "mxPath c' = mxPath c2" "mxGs c' = mxGs c2"
    and tops: "if relayParent block = hashAt (mxTop c) (relaySid block)
     then mxTop c' = mput (relaySid block) (RelayBHash L block) (mxTop c)
     else \<exists>best fork. findTop L (relaySid block) c2 = Some (best, fork) \<and>
            mxTop c' = mput (relaySid block) (RelayBHash L best) (mxTop c)"
    by (rule Append_store[OF ap])
  have t: "mxTree L c" using inv by (simp add: mxInv_def)
  have t2: "mxTree L c2" by (rule storeRelay_tree[OF t s f])
  note gs = storeRelay_effect(5)[OF s]
  show ?thesis
    unfolding mxInv_def
  proof (intro conjI allI impI)
    show "mxTree L c'" using t2 same_tree(1)[OF eqs] by simp
  next
    fix i g assume "mget (mxGs c') i = Some g"
    then have g: "mget (mxGs c) i = Some g" "mget (mxGs c2) i = Some g" using eqs(4) gs by simp_all
    obtain x bs where x: "hashAt (mxTop c2) i = RelayBHash L x" "onTop L c g x bs"
      "mget (mxBlocks c2) (RelayBHash L x) = Some x" "path relayParent (mxBlocks c2) g x bs"
      by (rule old_top_stored[OF inv s f g(1)])
    have x1: "hashAt (mxTop c) i = RelayBHash L x" using x(1) by (simp add: storeRelay_effect(3)[OF s])
    show "\<exists>t bs. hashAt (mxTop c') i = RelayBHash L t \<and> onTop L c' g t bs"
    proof (cases "relaySid block = i")
      case other: False
      then have "hashAt (mxTop c') i = RelayBHash L x"
        using tops x1 by (auto simp: hashAt_mput split: if_splits)
      moreover have "onTop L c2 g x bs" by (rule onTop_other[OF t s f x(2) g(1) other])
      ultimately show ?thesis using same_tree(2)[OF eqs] by blast
    next
      case same: True
      show ?thesis
      proof (cases "relayParent block = hashAt (mxTop c) i")
        case True
        then have par: "relayParent block = RelayBHash L x" using x1 by simp
        have "onTop L c2 g block (block # bs)"
          by (rule onTop_extend[OF t s f x(2) par]) (simp add: same g(1))
        moreover have "hashAt (mxTop c') i = RelayBHash L block"
          using tops True same by (simp add: hashAt_mput)
        ultimately show ?thesis using same_tree(2)[OF eqs] by blast
      next
        case False
        then obtain best fork where b: "findTop L i c2 = Some (best, fork)" "hashAt (mxTop c') i = RelayBHash L best"
          using tops same by (auto simp: hashAt_mput)
        obtain best' cs fork' where "findTop L i c2 = Some (best', fork')" "onTop L c2 g best' cs"
          using findTop_correct[OF t2 g(2) x(1,3,4)] by blast
        then have "onTop L c2 g best cs" using b(1) by simp
        then show ?thesis using same_tree(2)[OF eqs] b(2) by blast
      qed
    qed
  qed
qed

lemma path_last: "path par blocks g b bs \<Longrightarrow> bs \<noteq> [] \<Longrightarrow> mget blocks (par (last bs)) = Some g"
proof (induction rule: path.induct)
  case (up b p bs)
  then show ?case by (cases bs) (auto simp: path_Cons)
qed simp

lemma fork_on_current:
  assumes t: "mxTree L c" and g: "mget (mxGs c) i = Some g"
    and st: "mget (mxBlocks c) (RelayBHash L x) = Some x" and p: "path relayParent (mxBlocks c) g x bs"
    and f: "path relayParent (mxBlocks c) g f ds" "mget (mxBlocks c) (RelayBHash L f) = Some f"
    and cur: "RelayBHash L ` set ds \<subseteq> RelayBHash L ` set bs"
  obtains as where "path relayParent (mxBlocks c) f x as" "set as \<subseteq> set bs" "length as \<le> length bs"
proof (cases "f = g")
  case True
  then show ?thesis using that[of bs] p by simp
next
  case False
  then have "f \<in> set ds" using f(1) by (cases ds) (auto simp: path_Cons)
  then have "RelayBHash L f \<in> RelayBHash L ` set bs" using cur by blast
  then obtain y where y: "y \<in> set bs" "RelayBHash L f = RelayBHash L y" by (rule imageE)
  have "mget (mxBlocks c) (RelayBHash L y) = Some y" by (rule path_kid(2)[OF t st p g y(1)])
  then have "y = f" using f(2) unfolding y(2) by simp
  then have "f \<in> set bs" using y(1) by simp
  then obtain as es where bs: "bs = as @ f # es" using split_list by metis
  have "path relayParent (mxBlocks c) g x (as @ f # es)" using p unfolding bs .
  then have "path relayParent (mxBlocks c) f x as" unfolding path_append by (rule conjunct1)
  then show ?thesis by (rule that) (auto simp: bs)
qed

lemma relay_findTop:
  assumes inv: "mxInv L c" and s: "storeRelay L kv block c = Some c2" and fr: "freshFor L block c"
    and i: "i = relaySid block" and off: "relayParent block \<noteq> hashAt (mxTop c) i"
  shows "\<exists>best fork. findTop L i c2 = Some (best, fork) \<and>
     (case fork of
        None \<Rightarrow> Some best = mget (mxBlocks c2) (hashAt (mxTop c2) i)
      | Some f \<Rightarrow> \<exists>back1 new1. upTo c2 f (mget (mxBlocks c2) (hashAt (mxTop c2) i)) = Some back1 \<and>
          upTo c2 f (Some best) = Some new1 \<and> back1 \<noteq> [] \<and> new1 \<noteq> [] \<and>
          getOr (mxWeight c2) (RelayBHash L (last back1)) 0 < getOr (mxWeight c2) (RelayBHash L (last new1)) 0)"
proof -
  have t: "mxTree L c" using inv by (simp add: mxInv_def)
  have t2: "mxTree L c2" by (rule storeRelay_tree[OF t s fr])
  obtain g where g: "mget (mxGs c) i = Some g" using storeRelay_effect(6)[OF s] i by blast
  then have g2: "mget (mxGs c2) i = Some g" by (simp add: storeRelay_effect(5)[OF s])
  obtain x bs where x: "hashAt (mxTop c2) i = RelayBHash L x" "onTop L c g x bs"
    "mget (mxBlocks c2) (RelayBHash L x) = Some x" "path relayParent (mxBlocks c2) g x bs"
    by (rule old_top_stored[OF inv s fr g])
  have leaf: "getOr (mxPath c2) (RelayBHash L x) [] = []"
    using x(1,2) off by (simp add: storeRelay_effect(2,3)[OF s] getOr_mput onTop_def)
  obtain best cs fork where d: "findTop L i c2 = Some (best, fork)" "onTop L c2 g best cs"
    and fk: "forkAt (RelayBHash L) relayParent (mxWeight c2) (mxPath c2) (mxBlocks c2) g (map (RelayBHash L) bs) best [] fork"
    using findTop_correct[OF t2 g2 x(1,3,4)] by blast
  have bst: "mget (mxBlocks c2) (RelayBHash L best) = Some best" "path relayParent (mxBlocks c2) g best cs"
    "getOr (mxPath c2) (RelayBHash L best) [] = []" using d(2) by (simp_all add: onTop_def)
  show ?thesis
  proof (cases fork)
    case None
    then obtain ds where ds: "path relayParent (mxBlocks c2) g best ds" "RelayBHash L ` set ds \<subseteq> RelayBHash L ` set bs"
      using fk by (auto simp: forkAt_def)
    have "best = g \<or> best \<in> set bs"
    proof (rule disjCI)
      assume "best \<notin> set bs"
      obtain as where as: "path relayParent (mxBlocks c2) best x as" "set as \<subseteq> set bs" "length as \<le> length bs"
        by (rule fork_on_current[OF t2 g2 x(3,4) ds(1) bst(1) ds(2)])
      show "best = g"
      proof (rule ccontr)
        assume "best \<noteq> g"
        then have "best \<in> set ds" using ds(1) by (cases ds) (auto simp: path_Cons)
        then have "RelayBHash L best \<in> RelayBHash L ` set bs" using ds(2) by blast
        then obtain y where y: "y \<in> set bs" "RelayBHash L best = RelayBHash L y" by (rule imageE)
        have "best = y" using path_kid(2)[OF t2 x(3,4) g2 y(1)] bst(1) unfolding y(2) by simp
        then show False using y(1) \<open>best \<notin> set bs\<close> by simp
      qed
    qed
    then have "best = x" by (rule leaf_on_path[OF t2 g2 x(3,4) _ bst(3)])
    then show ?thesis using d(1) None x(1,3) by simp
  next
    case (Some f)
    then obtain as ds where fk': "as \<noteq> []" "path relayParent (mxBlocks c2) g f ds" "path relayParent (mxBlocks c2) f best as"
      "path relayParent (mxBlocks c2) g best (as @ ds)" "RelayBHash L ` set ds \<subseteq> RelayBHash L ` set bs"
      "\<forall>k\<in>set (getOr (mxPath c2) (RelayBHash L f) []). k \<in> RelayBHash L ` set bs \<longrightarrow>
          getOr (mxWeight c2) k 0 < getOr (mxWeight c2) (RelayBHash L (last as)) 0"
      using fk by (auto simp: forkAt_def)
    have parf: "mget (mxBlocks c2) (relayParent (last as)) = Some f" by (rule path_last[OF fk'(3,1)])
    then have hf: "relayParent (last as) = RelayBHash L f" using treeD(1)[OF mxTreeD(1)[OF t2]] by metis
    then have stf: "mget (mxBlocks c2) (RelayBHash L f) = Some f" using parf by simp
    obtain as' where as': "path relayParent (mxBlocks c2) f x as'" "set as' \<subseteq> set bs" "length as' \<le> length bs"
      by (rule fork_on_current[OF t2 g2 x(3,4) fk'(2) stf fk'(5)])
    have "last as \<in> set (as @ ds)" using fk'(1) by simp
    from path_kid(1)[OF t2 bst(1) fk'(4) g2 this] have "f \<noteq> x" using leaf hf by auto
    then have ne: "as' \<noteq> []" using as'(1) by auto
    have "mget (mxBlocks c2) (relayParent (last as')) = Some f" by (rule path_last[OF as'(1) ne])
    then have hf': "relayParent (last as') = RelayBHash L f" using treeD(1)[OF mxTreeD(1)[OF t2]] by metis
    have lb: "last as' \<in> set bs" using as'(2) ne by (meson last_in_set subsetD)
    from path_kid(1)[OF t2 x(3,4) g2 lb] fk'(6) lb hf'
    have lt: "getOr (mxWeight c2) (RelayBHash L (last as')) 0 < getOr (mxWeight c2) (RelayBHash L (last as)) 0" by auto
    have "length as' < Suc (length (mxBlocks c2))" using path_length[OF x(4,3)] as'(3) by simp
    then have "upTo c2 f (Some x) = Some as'" unfolding upTo_def option.case branch_iff using as'(1) by simp
    moreover have "length as < Suc (length (mxBlocks c2))" using path_length[OF fk'(4) bst(1)] by simp
    then have "upTo c2 f (Some best) = Some as" unfolding upTo_def option.case branch_iff using fk'(3) by simp
    ultimately show ?thesis using d(1) Some x(1,3) ne fk'(1) lt by auto
  qed
qed

subsection \<open>The first chain\<close>

definition genesisApart :: "Lib \<Rightarrow> Conf \<Rightarrow> hash \<Rightarrow> nat \<Rightarrow> bool" where
  \<comment> \<open>no collision among the hashes of the genesis blocks and the top hash of the identity chain\<close>
  "genesisApart L conf idTop a \<longleftrightarrow> monoShardAmount (monoConf conf) < 2 ^ 64 \<and>
     (let n = monoShardAmount (monoConf conf); h = (\<lambda>i. RelayBHash L (relayGenesis idTop i (a + i)))
      in distinct (map h [0..<n]) \<and> idTop \<notin> set (map h [0..<n]))"

lemma genesis_fold:
  assumes "k \<le> n" "distinct (map h [0..<n])" "h = (\<lambda>i. RelayBHash L (relayGenesis idTop i (a + i)))"
    and "mxBlocks c0 = []" "mxGs c0 = []" "mxWeight c0 = []" "mxPath c0 = []"
  defines "c \<equiv> fold (addGenesis L idTop a) [0..<k] c0"
  shows "(\<forall>i. mget (mxGs c) i = (if i < k then Some (relayGenesis idTop i (a + i)) else None)) \<and>
    (\<forall>x b. mget (mxBlocks c) x = Some b \<longleftrightarrow> (\<exists>i<k. x = h i \<and> b = relayGenesis idTop i (a + i))) \<and>
    (\<forall>i<k. hashAt (mxTop c) i = h i) \<and> mxWeight c = [] \<and> mxPath c = []"
  unfolding c_def
  using assms(1)
proof (induction k)
  case 0
  then show ?case using assms(4-7) by simp
next
  case (Suc k)
  let ?c = "fold (addGenesis L idTop a) [0..<k] c0"
  let ?b = "relayGenesis idTop k (a + k)"
  have step: "fold (addGenesis L idTop a) [0..<Suc k] c0 = addGenesis L idTop a k ?c" by simp
  have ih: "(\<forall>i. mget (mxGs ?c) i = (if i < k then Some (relayGenesis idTop i (a + i)) else None)) \<and>
    (\<forall>x b. mget (mxBlocks ?c) x = Some b \<longleftrightarrow> (\<exists>i<k. x = h i \<and> b = relayGenesis idTop i (a + i))) \<and>
    (\<forall>i<k. hashAt (mxTop ?c) i = h i) \<and> mxWeight ?c = [] \<and> mxPath ?c = []"
    using Suc by simp
  have hk: "h k = RelayBHash L ?b" by (simp add: assms(3))
  have apart: "h i \<noteq> h k" if "i < k" for i
    using assms(2) that Suc.prems by (auto simp: distinct_conv_nth dest: spec)
  show ?case
    unfolding step
  proof (intro conjI allI impI)
    fix i show "mget (mxGs (addGenesis L idTop a k ?c)) i = (if i < Suc k then Some (relayGenesis idTop i (a + i)) else None)"
      using ih by (auto simp: addGenesis_def Let_def less_Suc_eq)
  next
    fix x b
    show "mget (mxBlocks (addGenesis L idTop a k ?c)) x = Some b \<longleftrightarrow>
        (\<exists>i<Suc k. x = h i \<and> b = relayGenesis idTop i (a + i))"
    proof (cases "x = h k")
      case True
      have "\<not> (\<exists>i<k. x = h i \<and> b = relayGenesis idTop i (a + i))" using apart True by metis
      moreover have "mget (mxBlocks (addGenesis L idTop a k ?c)) x = Some ?b"
        by (simp add: addGenesis_def Let_def hk[symmetric] True)
      ultimately show ?thesis using True by (auto simp: less_Suc_eq)
    next
      case False
      then have "mget (mxBlocks (addGenesis L idTop a k ?c)) x = mget (mxBlocks ?c) x"
        by (simp add: addGenesis_def Let_def hk[symmetric])
      then show ?thesis using ih False by (auto simp: less_Suc_eq)
    qed
  next
    fix i assume "i < Suc k"
    then show "hashAt (mxTop (addGenesis L idTop a k ?c)) i = h i"
      using ih by (auto simp: addGenesis_def Let_def hashAt_mput hk less_Suc_eq)
  qed (use ih in \<open>simp_all add: addGenesis_def Let_def\<close>)
qed

lemma NewRelayChain_inv:
  assumes new: "NewRelayChain L conf idTop shard a db = Some c" and ap: "genesisApart L conf idTop a"
  shows "mxInv L c"
proof -
  define n where "n = monoShardAmount (monoConf conf)"
  define h where "h = (\<lambda>i. RelayBHash L (relayGenesis idTop i (a + i)))"
  obtain pool where c: "c = fold (addGenesis L idTop a) [0..<n]
      \<lparr>mxStorage = db, mxPool = pool, mxBlocks = [], mxWeight = [], mxPath = [], mxTop = [], mxGs = []\<rparr>"
    using new by (auto simp: NewRelayChain_def bind_eq_Some_conv n_def)
  have ap': "n < 2 ^ 64" "distinct (map h [0..<n])" "idTop \<notin> set (map h [0..<n])"
    using ap by (auto simp: genesisApart_def Let_def n_def h_def)
  have all: "(\<forall>i. mget (mxGs c) i = (if i < n then Some (relayGenesis idTop i (a + i)) else None)) \<and>
    (\<forall>x b. mget (mxBlocks c) x = Some b \<longleftrightarrow> (\<exists>i<n. x = h i \<and> b = relayGenesis idTop i (a + i))) \<and>
    (\<forall>i<n. hashAt (mxTop c) i = h i) \<and> mxWeight c = [] \<and> mxPath c = []"
    unfolding c by (rule genesis_fold[OF le_refl ap'(2) h_def]) simp_all
  have sid: "relaySid (relayGenesis idTop i (a + i)) = i" if "i < n" for i
    using that ap'(1) by (simp add: relaySid_def relayGenesis_def unat_of_nat take_bit_nat_eq_self)
  have par: "relayParent (relayGenesis idTop i x) = idTop" for i x by (simp add: relayParent_def relayGenesis_def)
  have "mget (mxBlocks c) idTop \<noteq> Some b" for b using all ap'(3) by auto
  then have noTop: "mget (mxBlocks c) idTop = None" by (cases "mget (mxBlocks c) idTop") auto
  have gs: "mget (mxGs c) i = Some g \<longleftrightarrow> i < n \<and> g = relayGenesis idTop i (a + i)" for i g using all by auto
  have tr: "tree (RelayBHash L) relayParent relaySid (mget (mxGs c)) (mxBlocks c)"
    unfolding tree_def
  proof (intro conjI allI impI)
    fix x b assume "mget (mxBlocks c) x = Some b"
    then obtain i where i: "i < n" "x = h i" "b = relayGenesis idTop i (a + i)" using all by blast
    then show "RelayBHash L b = x" by (simp add: h_def)
    show "\<exists>g bs. mget (mxGs c) (relaySid b) = Some g \<and> path relayParent (mxBlocks c) g b bs"
      using i gs[of i b] sid[OF i(1)] path.here by metis
  next
    fix i g assume "mget (mxGs c) i = Some g"
    then show "mget (mxBlocks c) (RelayBHash L g) = Some g" "mget (mxBlocks c) (relayParent g) = None"
      using gs all noTop par by (auto simp: h_def)
  qed
  have own: "\<exists>i. mget (mxGs c) i = Some b" if "mget (mxBlocks c) x = Some b" for x b
    using that all gs by blast
  have "below (RelayBHash L) relayParent relaySid (mget (mxGs c)) (mxBlocks c) x = {}" for x
  proof (rule ccontr)
    assume "below (RelayBHash L) relayParent relaySid (mget (mxGs c)) (mxBlocks c) x \<noteq> {}"
    then obtain k b g bs where b: "mget (mxBlocks c) k = Some b" "mget (mxGs c) (relaySid b) = Some g"
      "path relayParent (mxBlocks c) g b bs" "x \<in> RelayBHash L ` set bs" by (auto simp: below_def)
    obtain i where "mget (mxGs c) i = Some b" using own[OF b(1)] by blast
    from tree_genesis_unique[OF tr this b(2) path.here b(3)] have "bs = []" using b(3) by (simp add: path_g)
    then show False using b(4) by simp
  qed
  then have "weighed (RelayBHash L) relayParent relaySid (mget (mxGs c)) (mxBlocks c) (mxWeight c)"
    using all by (simp add: weighed_def getOr_def)
  moreover have "linkedKids (RelayBHash L) relayParent (mget (mxGs c)) (mxBlocks c) (mxPath c)"
    using all own by (auto simp: linkedKids_def getOr_def)
  moreover have "\<exists>t bs. hashAt (mxTop c) i = RelayBHash L t \<and> onTop L c g t bs" if g: "mget (mxGs c) i = Some g" for i g
    using g gs[of i g] all treeD(3)[OF tr g]
    by (intro exI[of _ g] exI[of _ "[]"]) (auto simp: onTop_def heaviest_def getOr_def h_def intro: path.here)
  ultimately show ?thesis using tr sid gs by (auto simp: mxInv_def mxTree_def)
qed

subsection \<open>What the chain guarantees\<close>

definition appendNew :: "Lib \<Rightarrow> Conf \<Rightarrow> 'd KV \<Rightarrow> RelayBlock \<Rightarrow> 'd RelayChain \<Rightarrow> 'd RelayChain option" where
  \<comment> \<open>appending a block that is not stored yet\<close>
  "appendNew L conf kv block c =
     (if BlockExist c (RelayBHash L block) \<or> RelayBHash L block \<in> relayParent ` snd ` set (mxGs c) then None
      else Append L conf kv block c)"

lemma appendNew_fresh: "appendNew L conf kv block c = Some c' \<Longrightarrow> freshFor L block c \<and> Append L conf kv block c = Some c'"
  by (force simp: appendNew_def freshFor_def split: if_splits dest: map_of_SomeD)

interpretation relay_machine: machine "appendNew L conf kv" "mxInv L" for L conf kv
  by unfold_locales (use appendNew_fresh Append_inv in blast)

text \<open>C10: Whatever new blocks a Monoxide chain appends after its start, the weight of a block is the number of blocks
  in its subtree, and the top of every shard ends a branch from the genesis block of the shard, has no child, and each
  block of the branch is at least as heavy as all its siblings.\<close>
theorem relay_heaviest:
  assumes "NewRelayChain L conf idTop shard a db = Some c0" "genesisApart L conf idTop a"
    and "foldM (appendNew L conf kv) blocks c0 = Some c" "mget (mxGs c) i = Some g"
  shows "\<exists>t bs. hashAt (mxTop c) i = RelayBHash L t \<and> path relayParent (mxBlocks c) g t bs \<and>
       getOr (mxPath c) (RelayBHash L t) [] = [] \<and>
       heaviest (RelayBHash L) relayParent (mxWeight c) (mxPath c) bs \<and>
       getOr (mxWeight c) h 0 = card (below (RelayBHash L) relayParent relaySid (mget (mxGs c)) (mxBlocks c) h)"
proof -
  have inv: "mxInv L c" by (rule relay_machine.run_inv[OF NewRelayChain_inv[OF assms(1,2)] assms(3)])
  then obtain t bs where "hashAt (mxTop c) i = RelayBHash L t" "onTop L c g t bs"
    using assms(4) unfolding mxInv_def by blast
  moreover have "weighed (RelayBHash L) relayParent relaySid (mget (mxGs c)) (mxBlocks c) (mxWeight c)"
    using inv mxTreeD(2)[of L c] by (simp add: mxInv_def)
  ultimately show ?thesis by (auto simp: onTop_def weighed_def)
qed

text \<open>A block stored beside the heaviest branch takes its transactions out of the pool although it is not on the
  branch the node follows: when the top of its shard stays, the pool loses exactly the transactions of the block.\<close>
theorem side_block_drops_txs:
  assumes inv: "mxInv L c" and fr: "freshFor L block c" and ap: "Append L conf kv block c = Some c'"
    and off: "relayParent block \<noteq> hashAt (mxTop c) (relaySid block)"
    and stays: "hashAt (mxTop c') (relaySid block) = hashAt (mxTop c) (relaySid block)"
  shows "RemoveTxs conf (txHash L) (Intra (rB block)) (mxPool c) = Some (mxPool c') \<and>
    (\<exists>g t bs. mget (mxGs c') (relaySid block) = Some g \<and> hashAt (mxTop c') (relaySid block) = RelayBHash L t \<and>
       path relayParent (mxBlocks c') g t bs \<and> block \<notin> set bs)"
proof -
  let ?i = "relaySid block"
  obtain c2 where s: "storeRelay L kv block c = Some c2" and
    eqs: "mxBlocks c' = mxBlocks c2" "mxWeight c' = mxWeight c2" "mxPath c' = mxPath c2" "mxGs c' = mxGs c2"
    by (rule Append_store[OF ap])
  have t: "mxTree L c" using inv by (simp add: mxInv_def)
  have t2: "mxTree L c2" by (rule storeRelay_tree[OF t s fr])
  obtain g where g: "mget (mxGs c) ?i = Some g" using storeRelay_effect(6)[OF s] by blast
  obtain x bs where x: "hashAt (mxTop c2) ?i = RelayBHash L x" "onTop L c g x bs"
    "mget (mxBlocks c2) (RelayBHash L x) = Some x" "path relayParent (mxBlocks c2) g x bs"
    by (rule old_top_stored[OF inv s fr g])
  obtain best fork where b: "findTop L ?i c2 = Some (best, fork)"
    "case fork of None \<Rightarrow> Some best = mget (mxBlocks c2) (hashAt (mxTop c2) ?i)
      | Some f \<Rightarrow> \<exists>back1 new1. upTo c2 f (mget (mxBlocks c2) (hashAt (mxTop c2) ?i)) = Some back1 \<and>
          upTo c2 f (Some best) = Some new1 \<and> back1 \<noteq> [] \<and> new1 \<noteq> [] \<and>
          getOr (mxWeight c2) (RelayBHash L (last back1)) 0 < getOr (mxWeight c2) (RelayBHash L (last new1)) 0"
    using relay_findTop[OF inv s fr refl off] by blast
  have off2: "relayParent block \<noteq> hashAt (mxTop c2) ?i" using off by (simp add: storeRelay_effect(3)[OF s])
  have c': "\<exists>pool. (case fork of Some f \<Rightarrow> switchBranch L conf (mget (mxBlocks c2) (hashAt (mxTop c2) ?i)) best f c2
      | None \<Rightarrow> if Some best \<noteq> mget (mxBlocks c2) (hashAt (mxTop c2) ?i) then None
                else RemoveTxs conf (txHash L) (Intra (rB block)) (mxPool c2)) = Some pool \<and>
      c' = c2\<lparr>mxTop := mput ?i (RelayBHash L best) (mxTop c2), mxPool := pool\<rparr>"
    using ap s b(1) off2 by (auto simp: Append_def Let_def bind_eq_Some_conv split: if_splits)
  then have hb: "RelayBHash L best = RelayBHash L x"
    using stays x(1) by (auto simp: hashAt_mput storeRelay_effect(3)[OF s])
  obtain best' cs fork' where "findTop L ?i c2 = Some (best', fork')" "onTop L c2 g best' cs"
    using findTop_correct[OF t2 _ x(1,3,4)] g storeRelay_effect(5)[OF s] by metis
  then have "mget (mxBlocks c2) (RelayBHash L best) = Some best" using b(1) by (simp add: onTop_def)
  then have bx: "best = x" using hb x(3) by simp
  have "fork = None"
  proof (rule ccontr)
    assume "fork \<noteq> None"
    then obtain f where "fork = Some f" by blast
    with b(2) x(1,3) bx show False by auto
  qed
  with c' have "RemoveTxs conf (txHash L) (Intra (rB block)) (mxPool c) = Some (mxPool c')"
    by (auto simp: storeRelay_effect(4)[OF s] split: if_splits)
  moreover have "mget (mxBlocks c) (RelayBHash L block) = None" using fr by (simp add: freshFor_def BlockExist_def)
  then have "block \<notin> set bs" using path_kid(2)[OF t _ _ g] x(2) by (fastforce simp: onTop_def)
  ultimately show ?thesis
    using x g stays eqs storeRelay_effect(3,5)[OF s] by auto
qed

text \<open>Every block a Monoxide node generates passes the check of the receivers, belongs to a shard of the
  configuration and extends the top block of that shard, and one block is generated for each shard.\<close>
theorem generated_relay_blocks:
  assumes "GenerateBlock L conf ord now a c = Some bs" "monoShardAmount (monoConf conf) < 2 ^ 64"
  shows "length bs = monoShardAmount (monoConf conf) \<and>
    (\<forall>b\<in>set bs. VerifyBlock L b \<and> relayParent b = hashAt (mxTop c) (relaySid b)) \<and>
    map relaySid bs = [0..<monoShardAmount (monoConf conf)]"
proof -
  let ?n = "monoShardAmount (monoConf conf)"
  have l: "list_all2 (\<lambda>i b. generateOne L conf ord now a c i = Some b) [0..<?n] bs"
    using assms(1) by (simp add: GenerateBlock_def mapM_eq_Some)
  have one: "VerifyBlock L b \<and> relaySid b = i \<and> relayParent b = hashAt (mxTop c) i"
    if "generateOne L conf ord now a c i = Some b" "i < ?n" for i b
    using that assms(2)
    by (auto simp: generateOne_def bind_eq_Some_conv VerifyBlock_def IsVaildTxSet_def relaySid_def relayParent_def
        unat_of_nat take_bit_nat_eq_self)
  have len: "length bs = ?n" using list_all2_lengthD[OF l] by simp
  have nth: "VerifyBlock L (bs ! i) \<and> relaySid (bs ! i) = i \<and> relayParent (bs ! i) = hashAt (mxTop c) i" if "i < ?n" for i
    using one[of i "bs ! i"] list_all2_nthD[OF l, of i] that by simp
  then have "map relaySid bs = [0..<?n]" using len by (intro nth_equalityI) auto
  moreover have "\<forall>b\<in>set bs. VerifyBlock L b \<and> relayParent b = hashAt (mxTop c) (relaySid b)"
    using nth len by (metis in_set_conv_nth)
  ultimately show ?thesis using len by simp
qed

lemma foldM_blocks: "foldM (\<lambda>b. foldM f (g b)) bs s = foldM f (concat (map g bs)) s"
  by (induction bs arbitrary: s) (simp_all add: foldM_append split: Option.bind_split)

text \<open>A switch of the branch: what is in the pool afterwards.\<close>
lemma switchBranch_pool:
  assumes "switchBranch L conf (Some x) best f c = Some pool" "\<not> pyrEnable (pyrConf conf)"
    and "SInShard conf u = Some s" "RInShard conf u = Some r"
  obtains back1 new1 where "upTo c f (Some x) = Some back1" "upTo c f (Some best) = Some new1"
    "TxExist conf (txHash L) u pool = map_option (\<lambda>e. (e \<or> (\<exists>b\<in>set back1. \<exists>t\<in>set (Intra (rB b)). hits conf (txHash L) t u)) \<and>
        \<not> (\<exists>b\<in>set new1. \<exists>t\<in>set (Intra (rB b)). hits conf (txHash L) t u)) (TxExist conf (txHash L) u (mxPool c))"
proof -
  obtain back1 pool1 new1 where h: "upTo c f (Some x) = Some back1" "upTo c f (Some best) = Some new1"
    "foldM (TxPool.Append conf (txHash L)) (concat (map (\<lambda>b. Intra (rB b)) back1)) (mxPool c) = Some pool1"
    "RemoveTxs conf (txHash L) (concat (map (\<lambda>b. Intra (rB b)) new1)) pool1 = Some pool"
    using assms(1) by (auto simp: switchBranch_def bind_eq_Some_conv foldM_blocks RemoveTxs_def)
  show ?thesis
  proof (rule that[OF h(1,2)])
    show "TxExist conf (txHash L) u pool = map_option (\<lambda>e. (e \<or> (\<exists>b\<in>set back1. \<exists>t\<in>set (Intra (rB b)). hits conf (txHash L) t u)) \<and>
        \<not> (\<exists>b\<in>set new1. \<exists>t\<in>set (Intra (rB b)). hits conf (txHash L) t u)) (TxExist conf (txHash L) u (mxPool c))"
      unfolding RemoveTxs_exact[OF h(4) assms(3,4)] Appends_TxExist[OF h(3) assms(2-4)]
      by (cases "TxExist conf (txHash L) u (mxPool c)") (simp_all add: hits_def)
  qed
qed

text \<open>C11: A reorganisation of a Monoxide chain.  When, in any state the chain can reach, a new block is appended off the top of its shard
  and the top changes, the old and the new top have branches over a block of the fork, neither of them empty, and at the fork the new one is
  strictly heavier.  Afterwards a transaction is in the pool exactly when it was there or is in a block of the branch that was left, and is in
  no block of the branch that was adopted.  (So the dump halves of the transactions of the adopted branch are not taken over.)\<close>
theorem relay_reorganisation:
  assumes "NewRelayChain L conf idTop shard a db = Some c0" "genesisApart L conf idTop a" "\<not> pyrEnable (pyrConf conf)"
    and "foldM (appendNew L conf kv) blocks c0 = Some c" "appendNew L conf kv block c = Some c'"
    and "i = relaySid block" "relayParent block \<noteq> hashAt (mxTop c) i" "hashAt (mxTop c') i \<noteq> hashAt (mxTop c) i"
  shows "\<exists>f x t back1 new1. hashAt (mxTop c) i = RelayBHash L x \<and> path relayParent (mxBlocks c') f x back1 \<and>
     hashAt (mxTop c') i = RelayBHash L t \<and> path relayParent (mxBlocks c') f t new1 \<and> back1 \<noteq> [] \<and> new1 \<noteq> [] \<and>
     getOr (mxWeight c') (RelayBHash L (last back1)) 0 < getOr (mxWeight c') (RelayBHash L (last new1)) 0 \<and>
     (\<forall>u s r. SInShard conf u = Some s \<longrightarrow> RInShard conf u = Some r \<longrightarrow>
        TxExist conf (txHash L) u (mxPool c') = map_option (\<lambda>e.
          (e \<or> (\<exists>b\<in>set back1. \<exists>y\<in>set (Intra (rB b)). hits conf (txHash L) y u)) \<and>
          \<not> (\<exists>b\<in>set new1. \<exists>y\<in>set (Intra (rB b)). hits conf (txHash L) y u)) (TxExist conf (txHash L) u (mxPool c)))"
proof -
  have inv: "mxInv L c" by (rule relay_machine.run_inv[OF NewRelayChain_inv[OF assms(1,2)] assms(4)])
  have fr: "freshFor L block c" and ap: "Append L conf kv block c = Some c'" using appendNew_fresh[OF assms(5)] by simp_all
  obtain c2 where s: "storeRelay L kv block c = Some c2" and
    eqs: "mxBlocks c' = mxBlocks c2" "mxWeight c' = mxWeight c2" "mxPath c' = mxPath c2" "mxGs c' = mxGs c2"
    by (rule Append_store[OF ap])
  obtain g where g: "mget (mxGs c) i = Some g" using storeRelay_effect(6)[OF s] assms(6) by blast
  obtain x bs where x: "hashAt (mxTop c2) i = RelayBHash L x" "mget (mxBlocks c2) (RelayBHash L x) = Some x"
    by (rule old_top_stored[OF inv s fr g])
  obtain best fork where b: "findTop L i c2 = Some (best, fork)"
    "case fork of None \<Rightarrow> Some best = mget (mxBlocks c2) (hashAt (mxTop c2) i)
      | Some f \<Rightarrow> \<exists>back1 new1. upTo c2 f (mget (mxBlocks c2) (hashAt (mxTop c2) i)) = Some back1 \<and>
          upTo c2 f (Some best) = Some new1 \<and> back1 \<noteq> [] \<and> new1 \<noteq> [] \<and>
          getOr (mxWeight c2) (RelayBHash L (last back1)) 0 < getOr (mxWeight c2) (RelayBHash L (last new1)) 0"
    using relay_findTop[OF inv s fr assms(6,7)] by blast
  have off2: "relayParent block \<noteq> hashAt (mxTop c2) i" using assms(7) by (simp add: storeRelay_effect(3)[OF s])
  obtain pool where pool: "(case fork of Some f \<Rightarrow> switchBranch L conf (mget (mxBlocks c2) (hashAt (mxTop c2) i)) best f c2
      | None \<Rightarrow> if Some best \<noteq> mget (mxBlocks c2) (hashAt (mxTop c2) i) then None
                else RemoveTxs conf (txHash L) (Intra (rB block)) (mxPool c2)) = Some pool"
      "c' = c2\<lparr>mxTop := mput i (RelayBHash L best) (mxTop c2), mxPool := pool\<rparr>"
    using ap s b(1) off2 assms(6) by (auto simp: Append_def Let_def bind_eq_Some_conv split: if_splits)
  have top: "hashAt (mxTop c') i = RelayBHash L best" by (simp add: pool(2) hashAt_mput)
  have "fork \<noteq> None"
  proof
    assume "fork = None"
    then have "best = x" using b(2) x by simp
    then show False using assms(8) top x(1) by (simp add: storeRelay_effect(3)[OF s])
  qed
  then obtain f where f: "fork = Some f" by blast
  obtain back1 new1 where u: "upTo c2 f (Some x) = Some back1" "upTo c2 f (Some best) = Some new1" "back1 \<noteq> []" "new1 \<noteq> []"
    "getOr (mxWeight c2) (RelayBHash L (last back1)) 0 < getOr (mxWeight c2) (RelayBHash L (last new1)) 0"
    using b(2) unfolding f x option.case by blast
  have sw: "switchBranch L conf (Some x) best f c2 = Some (mxPool c')" using pool by (simp add: f x)
  have p: "path relayParent (mxBlocks c') f x back1" "path relayParent (mxBlocks c') f best new1"
    using u(1,2) unfolding upTo_def option.case branch_iff eqs by blast+
  have "TxExist conf (txHash L) v (mxPool c') = map_option (\<lambda>e.
          (e \<or> (\<exists>b\<in>set back1. \<exists>y\<in>set (Intra (rB b)). hits conf (txHash L) y v)) \<and>
          \<not> (\<exists>b\<in>set new1. \<exists>y\<in>set (Intra (rB b)). hits conf (txHash L) y v)) (TxExist conf (txHash L) v (mxPool c))"
    if "SInShard conf v = Some s'" "RInShard conf v = Some r'" for v s' r'
    by (rule switchBranch_pool[OF sw assms(3) that]) (use u(1,2) in \<open>simp add: storeRelay_effect(4)[OF s]\<close>)
  then show ?thesis
    using p u(3-5) top x(1) by (intro exI[of _ f] exI[of _ x] exI[of _ best] exI[of _ back1] exI[of _ new1])
      (simp add: storeRelay_effect(3)[OF s] eqs)
qed

subsection \<open>A run\<close>

definition relayLib :: Lib where
  \<comment> \<open>heads are told apart by their shard and their time\<close>
  "relayLib = demoLib\<lparr>relayHash := \<lambda>h. replicate (unat (rNonce h)) CHR ''s'' @ CHR ''-'' # replicate (nat (rTimestamp h)) CHR ''t''\<rparr>"

definition demoRelay :: "nat \<Rightarrow> hash \<Rightarrow> RelayBlock" where
  \<comment> \<open>a block of shard 0 without transactions\<close>
  "demoRelay t p =
     \<lparr>rH = \<lparr>rNonce = 0, rParentHash = p, ConfirmedTxRoot = GenTxRoot (\<lambda>x. x) Sender [],
            OutTxRoot = GenTxRoot (\<lambda>x. x) Sender [], rTimestamp = int t\<rparr>,
      rB = \<lparr>Intra = [], Out = []\<rparr>, rAddr = 10 + t\<rparr>"

definition demoRelay0 :: "((bytes \<times> bytes) \<times> bytes) list RelayChain" where
  "demoRelay0 = fold (addGenesis relayLib ''z'' 0) [0..<6]
     \<lparr>mxStorage = [], mxPool = demoPool0, mxBlocks = [], mxWeight = [], mxPath = [], mxTop = [], mxGs = []\<rparr>"

lemma demoRelay0: "NewRelayChain relayLib (demoConf UniRelay) ''z'' 1 0 [] = Some demoRelay0"
proof -
  have "monoShardAmount (monoConf (demoConf UniRelay)) = 6"
    by (simp add: demoConf_simps InitMonoxideConfig_def)
  then show ?thesis by (simp only: NewRelayChain_def demoRelay0_def demoPool0 bind.bind_lunit)
qed

lemma replicate_small: "replicate 2 x = [x, x]" "replicate 3 x = [x, x, x]" "replicate 4 x = [x, x, x, x]"
  "replicate 5 x = [x, x, x, x, x]"
  by (simp_all add: eval_nat_numeral)

lemma upt_6: "[0..<6] = [0, 1, 2, 3, 4, 5 :: nat]"
  by (simp add: upt_rec)

lemma relay_genesis_eq:
  "relayHash relayLib (rH (demoRelay t p)) = CHR ''-'' # replicate t CHR ''t''"
  "RelayBHash relayLib (relayGenesis p i a) = replicate (unat (of_nat i :: 64 word)) CHR ''s'' @ ''-''"
  by (simp_all add: relayLib_def demoRelay_def RelayBHash_def relayGenesis_def)

lemma demoRelay0_eq:
  "demoRelay0 = \<lparr>mxStorage = [], mxPool = demoPool0,
     mxBlocks = [(''-'', relayGenesis ''z'' 0 0), (''s-'', relayGenesis ''z'' 1 1), (''ss-'', relayGenesis ''z'' 2 2),
       (''sss-'', relayGenesis ''z'' 3 3), (''ssss-'', relayGenesis ''z'' 4 4), (''sssss-'', relayGenesis ''z'' 5 5)],
     mxWeight = [], mxPath = [], mxTop = [(0, ''-''), (1, ''s-''), (2, ''ss-''), (3, ''sss-''), (4, ''ssss-''), (5, ''sssss-'')],
     mxGs = [(0, relayGenesis ''z'' 0 0), (1, relayGenesis ''z'' 1 1), (2, relayGenesis ''z'' 2 2), (3, relayGenesis ''z'' 3 3),
       (4, relayGenesis ''z'' 4 4), (5, relayGenesis ''z'' 5 5)]\<rparr>"
  by (simp add: demoRelay0_def upt_6 addGenesis_def Let_def relay_genesis_eq replicate_small, simp add: numeral_2_eq_2)

lemmas relay_run_simps =
  appendNew_def BlockExist_def Append_def VerifyBlock_def IsVaildTxSet_def storeRelay_def RelayEncode_def
  AddBlock_def AddHeader_def UpdateNewestBlock_def demoKV_def Let_def hashAt_def getOr_def addWeight_def
  findTop_def switchBranch_def upTo_def RemoveTxs_def AppendRelay_def

lemma demoRelay_fields:
  "relayParent (demoRelay t p) = p" "relaySid (demoRelay t p) = 0" "rB (demoRelay t p) = \<lparr>Intra = [], Out = []\<rparr>"
  "ConfirmedTxRoot (rH (demoRelay t p)) = GenTxRoot (sha relayLib) (txHash relayLib) []"
  "OutTxRoot (rH (demoRelay t p)) = GenTxRoot (sha relayLib) (txHash relayLib) []"
  "RelayBHash relayLib (demoRelay t p) = ''-'' @ replicate t CHR ''t''"
  "relayParent (relayGenesis p i a) = p" "a < 10 \<Longrightarrow> relayGenesis q i a \<noteq> demoRelay t p" "a < 10 \<Longrightarrow> demoRelay t p \<noteq> relayGenesis q i a"
  "encRelay relayLib b = OutTxRoot (rH b)" "decRelay relayLib x a = Some (emptyRelayBlock 0 a)"
  "demoRelay t p = demoRelay t' p' \<longleftrightarrow> t = t' \<and> p = p'"
  by (auto simp: demoRelay_def relayParent_def relaySid_def relayLib_def demoLib_def RelayBHash_def relayGenesis_def)

lemma demo_relay_run:
  "\<exists>c. foldM (appendNew relayLib conf demoKV) [demoRelay 1 ''-'', demoRelay 2 ''-'', demoRelay 3 ''-tt''] demoRelay0 = Some c \<and>
     hashAt (mxTop c) 0 = ''-ttt'' \<and> getOr (mxWeight c) ''-tt'' 0 = 2 \<and> mget (mxGs c) 0 = Some (relayGenesis ''z'' 0 0)"
  by (simp add: demoRelay0_eq demoRelay_fields relay_run_simps relay_genesis_eq replicate_small)

lemma demo_amount: "monoShardAmount (monoConf (demoConf UniRelay)) = 6"
  by (simp add: demoConf_simps InitMonoxideConfig_def)

lemma demo_apart: "genesisApart relayLib (demoConf UniRelay) ''z'' 0"
proof -
  have "''z'' \<notin> set (map (\<lambda>i. RelayBHash relayLib (relayGenesis ''z'' i (0 + i))) [0..<6])"
    by (simp only: upt_6) (simp add: relay_genesis_eq replicate_small)
  then show ?thesis
    by (simp add: genesisApart_def demo_amount Let_def upt_6 relay_genesis_eq replicate_small del: set_upt)
qed

lemma demo_relay_run1:
  "\<exists>c c'. foldM (appendNew relayLib conf demoKV) [demoRelay 1 ''-''] demoRelay0 = Some c \<and>
     Append relayLib conf demoKV (demoRelay 2 ''-'') c = Some c' \<and> freshFor relayLib (demoRelay 2 ''-'') c \<and>
     hashAt (mxTop c) 0 = ''-t'' \<and> hashAt (mxTop c') 0 = ''-t'' \<and> mget (mxGs c') 0 = Some (relayGenesis ''z'' 0 0)"
  by (simp add: demoRelay0_eq demoRelay_fields relay_run_simps relay_genesis_eq replicate_small freshFor_def)

theorem relay_heaviest_witness:
  "\<exists>c t bs. foldM (appendNew relayLib (demoConf UniRelay) demoKV)
       [demoRelay 1 ''-'', demoRelay 2 ''-'', demoRelay 3 ''-tt''] demoRelay0 = Some c \<and>
     RelayBHash relayLib t = ''-ttt'' \<and> path relayParent (mxBlocks c) (relayGenesis ''z'' 0 0) t bs"
proof -
  obtain c where c: "foldM (appendNew relayLib (demoConf UniRelay) demoKV)
       [demoRelay 1 ''-'', demoRelay 2 ''-'', demoRelay 3 ''-tt''] demoRelay0 = Some c"
    "hashAt (mxTop c) 0 = ''-ttt''" "mget (mxGs c) 0 = Some (relayGenesis ''z'' 0 0)"
    using demo_relay_run[of "demoConf UniRelay"] by blast
  from relay_heaviest[OF demoRelay0 demo_apart c(1,3)] c(1,2) show ?thesis by metis
qed

definition relayConf :: Conf where
  "relayConf = \<lparr>ShardAmount = 2, MaxBlockSize = 4, txTest = True, pyrConf = shipped\<lparr>pyrEnable := False\<rparr>,
     fideConf = InitFideConfig ClassicRelay 2, monoConf = \<lparr>monoShardAmount = 2, monoEnable = True\<rparr>\<rparr>"

definition txBlock :: "nat \<Rightarrow> hash \<Rightarrow> Transaction list \<Rightarrow> RelayBlock" where
  \<comment> \<open>a block of shard 0 with transactions\<close>
  "txBlock t p txs = (demoRelay t p)\<lparr>rH := (rH (demoRelay t p))\<lparr>ConfirmedTxRoot := GenTxRoot (sha relayLib) (txHash relayLib) txs\<rparr>,
     rB := \<lparr>Intra = txs, Out = []\<rparr>\<rparr>"

definition forkedTxs :: "RelayBlock list" where
  \<comment> \<open>a block with a transaction, a sibling with another one, and a child of the sibling\<close>
  "forkedTxs = [txBlock 1 ''-'' [demoTx ''00000000'' ''00000002''], txBlock 2 ''-'' [demoTx ''00000004'' ''00000001''],
     txBlock 3 ''-tt'' []]"

definition relayStart :: "((bytes \<times> bytes) \<times> bytes) list RelayChain" where
  "relayStart = (case NewRelayChain relayLib relayConf ''z'' 0 0 [] of Some c \<Rightarrow> c | None \<Rightarrow> undefined)"

lemma relayStart: "NewRelayChain relayLib relayConf ''z'' 0 0 [] = Some relayStart"
proof -
  have "NewRelayChain relayLib relayConf ''z'' 0 0 ([] :: ((bytes \<times> bytes) \<times> bytes) list) \<noteq> None" by code_simp
  then show ?thesis by (auto simp: relayStart_def)
qed

definition poolHas :: "hash \<Rightarrow> bool \<Rightarrow> 'd RelayChain \<Rightarrow> bool" where
  \<comment> \<open>the top of shard 0, and whether the first transaction is in the pool\<close>
  "poolHas t e c \<longleftrightarrow> hashAt (mxTop c) 0 = t \<and>
     TxExist relayConf (txHash relayLib) (demoTx ''00000000'' ''00000002'') (mxPool c) = Some e"

lemma forkedTxs_run:
  "map_option (poolHas ''-t'' False) (foldM (appendNew relayLib relayConf demoKV) (take 2 forkedTxs) relayStart) = Some True"
  "map_option (poolHas ''-ttt'' True) (foldM (appendNew relayLib relayConf demoKV) forkedTxs relayStart) = Some True"
  by code_simp+

lemma forkedTxs_split: "forkedTxs = take 2 forkedTxs @ [forkedTxs ! 2]"
  by (simp add: forkedTxs_def)

theorem relay_reorganisation_witness:
  "\<exists>c c' f x t back1 new1. foldM (appendNew relayLib relayConf demoKV) (take 2 forkedTxs) relayStart = Some c \<and>
     appendNew relayLib relayConf demoKV (forkedTxs ! 2) c = Some c' \<and> RelayBHash relayLib x = ''-t'' \<and> RelayBHash relayLib t = ''-ttt'' \<and>
     path relayParent (mxBlocks c') f x back1 \<and> path relayParent (mxBlocks c') f t new1 \<and>
     (\<exists>b\<in>set back1. \<exists>y\<in>set (Intra (rB b)). hits relayConf (txHash relayLib) y (demoTx ''00000000'' ''00000002''))"
proof -
  obtain c where c0: "foldM (appendNew relayLib relayConf demoKV) (take 2 forkedTxs) relayStart = Some c" "poolHas ''-t'' False c"
    using forkedTxs_run(1) by auto
  obtain c' where c1: "foldM (appendNew relayLib relayConf demoKV) forkedTxs relayStart = Some c'" "poolHas ''-ttt'' True c'"
    using forkedTxs_run(2) by auto
  have "foldM (appendNew relayLib relayConf demoKV) (take 2 forkedTxs @ [forkedTxs ! 2]) relayStart = Some c'"
    using c1(1) unfolding forkedTxs_split[symmetric] .
  then have "appendNew relayLib relayConf demoKV (forkedTxs ! 2) c = Some c'" by (simp add: foldM_append c0(1) split: Option.bind_splits)
  then have c: "foldM (appendNew relayLib relayConf demoKV) (take 2 forkedTxs) relayStart = Some c"
    "hashAt (mxTop c) 0 = ''-t''" "TxExist relayConf (txHash relayLib) (demoTx ''00000000'' ''00000002'') (mxPool c) = Some False"
    "appendNew relayLib relayConf demoKV (forkedTxs ! 2) c = Some c'" "hashAt (mxTop c') 0 = ''-ttt''"
    "TxExist relayConf (txHash relayLib) (demoTx ''00000000'' ''00000002'') (mxPool c') = Some True"
    using c0 c1(2) by (simp_all add: poolHas_def)
  have two: "monoShardAmount (monoConf relayConf) = 2" "(2 :: nat) < 2 ^ 64" by (simp_all add: relayConf_def)
  have "distinct (map (\<lambda>i. RelayBHash relayLib (relayGenesis ''z'' i (0 + i))) [0..<2])"
    "''z'' \<notin> set (map (\<lambda>i. RelayBHash relayLib (relayGenesis ''z'' i (0 + i))) [0..<2])" by code_simp+
  then have ap: "genesisApart relayLib relayConf ''z'' 0" unfolding genesisApart_def two(1) Let_def using two(2) by blast
  have np: "\<not> pyrEnable (pyrConf relayConf)" by code_simp
  have sid: "0 = relaySid (forkedTxs ! 2)" "relayParent (forkedTxs ! 2) = ''-tt''" by code_simp+
  have sh: "SInShard relayConf (demoTx ''00000000'' ''00000002'') = Some 0" "RInShard relayConf (demoTx ''00000000'' ''00000002'') = Some 0"
    by code_simp+
  have ne: "relayParent (forkedTxs ! 2) \<noteq> hashAt (mxTop c) 0" "hashAt (mxTop c') 0 \<noteq> hashAt (mxTop c) 0"
    by (simp_all add: sid(2) c(2,5))
  from relay_reorganisation[OF relayStart ap np c(1,4) sid(1) ne] obtain f x t back1 new1 where
    h: "hashAt (mxTop c) 0 = RelayBHash relayLib x" "path relayParent (mxBlocks c') f x back1" "hashAt (mxTop c') 0 = RelayBHash relayLib t"
    "path relayParent (mxBlocks c') f t new1"
    "\<forall>u s r. SInShard relayConf u = Some s \<longrightarrow> RInShard relayConf u = Some r \<longrightarrow>
        TxExist relayConf (txHash relayLib) u (mxPool c') = map_option (\<lambda>e.
          (e \<or> (\<exists>b\<in>set back1. \<exists>y\<in>set (Intra (rB b)). hits relayConf (txHash relayLib) y u)) \<and>
          \<not> (\<exists>b\<in>set new1. \<exists>y\<in>set (Intra (rB b)). hits relayConf (txHash relayLib) y u)) (TxExist relayConf (txHash relayLib) u (mxPool c))"
    by blast
  have "\<exists>b\<in>set back1. \<exists>y\<in>set (Intra (rB b)). hits relayConf (txHash relayLib) y (demoTx ''00000000'' ''00000002'')"
    using h(5)[rule_format, OF sh] by (simp add: c(3,6))
  moreover have "RelayBHash relayLib x = ''-t''" "RelayBHash relayLib t = ''-ttt''" using h(1,3) c(2,5) by simp_all
  ultimately show ?thesis using c(1,4) h(2,4) by blast
qed

theorem side_block_drops_txs_witness:
  "\<exists>c c' t bs. Append relayLib (demoConf UniRelay) demoKV (demoRelay 2 ''-'') c = Some c' \<and>
     RemoveTxs (demoConf UniRelay) (txHash relayLib) [] (mxPool c) = Some (mxPool c') \<and>
     RelayBHash relayLib t = ''-t'' \<and> path relayParent (mxBlocks c') (relayGenesis ''z'' 0 0) t bs \<and> demoRelay 2 ''-'' \<notin> set bs"
proof -
  obtain c c' where c: "foldM (appendNew relayLib (demoConf UniRelay) demoKV) [demoRelay 1 ''-''] demoRelay0 = Some c"
    "Append relayLib (demoConf UniRelay) demoKV (demoRelay 2 ''-'') c = Some c'" "freshFor relayLib (demoRelay 2 ''-'') c"
    "hashAt (mxTop c) 0 = ''-t''" "hashAt (mxTop c') 0 = ''-t''" "mget (mxGs c') 0 = Some (relayGenesis ''z'' 0 0)"
    using demo_relay_run1[of "demoConf UniRelay"] by blast
  have inv: "mxInv relayLib c" by (rule relay_machine.run_inv[OF NewRelayChain_inv[OF demoRelay0 demo_apart] c(1)])
  have sid: "relaySid (demoRelay 2 ''-'') = 0" by (rule demoRelay_fields)
  have "relayParent (demoRelay 2 ''-'') \<noteq> hashAt (mxTop c) (relaySid (demoRelay 2 ''-''))"
    "hashAt (mxTop c') (relaySid (demoRelay 2 ''-'')) = hashAt (mxTop c) (relaySid (demoRelay 2 ''-''))"
    by (simp_all add: demoRelay_fields c(4,5))
  from side_block_drops_txs[OF inv c(3,2) this] c(2,5,6) show ?thesis
    by (simp add: demoRelay_fields) metis
qed

theorem generated_relay_blocks_witness:
  "\<exists>bs. GenerateBlock relayLib (demoConf UniRelay) id 5 20 demoRelay0 = Some bs \<and> length bs = 6 \<and>
     (case bs of [] \<Rightarrow> False | b # _ \<Rightarrow> VerifyBlock relayLib b \<and> relayParent b = ''-'')"
proof -
  obtain bs where bs: "GenerateBlock relayLib (demoConf UniRelay) id 5 20 demoRelay0 = Some bs"
    by (simp add: GenerateBlock_def demo_amount upt_6 generateOne_def demoRelay0_eq PackageTxsFrom_def demoPool0_def)
  have "monoShardAmount (monoConf (demoConf UniRelay)) < 2 ^ 64" by (simp add: demo_amount)
  from generated_relay_blocks[OF bs this] show ?thesis
    using bs by (cases bs) (auto simp: demo_amount upt_6 demoRelay0_eq hashAt_def)
qed

end
