(* ===== verification/Monosulfide.thy ===== *)
theory Monosulfide
  imports BlockTree
begin

text \<open>
  \<^verbatim>\<open>src/Monosulfide/MonosulfideChain.go\<close>: every node keeps the blocks of all shards.  A block has a
  parent and one reference to each shard; the parents make a tree under one genesis block that all
  shards share, the references a directed acyclic graph.  A node follows one top block per shard, its
  view.  \<open>Append\<close> extends the view when the new block sits on it, and otherwise computes it anew from the
  whole graph (\<open>FindBestBranches\<close>).

  A pointer to a block is the block with its address \<open>addr\<close>.  The iteration over a map takes the order of
  the argument \<open>schedule\<close>: for a loop (0 to 3) and a round it lists the keys that are visited; the loop that
  adds entries to the map it iterates over may visit them or not, so the list may hold further keys.
  \<open>clock\<close> gives the readings of \<open>time.Now\<close>, in nanoseconds after the zero time.  The fuel of the search is
  two rounds for each block, which \<open>search_terminates\<close> shows to be enough.  The measurements (\<open>Save\<close>,
  \<open>Record\<close>) and the fields \<open>Accept\<close> and \<open>_tempAnc\<close>, which nothing reads, are left out.
\<close>

record 'd FideChain =
  fcStorage :: 'd
  fcPool :: Pool
  fcBlocks :: "(hash, FideBlock) gomap"
  fcTop :: "(nat, hash) gomap"
  blockBuffer :: "(nat, (hash, FideBlock) gomap) gomap"
  fcNonce :: "64 word"
  fcGs :: "FideBlock option list"
  fcWeight :: "(hash, nat) gomap"
  fcPath :: "(hash, hash list) gomap"
  fcRefs :: "(hash, hash list) gomap"
  updataT :: "(hash, int) gomap"

type_synonym schedule = "nat \<Rightarrow> nat \<Rightarrow> hash list \<Rightarrow> hash list"

type_synonym clock = "nat \<Rightarrow> int"

definition fideParent :: "FideBlock \<Rightarrow> hash" where
  "fideParent b = fParentHash (fH b)"

definition fideSid :: "FideBlock \<Rightarrow> nat" where
  "fideSid b = ShardIdx (fH b)"

abbreviation shards :: "Conf \<Rightarrow> nat" where
  "shards conf \<equiv> fideShardAmount (fideConf conf)"

definition genesisOf :: "'d FideChain \<Rightarrow> nat \<Rightarrow> FideBlock option" where
  \<comment> \<open>\<open>ch.BlockGs[sid]\<close>\<close>
  "genesisOf c sid = do { g \<leftarrow> slot (fcGs c) sid; g }"

definition fideGenesis :: "Conf \<Rightarrow> hash \<Rightarrow> nat \<Rightarrow> FideBlock" where
  "fideGenesis conf idTop a =
     \<lparr>fH = \<lparr>fNonce = 0, ShardIdx = 0, fParentHash = idTop, IntraTxRoot = [], SubBlockRoot = [], fStateRoot = [],
            fTimestamp = 0\<rparr>,
      SubBlocks = replicate (shards conf) (Some EmptySubBlock), addr = a\<rparr>"

definition NewFideChain :: "Lib \<Rightarrow> Conf \<Rightarrow> hash \<Rightarrow> nat \<Rightarrow> nat \<Rightarrow> 'd \<Rightarrow> 'd FideChain option" where
  \<comment> \<open>with the top hash of the identity chain, the shard of the node, the address of the new block and
     the storage; \<open>BlockGs\<close> has \<open>config.ShardAmount\<close> entries\<close>
  "NewFideChain L conf idTop shard a db =
     (let g = fideGenesis conf idTop a; h = FideBHash L g; ids = [0..<shards conf]
      in do { gs \<leftarrow> foldM (\<lambda>i gs. setSlot gs i (Some g)) ids (replicate (ShardAmount conf) None);
              pool \<leftarrow> NewTxPool conf shard;
              Some \<lparr>fcStorage = db, fcPool = pool, fcBlocks = fold (\<lambda>i. mput h g) ids [],
                    fcTop = fold (\<lambda>i. mput i h) ids [], blockBuffer = fold (\<lambda>i. mput i [(h, g)]) ids [],
                    fcNonce = 0, fcGs = gs, fcWeight = [], fcPath = [], fcRefs = [], updataT = []\<rparr> })"

subsection \<open>Generation\<close>

definition newSub :: "Lib \<Rightarrow> 'd FideChain \<Rightarrow> nat \<times> Transaction list \<Rightarrow> SubBlock" where
  "newSub L c = (\<lambda>(i, txs).
     \<lparr>CHead = Some \<lparr>RemoteBlockHash = hashAt (fcTop c) i, TxToot = GenTxRoot (sha L) (txHash L) txs\<rparr>,
      CBody = Some txs\<rparr>)"

definition GenerateBlock ::
  "Lib \<Rightarrow> Conf \<Rightarrow> mapOrder \<Rightarrow> bool \<Rightarrow> int \<Rightarrow> nat \<Rightarrow> 'd FideChain \<Rightarrow> FideBlock option option" where
  \<comment> \<open>with \<open>config.ManagerFinished\<close>, the time and the address of the new block; \<open>Some None\<close> is \<open>nil\<close>\<close>
  "GenerateBlock L conf ord finished now a c =
     do { (txsArray, blockIdx) \<leftarrow> PackageRelayTxs conf ord (fcPool c);
          if Amount (fcPool c) = 0 then Some None
          else if length txsArray < shards conf then None
          else let subs = map (newSub L c) (zip [0..<shards conf] txsArray);
                   root = GenMPTRoot (sha L) (map (SubHash L) subs);
                   txs = concat (take (shards conf) txsArray)
               in Some (Some
                 \<lparr>fH = \<lparr>fNonce = fcNonce c + 1, ShardIdx = nat blockIdx,
                        fParentHash = hashAt (fcTop c) (nat blockIdx),
                        IntraTxRoot = GenTxRoot (sha L) (txHash L) txs, SubBlockRoot = root,
                        fStateRoot = (if txs = [] \<and> finished then ''FINISH'' else root), fTimestamp = now\<rparr>,
                  SubBlocks = map Some subs, addr = a\<rparr>) }"

subsection \<open>Verification\<close>

definition Anc :: "Lib \<Rightarrow> 'd FideChain \<Rightarrow> hash \<Rightarrow> (hash, FideBlock) gomap option" where
  "Anc L c h =
     do { t \<leftarrow> mget (fcBlocks c) h;
          g \<leftarrow> genesisOf c (fideSid t);
          bs \<leftarrow> branch (Suc (length (fcBlocks c))) fideParent (fcBlocks c) (Some g) t;
          Some (mput (FideBHash L g) g (fold (\<lambda>b. mput (FideBHash L b) b) bs [])) }"

definition refValid :: "Lib \<Rightarrow> Conf \<Rightarrow> FideBlock \<Rightarrow> 'd FideChain \<Rightarrow> (hash, FideBlock) gomap list \<Rightarrow> nat \<Rightarrow> bool option" where
  \<comment> \<open>the second loop of \<open>Valid\<close> for the shard \<open>i\<close>\<close>
  "refValid L conf block c ancs i =
     do { r \<leftarrow> Ref block i;
          refI \<leftarrow> mget (fcBlocks c) r;
          g \<leftarrow> slot (fcGs c) i;
          if g = Some refI then Some True
          else allM (\<lambda>j. do { anc \<leftarrow> slot ancs j; h \<leftarrow> Ref refI j; Some (mget anc h \<noteq> None) }) [0..<shards conf] }"

definition Valid :: "Lib \<Rightarrow> Conf \<Rightarrow> FideBlock \<Rightarrow> 'd FideChain \<Rightarrow> bool option" where
  "Valid L conf block c =
     do { ancs \<leftarrow> mapM (\<lambda>i. do { r \<leftarrow> Ref block i; Anc L c r }) [0..<shards conf];
          allM (refValid L conf block c ancs) [0..<shards conf] }"

definition verifyRemoteBlock :: "Lib \<Rightarrow> Conf \<Rightarrow> FideBlock \<Rightarrow> bool option" where
  "verifyRemoteBlock L conf block =
     (if length (SubBlocks block) > shards conf then None
      else do { hashes \<leftarrow> mapM (\<lambda>sb. do { b \<leftarrow> sb; Some (SubHash L b) }) (SubBlocks block);
                Some (SubBlockRoot (fH block) =
                  GenMPTRoot (sha L) (hashes @ replicate (shards conf - length hashes) [])) })"

definition VerifyBlock :: "Lib \<Rightarrow> Conf \<Rightarrow> FideBlock \<Rightarrow> 'd FideChain \<Rightarrow> bool option" where
  "VerifyBlock L conf block c =
     do { isLegal \<leftarrow> verifyRemoteBlock L conf block;
          valid \<leftarrow> Valid L conf block c;
          Some (if \<not> valid then False else isLegal) }"

subsection \<open>The best branches\<close>

record Search =
  Bs :: "(hash, FideBlock) gomap"
  refCnt :: "(hash, int) gomap"
  tops :: "hash list"
  accepted :: "hash list"   \<comment> \<open>\<open>seq\<close>\<close>
  LockMap :: "(hash, bool) gomap"
  Removeable :: "(hash, FideBlock option) gomap"

definition countRef :: "hash \<Rightarrow> Search \<Rightarrow> Search" where
  "countRef h st =
     (let n = getOr (refCnt st) h 0 - 1; st' = st\<lparr>refCnt := mput h n (refCnt st)\<rparr>
      in if n = 0 then st'\<lparr>Removeable := mput h (mget (Bs st) h) (Removeable st)\<rparr> else st')"

definition acceptBlock :: "Lib \<Rightarrow> 'd FideChain \<Rightarrow> FideBlock \<Rightarrow> Search \<Rightarrow> Search option" where
  \<comment> \<open>the body of the first loop for a block that is not locked\<close>
  "acceptBlock L c b st =
     (let h = FideBHash L b; decs = getOr (fcPath c) h [];
          st1 = st\<lparr>Bs := mdel h (Bs st),
                   LockMap := (if length decs > 1 then fold (\<lambda>d. mput d True) decs (LockMap st) else LockMap st)\<rparr>;
          st2 = fold countRef (getOr (fcRefs c) h []) st1
      in do { ts \<leftarrow> setSlot (tops st2) (fideSid b) h;
              Some (st2\<lparr>tops := ts, accepted := accepted st2 @ [h], Removeable := mdel h (Removeable st2)\<rparr>) })"

definition visit :: "Lib \<Rightarrow> 'd FideChain \<Rightarrow> hash \<Rightarrow> Search \<times> bool \<Rightarrow> (Search \<times> bool) option" where
  "visit L c k = (\<lambda>(st, removed). case mget (Removeable st) k of
       None \<Rightarrow> Some (st, removed)
     | Some None \<Rightarrow> None
     | Some (Some b) \<Rightarrow>
         if getOr (LockMap st) (FideBHash L b) False then Some (st, removed)
         else do { st' \<leftarrow> acceptBlock L c b st; Some (st', True) })"

definition heavier :: "Lib \<Rightarrow> 'd FideChain \<Rightarrow> Search \<Rightarrow> hash \<Rightarrow> hash \<times> nat \<times> int \<Rightarrow> (hash \<times> nat \<times> int) option" where
  \<comment> \<open>the body of the second loop; the state holds \<open>best\<close>, \<open>maxW\<close> and \<open>lastT\<close>\<close>
  "heavier L c st k = (\<lambda>(best, maxW, lastT). case mget (Removeable st) k of
       None \<Rightarrow> Some (best, maxW, lastT)
     | Some None \<Rightarrow> None
     | Some (Some b) \<Rightarrow>
         let h = FideBHash L b; w = getOr (fcWeight c) h 0; t = getOr (updataT c) h 0
         in Some (if w > maxW then (h, w, t)
                  else if w = maxW \<and> t < lastT then (h, maxW, t)
                  else (best, maxW, lastT)))"

definition dropSibling :: "Lib \<Rightarrow> hash \<Rightarrow> nat \<Rightarrow> hash \<Rightarrow> Search \<Rightarrow> Search option" where
  \<comment> \<open>the body of the third loop\<close>
  "dropSibling L best sid k st = (case mget (Removeable st) k of
       None \<Rightarrow> Some st
     | Some None \<Rightarrow> None
     | Some (Some b) \<Rightarrow>
         if fideSid b = sid \<and> FideBHash L b \<noteq> best
         then Some (st\<lparr>Removeable := mdel (FideBHash L b) (Removeable st),
                       LockMap := mdel (FideBHash L b) (LockMap st)\<rparr>)
         else Some st)"

definition chooseFork :: "Lib \<Rightarrow> schedule \<Rightarrow> int \<Rightarrow> nat \<Rightarrow> 'd FideChain \<Rightarrow> Search \<Rightarrow> Search option" where
  \<comment> \<open>what happens in a round that has removed nothing\<close>
  "chooseFork L sched now r c st =
     do { (best, _, _) \<leftarrow> foldM (heavier L c st) (sched 1 r (mkeys (Removeable st))) (EmptyHash, 0, now);
          b \<leftarrow> mget (fcBlocks c) best;
          st' \<leftarrow> foldM (dropSibling L best (fideSid b)) (sched 2 r (mkeys (Removeable st))) st;
          Some (st'\<lparr>LockMap := mdel best (LockMap st')\<rparr>) }"

fun searchLoop :: "nat \<Rightarrow> Lib \<Rightarrow> schedule \<Rightarrow> clock \<Rightarrow> nat \<Rightarrow> 'd FideChain \<Rightarrow> Search \<Rightarrow> Search option" where
  "searchLoop 0 L sched clock r c st = None"
| "searchLoop (Suc n) L sched clock r c st =
     (if Removeable st = [] then Some st
      else do { (st1, removed) \<leftarrow> foldM (visit L c) (sched 0 r (mkeys (Removeable st))) (st, False);
                st2 \<leftarrow> (if removed then Some st1 else chooseFork L sched (clock r) r c st1);
                searchLoop n L sched clock (Suc r) c st2 })"

definition startSearch :: "Lib \<Rightarrow> Conf \<Rightarrow> 'd FideChain \<Rightarrow> Search option" where
  "startSearch L conf c =
     do { gs \<leftarrow> mapM (genesisOf c) [0..<shards conf];
          all \<leftarrow> mapM (\<lambda>g. g) (fcGs c);
          Some \<lparr>Bs = fcBlocks c, refCnt = map (\<lambda>(k, b). (k, int (shards conf))) (fcBlocks c),
                tops = map (FideBHash L) gs, accepted = [], LockMap = [],
                Removeable = fold (\<lambda>g. mput (FideBHash L g) (Some g)) all []\<rparr> }"

definition search :: "Lib \<Rightarrow> Conf \<Rightarrow> schedule \<Rightarrow> clock \<Rightarrow> 'd FideChain \<Rightarrow> Search option" where
  "search L conf sched clock c =
     do { st \<leftarrow> startSearch L conf c;
          searchLoop (2 * length (fcBlocks c) + 2) L sched clock 0 c st }"

definition moveTop :: "Lib \<Rightarrow> Conf \<Rightarrow> schedule \<Rightarrow> nat \<times> hash \<Rightarrow> 'd FideChain \<Rightarrow> 'd FideChain option" where
  \<comment> \<open>the last loop of \<open>FindBestBranches\<close>: what leaves the view goes back to the pool, what enters it leaves
     the pool\<close>
  "moveTop L conf sched = (\<lambda>(i, t) c.
     do { pool \<leftarrow>
            (if hashAt (fcTop c) i \<noteq> t
             then do { oldAnc \<leftarrow> Anc L c (hashAt (fcTop c) i);
                       newAnc \<leftarrow> Anc L c t;
                       pool1 \<leftarrow> foldM (\<lambda>k pool. case mget oldAnc k of
                                  None \<Rightarrow> Some pool
                                | Some b \<Rightarrow> if mget newAnc k = None
                                            then foldM (TxPool.Append conf (txHash L)) (FideTxs b) pool else Some pool)
                                (sched 3 (2 * i) (mkeys oldAnc)) (fcPool c);
                       foldM (\<lambda>k pool. case mget newAnc k of
                                  None \<Rightarrow> Some pool
                                | Some b \<Rightarrow> if mget oldAnc k = None
                                            then RemoveTxs conf (txHash L) (FideTxs b) pool else Some pool)
                         (sched 3 (2 * i + 1) (mkeys newAnc)) pool1 }
             else Some (fcPool c));
          Some (c\<lparr>fcPool := pool, fcTop := mput i t (fcTop c)\<rparr>) })"

definition FindBestBranches :: "Lib \<Rightarrow> Conf \<Rightarrow> schedule \<Rightarrow> clock \<Rightarrow> 'd FideChain \<Rightarrow> 'd FideChain option" where
  "FindBestBranches L conf sched clock c =
     do { st \<leftarrow> search L conf sched clock c;
          if length (tops st) < shards conf then None
          else foldM (moveTop L conf sched) (zip [0..<shards conf] (tops st)) c }"

subsection \<open>Appending a block\<close>

definition recordRef :: "FideBlock \<Rightarrow> hash \<Rightarrow> nat \<Rightarrow> (hash, hash list) gomap \<Rightarrow> (hash, hash list) gomap option" where
  "recordRef block h i rs = do { r \<leftarrow> Ref block i; Some (mput r (getOr rs r [] @ [h]) rs) }"

definition storeFide :: "Lib \<Rightarrow> Conf \<Rightarrow> 'd KV \<Rightarrow> clock \<Rightarrow> FideBlock \<Rightarrow> 'd FideChain \<Rightarrow> 'd FideChain option" where
  \<comment> \<open>the block is stored, linked to its parent and its references, and the weights of its branch grow\<close>
  "storeFide L conf kv clock block c =
     (let h = FideBHash L block; p = fideParent block; blocks = mput h block (fcBlocks c)
      in do { enc \<leftarrow> FideEncode L block;
              db \<leftarrow> AddBlock kv h (fideHash L (fH block)) enc (fcStorage c);
              rs \<leftarrow> foldM (recordRef block h) [0..<shards conf] (fcRefs c);
              bs \<leftarrow> branch (Suc (length blocks)) fideParent blocks (genesisOf c (fideSid block)) block;
              let hs = map (FideBHash L) bs
              in Some (c\<lparr>fcStorage := db, fcBlocks := blocks,
                         fcPath := mput p (getOr (fcPath c) p [] @ [h]) (fcPath c), fcRefs := rs,
                         fcWeight := addWeight hs (fcWeight c),
                         updataT := fold (\<lambda>(h, t). mput h t) (zip hs (map clock [0..<length hs])) (updataT c)\<rparr>) })"

definition onView :: "Lib \<Rightarrow> FideBlock \<Rightarrow> 'd FideChain \<Rightarrow> nat \<Rightarrow> bool option" where
  \<comment> \<open>whether the reference to the shard \<open>i\<close> is on the branch of its top\<close>
  "onView L block c i =
     do { anc \<leftarrow> Anc L c (hashAt (fcTop c) i); r \<leftarrow> Ref block i; Some (mget anc r \<noteq> None) }"

definition Append ::
  "Lib \<Rightarrow> Conf \<Rightarrow> 'd KV \<Rightarrow> schedule \<Rightarrow> clock \<Rightarrow> clock \<Rightarrow> FideBlock \<Rightarrow> 'd FideChain \<Rightarrow> 'd FideChain option" where
  "Append L conf kv sched clock clock' block c =
     do { isLegal \<leftarrow> VerifyBlock L conf block c;
          if \<not> isLegal then None
          else do { c1 \<leftarrow> storeFide L conf kv clock block c;
                    goods \<leftarrow> mapM (onView L block c1) [0..<shards conf];
                    if fideParent block = hashAt (fcTop c1) (fideSid block) \<and> list_all id goods
                    then do { pool \<leftarrow> RemoveTxs conf (txHash L) (FideTxs block) (fcPool c1);
                              Some (c1\<lparr>fcTop := mput (fideSid block) (FideBHash L block) (fcTop c1), fcPool := pool\<rparr>) }
                    else FindBestBranches L conf sched clock' c1 } }"

definition recordCBlock :: "Lib \<Rightarrow> nat \<Rightarrow> FideBlock \<Rightarrow> 'd FideChain \<Rightarrow> 'd FideChain option" where
  "recordCBlock L sid block c =
     do { buf \<leftarrow> mget (blockBuffer c) sid;
          if fNonce (fH block) = 0 then None
          else Some (c\<lparr>blockBuffer := mput sid (mput (FideBHash L block) block buf) (blockBuffer c)\<rparr>) }"

definition LockMoney :: "Lib \<Rightarrow> Conf \<Rightarrow> Transaction list \<Rightarrow> 'd FideChain \<Rightarrow> 'd FideChain option" where
  "LockMoney L conf commit c =
     do { pool \<leftarrow> RemoveTxs conf (txHash L) commit (fcPool c); Some (c\<lparr>fcPool := pool\<rparr>) }"

definition BlockExist :: "'d FideChain \<Rightarrow> hash \<Rightarrow> bool" where
  "BlockExist c h = (mget (fcBlocks c) h \<noteq> None)"

subsection \<open>Ancestors\<close>

definition fcTree :: "Lib \<Rightarrow> Conf \<Rightarrow> FideBlock \<Rightarrow> 'd FideChain \<Rightarrow> bool" where
  \<comment> \<open>the stored blocks form a tree under \<open>g\<close>, with their weights, children and references recorded\<close>
  "fcTree L conf g c \<longleftrightarrow>
     fcGs c = replicate (shards conf) (Some g) \<and> fideSid g = 0 \<and> 0 < shards conf \<and>
     tree (FideBHash L) fideParent fideSid (genesisOf c) (fcBlocks c) \<and>
     weighed (FideBHash L) fideParent fideSid (genesisOf c) (fcBlocks c) (fcWeight c) \<and>
     linkedKids (FideBHash L) fideParent (genesisOf c) (fcBlocks c) (fcPath c) \<and>
     (\<forall>k b i. mget (fcBlocks c) k = Some b \<longrightarrow> b \<noteq> g \<longrightarrow> i < shards conf \<longrightarrow>
        (\<exists>r. Ref b i = Some r \<and> mget (fcBlocks c) r \<noteq> None)) \<and>
     (\<forall>h k. count_list (getOr (fcRefs c) h []) k = (case mget (fcBlocks c) k of
        None \<Rightarrow> 0 | Some b \<Rightarrow> if b = g then 0 else card {i. i < shards conf \<and> Ref b i = Some h}))"

lemma fcTreeD:
  assumes "fcTree L conf g c"
  shows "fcGs c = replicate (shards conf) (Some g)" "fideSid g = 0" "0 < shards conf"
    "tree (FideBHash L) fideParent fideSid (genesisOf c) (fcBlocks c)"
    "weighed (FideBHash L) fideParent fideSid (genesisOf c) (fcBlocks c) (fcWeight c)"
    "linkedKids (FideBHash L) fideParent (genesisOf c) (fcBlocks c) (fcPath c)"
    "mget (fcBlocks c) k = Some b \<Longrightarrow> b \<noteq> g \<Longrightarrow> i < shards conf \<Longrightarrow>
       \<exists>r. Ref b i = Some r \<and> mget (fcBlocks c) r \<noteq> None"
    "count_list (getOr (fcRefs c) h []) k = (case mget (fcBlocks c) k of
        None \<Rightarrow> 0 | Some b \<Rightarrow> if b = g then 0 else card {i. i < shards conf \<and> Ref b i = Some h})"
  using assms unfolding fcTree_def by blast+

lemma genesisOf_eq: "fcTree L conf g c \<Longrightarrow> genesisOf c i = (if i < shards conf then Some g else None)"
  using fcTreeD(1)[of L conf g c] by (simp add: genesisOf_def slot_def)

lemma genesis_stored:
  assumes "fcTree L conf g c"
  shows "mget (fcBlocks c) (FideBHash L g) = Some g" "mget (fcBlocks c) (fideParent g) = None"
  using treeD(3,4)[OF fcTreeD(4)[OF assms], of 0] genesisOf_eq[OF assms, of 0] fcTreeD(3)[OF assms] by auto

lemma stored_path:
  assumes "fcTree L conf g c" "mget (fcBlocks c) k = Some b"
  obtains bs where "path fideParent (fcBlocks c) g b bs" "fideSid b < shards conf" "FideBHash L b = k"
    "length bs \<le> length (fcBlocks c)"
proof -
  obtain g' bs where "genesisOf c (fideSid b) = Some g'" "path fideParent (fcBlocks c) g' b bs"
    using treeD(2)[OF fcTreeD(4)[OF assms(1)] assms(2)] by blast
  then have g: "fideSid b < shards conf" "path fideParent (fcBlocks c) g b bs"
    using genesisOf_eq[OF assms(1), of "fideSid b"] by (auto split: if_splits)
  show ?thesis
    by (rule that[OF g(2,1) treeD(1)[OF fcTreeD(4)[OF assms(1)] assms(2)] path_length[OF g(2) assms(2)]])
qed

lemma fold_mput_keys: "mget (fold (\<lambda>b. mput (f b) b) bs m) k \<noteq> None \<longleftrightarrow> k \<in> f ` set bs \<or> mget m k \<noteq> None"
  by (induction bs arbitrary: m) auto

definition isAnc :: "Lib \<Rightarrow> 'd FideChain \<Rightarrow> hash \<Rightarrow> hash \<Rightarrow> bool" where
  "isAnc L c k h \<longleftrightarrow> (\<exists>m. Anc L c h = Some m \<and> mget m k \<noteq> None)"

lemma Anc_stored:
  assumes t: "fcTree L conf g c" and s: "mget (fcBlocks c) h = Some b" and p: "path fideParent (fcBlocks c) g b bs"
  shows "\<exists>m. Anc L c h = Some m \<and> (\<forall>k. mget m k \<noteq> None \<longleftrightarrow> k = FideBHash L g \<or> k \<in> FideBHash L ` set bs)"
proof -
  have sid: "fideSid b < shards conf" by (rule stored_path[OF t s])
  have "branch (Suc (length (fcBlocks c))) fideParent (fcBlocks c) (Some g) b = Some bs"
    unfolding branch_iff using p path_length[OF p s] by simp
  then have "Anc L c h = Some (mput (FideBHash L g) g (fold (\<lambda>b. mput (FideBHash L b) b) bs []))"
    using s sid genesisOf_eq[OF t] by (simp add: Anc_def)
  then show ?thesis
    by (intro exI conjI allI, assumption) (simp add: fold_mput_keys[simplified])
qed

lemma isAnc_iff:
  assumes t: "fcTree L conf g c" and s: "mget (fcBlocks c) h = Some b" and p: "path fideParent (fcBlocks c) g b bs"
  shows "isAnc L c k h \<longleftrightarrow> k = FideBHash L g \<or> k \<in> FideBHash L ` set bs"
  using Anc_stored[OF assms] unfolding isAnc_def by force

lemma isAnc_refl:
  assumes t: "fcTree L conf g c" and s: "mget (fcBlocks c) h = Some b"
  shows "isAnc L c h h"
proof -
  obtain bs where p: "path fideParent (fcBlocks c) g b bs" "FideBHash L b = h" by (rule stored_path[OF t s])
  show ?thesis unfolding isAnc_iff[OF t s p(1)] using p by (cases bs) (auto simp: path_Cons)
qed

lemma isAnc_stored:
  assumes t: "fcTree L conf g c" and a: "isAnc L c k h"
  shows "\<exists>b x. mget (fcBlocks c) h = Some b \<and> mget (fcBlocks c) k = Some x"
proof -
  obtain m where "Anc L c h = Some m" using a by (auto simp: isAnc_def)
  then obtain b where s: "mget (fcBlocks c) h = Some b" by (auto simp: Anc_def bind_eq_Some_conv)
  obtain bs where p: "path fideParent (fcBlocks c) g b bs" "FideBHash L b = h" by (rule stored_path[OF t s])
  have "mget (fcBlocks c) k \<noteq> None"
  proof (cases "k = FideBHash L g")
    case True
    then show ?thesis using genesis_stored(1)[OF t] by simp
  next
    case False
    then obtain x where x: "x \<in> set bs" "k = FideBHash L x" using a unfolding isAnc_iff[OF t s p(1)] by blast
    show ?thesis
    proof (cases "x = b")
      case False
      then obtain h' where h': "mget (fcBlocks c) h' = Some x" using path_members[OF p(1) x(1)] by blast
      moreover have "FideBHash L x = h'" by (rule treeD(1)[OF fcTreeD(4)[OF t] h'])
      ultimately show ?thesis using x(2) by simp
    qed (use s p(2) x(2) in simp)
  qed
  then show ?thesis using s by blast
qed

lemma isAnc_trans:
  assumes t: "fcTree L conf g c" and a: "isAnc L c k h" "isAnc L c h j"
  shows "isAnc L c k j"
proof -
  obtain b where b: "mget (fcBlocks c) j = Some b" using isAnc_stored[OF t a(2)] by blast
  obtain x where x: "mget (fcBlocks c) h = Some x" using isAnc_stored[OF t a(1)] by blast
  obtain bs where p: "path fideParent (fcBlocks c) g b bs" by (rule stored_path[OF t b])
  obtain cs where q: "path fideParent (fcBlocks c) g x cs" "FideBHash L x = h" by (rule stored_path[OF t x])
  show ?thesis
  proof (cases "x = g")
    case True
    then have "cs = []" using q(1) by (simp add: path_g)
    then show ?thesis using a(1) unfolding isAnc_iff[OF t x q(1)] isAnc_iff[OF t b p] by auto
  next
    case False
    have "h \<noteq> FideBHash L g" using False x genesis_stored(1)[OF t] by auto
    then obtain y where y: "y \<in> set bs" "h = FideBHash L y" using a(2) unfolding isAnc_iff[OF t b p] by blast
    have "y = x"
    proof (cases "y = b")
      case True
      have "FideBHash L b = j" by (rule treeD(1)[OF fcTreeD(4)[OF t] b])
      then show ?thesis using True x b y(2) by auto
    next
      case False
      then obtain h' where h': "mget (fcBlocks c) h' = Some y" using path_members[OF p y(1)] by blast
      moreover have "FideBHash L y = h'" by (rule treeD(1)[OF fcTreeD(4)[OF t] h'])
      ultimately show ?thesis using x y(2) by simp
    qed
    then obtain as ds where bs: "bs = as @ x # ds" using y(1) by (auto simp: in_set_conv_decomp)
    have "path fideParent (fcBlocks c) g x (x # ds)" by (rule path_suffix[of _ _ _ b as]) (use p bs in simp)
    then have "cs = x # ds" by (rule path_unique[OF q(1)])
    then show ?thesis using a(1) bs unfolding isAnc_iff[OF t x q(1)] isAnc_iff[OF t b p] by auto
  qed
qed

lemma isAnc_parent:
  assumes t: "fcTree L conf g c" and b: "mget (fcBlocks c) h = Some b" and n: "b \<noteq> g"
  shows "isAnc L c k h \<longleftrightarrow> k = h \<or> isAnc L c k (fideParent b)" "isAnc L c (fideParent b) h"
proof -
  obtain bs where p: "path fideParent (fcBlocks c) g b bs" "FideBHash L b = h" by (rule stored_path[OF t b])
  then obtain q cs where q: "bs = b # cs" "mget (fcBlocks c) (fideParent b) = Some q" "path fideParent (fcBlocks c) g q cs"
    using n by (cases bs) (auto simp: path_Cons)
  show one: "isAnc L c k h \<longleftrightarrow> k = h \<or> isAnc L c k (fideParent b)" for k
    unfolding isAnc_iff[OF t b p(1)] isAnc_iff[OF t q(2,3)] using p(2) q(1) by auto
  show "isAnc L c (fideParent b) h" unfolding one using isAnc_refl[OF t q(2)] by simp
qed

subsection \<open>Storing a block\<close>

definition newFor :: "Lib \<Rightarrow> FideBlock \<Rightarrow> 'd FideChain \<Rightarrow> bool" where
  \<comment> \<open>a block that is not stored yet, and whose hash is not the one the genesis block refers to\<close>
  "newFor L block c \<longleftrightarrow> \<not> BlockExist c (FideBHash L block) \<and>
     (\<forall>i g. genesisOf c i = Some g \<longrightarrow> fideParent g \<noteq> FideBHash L block)"

lemma recordRefs:
  "foldM (recordRef block h) is rs = Some rs' \<Longrightarrow>
     (\<forall>i\<in>set is. \<exists>r. Ref block i = Some r) \<and>
     (\<forall>x k. count_list (getOr rs' x []) k =
        count_list (getOr rs x []) k + (if k = h then length (filter (\<lambda>i. Ref block i = Some x) is) else 0))"
proof (induction "is" arbitrary: rs)
  case (Cons i "is")
  then obtain rs1 where f: "recordRef block h i rs = Some rs1" "foldM (recordRef block h) is rs1 = Some rs'"
    by (auto simp: bind_eq_Some_conv)
  then obtain r where r: "Ref block i = Some r" "foldM (recordRef block h) is (mput r (getOr rs r [] @ [h]) rs) = Some rs'"
    by (auto simp: recordRef_def[of block h i rs] bind_eq_Some_conv)
  from Cons.IH[OF r(2)] show ?case
    using r(1) by (auto simp: getOr_mput)
qed simp

lemma storeFide_effect:
  assumes "storeFide L conf kv clock block c = Some c1"
  shows "fcBlocks c1 = mput (FideBHash L block) block (fcBlocks c)"
    "fcPath c1 = mput (fideParent block) (getOr (fcPath c) (fideParent block) [] @ [FideBHash L block]) (fcPath c)"
    "fcTop c1 = fcTop c" "fcPool c1 = fcPool c" "fcGs c1 = fcGs c"
    "foldM (recordRef block (FideBHash L block)) [0..<shards conf] (fcRefs c) = Some (fcRefs c1)"
    "\<exists>bs. branch (Suc (length (fcBlocks c1))) fideParent (fcBlocks c1) (genesisOf c (fideSid block)) block = Some bs \<and>
       fcWeight c1 = addWeight (map (FideBHash L) bs) (fcWeight c)"
proof -
  obtain enc db rs bs where e:
    "foldM (recordRef block (FideBHash L block)) [0..<shards conf] (fcRefs c) = Some rs"
    "branch (Suc (length (mput (FideBHash L block) block (fcBlocks c)))) fideParent (mput (FideBHash L block) block (fcBlocks c))
       (genesisOf c (fideSid block)) block = Some bs"
    "c1 = c\<lparr>fcStorage := db, fcBlocks := mput (FideBHash L block) block (fcBlocks c),
        fcPath := mput (fideParent block) (getOr (fcPath c) (fideParent block) [] @ [FideBHash L block]) (fcPath c), fcRefs := rs,
        fcWeight := addWeight (map (FideBHash L) bs) (fcWeight c),
        updataT := fold (\<lambda>(h, t). mput h t) (zip (map (FideBHash L) bs) (map clock [0..<length (map (FideBHash L) bs)])) (updataT c)\<rparr>"
    using assms unfolding storeFide_def Let_def bind_eq_Some_conv by (metis option.inject)
  show "fcBlocks c1 = mput (FideBHash L block) block (fcBlocks c)"
    "fcPath c1 = mput (fideParent block) (getOr (fcPath c) (fideParent block) [] @ [FideBHash L block]) (fcPath c)"
    "fcTop c1 = fcTop c" "fcPool c1 = fcPool c" "fcGs c1 = fcGs c"
    "foldM (recordRef block (FideBHash L block)) [0..<shards conf] (fcRefs c) = Some (fcRefs c1)"
    "\<exists>bs. branch (Suc (length (fcBlocks c1))) fideParent (fcBlocks c1) (genesisOf c (fideSid block)) block = Some bs \<and>
       fcWeight c1 = addWeight (map (FideBHash L) bs) (fcWeight c)"
    using e(1,2) unfolding e(3) by simp_all
qed

lemma storeFide_path:
  assumes t: "fcTree L conf g c" and s: "storeFide L conf kv clock block c = Some c1" and f: "newFor L block c"
  obtains p cs where "fideSid block < shards conf" "block \<noteq> g" "mget (fcBlocks c) (fideParent block) = Some p"
    "path fideParent (fcBlocks c) g p cs" "path fideParent (fcBlocks c1) g block (block # cs)"
    "fcWeight c1 = addWeight (map (FideBHash L) (block # cs)) (fcWeight c)"
proof -
  obtain bs where bs: "branch (Suc (length (fcBlocks c1))) fideParent (fcBlocks c1) (genesisOf c (fideSid block)) block = Some bs"
    "fcWeight c1 = addWeight (map (FideBHash L) bs) (fcWeight c)"
    using storeFide_effect(7)[OF s] by blast
  have none: "branch n par blocks None b = None" for n par blocks and b :: FideBlock
    by (induction n arbitrary: b) (auto simp: Option.bind_eq_None_conv)
  have sid: "fideSid block < shards conf"
    using bs(1) none genesisOf_eq[OF t, of "fideSid block"] by (cases "fideSid block < shards conf") auto
  have gen: "genesisOf c (fideSid block) = Some g" using sid by (simp add: genesisOf_eq[OF t])
  have p: "path fideParent (mput (FideBHash L block) block (fcBlocks c)) g block bs"
    using bs(1) unfolding gen branch_iff storeFide_effect(1)[OF s] by simp
  have fresh: "mget (fcBlocks c) (FideBHash L block) = None" using f by (simp add: newFor_def BlockExist_def)
  have new: "\<And>i g. genesisOf c i = Some g \<Longrightarrow> fideParent g \<noteq> FideBHash L block" using f by (simp add: newFor_def)
  obtain p' cs where q: "bs = block # cs" "block \<noteq> g" "mget (fcBlocks c) (fideParent block) = Some p'"
    "path fideParent (fcBlocks c) g p' cs"
  proof -
    have "\<exists>p cs. bs = block # cs \<and> block \<noteq> g \<and> mget (fcBlocks c) (fideParent block) = Some p \<and>
        path fideParent (fcBlocks c) g p cs"
      by (rule insert_path[OF fcTreeD(4)[OF t] fresh gen _ p]) (rule new)
    then show ?thesis using that by blast
  qed
  show ?thesis by (rule that[OF sid q(2,3,4)]) (use p q(1) bs(2) in \<open>simp_all add: storeFide_effect(1)[OF s]\<close>)
qed

lemma storeFide_tree:
  assumes t: "fcTree L conf g c" and s: "storeFide L conf kv clock block c = Some c1" and f: "newFor L block c"
    and r: "\<forall>i < shards conf. \<exists>r. Ref block i = Some r \<and> mget (fcBlocks c) r \<noteq> None"
  shows "fcTree L conf g c1"
proof -
  obtain p cs where v: "fideSid block < shards conf" "block \<noteq> g" "mget (fcBlocks c) (fideParent block) = Some p"
    "path fideParent (fcBlocks c) g p cs" "path fideParent (fcBlocks c1) g block (block # cs)"
    "fcWeight c1 = addWeight (map (FideBHash L) (block # cs)) (fcWeight c)"
    by (rule storeFide_path[OF t s f])
  have fresh: "mget (fcBlocks c) (FideBHash L block) = None" using f by (simp add: newFor_def BlockExist_def)
  have new: "\<And>i g. genesisOf c i = Some g \<Longrightarrow> fideParent g \<noteq> FideBHash L block" using f by (simp add: newFor_def)
  have gen: "genesisOf c (fideSid block) = Some g" using v(1) by (simp add: genesisOf_eq[OF t])
  have ng: "genesisOf c i \<noteq> Some block" for i using v(2) genesisOf_eq[OF t, of i] by auto
  have gen1: "genesisOf c1 = genesisOf c" by (rule ext) (simp add: genesisOf_def storeFide_effect(5)[OF s])
  note pp = v(5)[unfolded storeFide_effect(1)[OF s]]
  have refs: "\<exists>r. Ref b i = Some r \<and> mget (fcBlocks c1) r \<noteq> None"
    if "mget (fcBlocks c1) k = Some b" "b \<noteq> g" "i < shards conf" for k b i
  proof -
    have "\<exists>r. Ref b i = Some r \<and> mget (fcBlocks c) r \<noteq> None"
      using that r fcTreeD(7)[OF t, of k b i] by (auto simp: storeFide_effect(1)[OF s] split: if_splits)
    then show ?thesis by (auto simp: storeFide_effect(1)[OF s])
  qed
  have counts: "count_list (getOr (fcRefs c1) h []) k = (case mget (fcBlocks c1) k of
        None \<Rightarrow> 0 | Some b \<Rightarrow> if b = g then 0 else card {i. i < shards conf \<and> Ref b i = Some h})" for h k
  proof -
    have "length (filter (\<lambda>i. Ref block i = Some h) [0..<shards conf]) = card {i. i < shards conf \<and> Ref block i = Some h}"
      by (subst distinct_length_filter) (auto intro: arg_cong[of _ _ card])
    then have "count_list (getOr (fcRefs c1) h []) k = count_list (getOr (fcRefs c) h []) k +
        (if k = FideBHash L block then card {i. i < shards conf \<and> Ref block i = Some h} else 0)"
      using recordRefs[OF storeFide_effect(6)[OF s]] by simp
    then show ?thesis
      using fcTreeD(8)[OF t, of h k] fresh v(2) by (auto simp: storeFide_effect(1)[OF s] split: option.splits)
  qed
  show ?thesis
    unfolding fcTree_def storeFide_effect(5)[OF s] gen1
  proof (intro conjI allI impI)
    show "fcGs c = replicate (shards conf) (Some g)" "fideSid g = 0" "0 < shards conf" by (fact fcTreeD[OF t])+
    show "tree (FideBHash L) fideParent fideSid (genesisOf c) (fcBlocks c1)"
      unfolding storeFide_effect(1)[OF s] by (rule insert_tree[OF fcTreeD(4)[OF t] fresh gen new pp])
    show "weighed (FideBHash L) fideParent fideSid (genesisOf c) (fcBlocks c1) (fcWeight c1)"
      unfolding storeFide_effect(1)[OF s] v(6) by (rule insert_weighed[OF fcTreeD(4)[OF t] fresh gen new pp fcTreeD(5)[OF t]])
    show "linkedKids (FideBHash L) fideParent (genesisOf c) (fcBlocks c1) (fcPath c1)"
      unfolding storeFide_effect(1,2)[OF s] by (rule insert_linkedKids[OF fcTreeD(6)[OF t] fresh ng])
  qed (use refs counts in blast)+
qed

lemma storeFide_anc:
  assumes t: "fcTree L conf g c" and t1: "fcTree L conf g c1" and s: "storeFide L conf kv clock block c = Some c1"
    and f: "newFor L block c" and h: "mget (fcBlocks c) h = Some b"
  shows "isAnc L c1 k h \<longleftrightarrow> isAnc L c k h"
proof -
  obtain bs where p: "path fideParent (fcBlocks c) g b bs" by (rule stored_path[OF t h])
  have fresh: "mget (fcBlocks c) (FideBHash L block) = None" using f by (simp add: newFor_def BlockExist_def)
  have mono: "mget (fcBlocks c1) x = Some y" if "mget (fcBlocks c) x = Some y" for x y
    using that fresh by (auto simp: storeFide_effect(1)[OF s])
  have p1: "path fideParent (fcBlocks c1) g b bs" by (rule path_mono[OF p mono])
  show ?thesis unfolding isAnc_iff[OF t h p] isAnc_iff[OF t1 mono[OF h] p1] ..
qed

lemma VerifyBlock_refs:
  assumes "VerifyBlock L conf block c = Some True" "i < shards conf"
  shows "\<exists>r. Ref block i = Some r \<and> mget (fcBlocks c) r \<noteq> None"
proof -
  obtain ancs where "mapM (\<lambda>i. do { r \<leftarrow> Ref block i; Anc L c r }) [0..<shards conf] = Some ancs"
    using assms(1) by (auto simp: VerifyBlock_def Valid_def bind_eq_Some_conv)
  then have "list_all2 (\<lambda>i y. Ref block i \<bind> Anc L c = Some y) [0..<shards conf] ancs"
    unfolding mapM_eq_Some by simp
  then have "Ref block i \<bind> Anc L c \<noteq> None" using assms(2) by (auto simp: list_all2_conv_all_nth)
  then show ?thesis by (auto simp: Anc_def bind_eq_Some_conv)
qed

lemma Valid_iff:
  assumes t: "fcTree L conf g c" and r: "\<forall>i < shards conf. \<exists>r. Ref block i = Some r \<and> mget (fcBlocks c) r \<noteq> None"
  shows "Valid L conf block c = Some (\<forall>i < shards conf. \<forall>a. mget (fcBlocks c) (the (Ref block i)) = Some a \<longrightarrow> a \<noteq> g \<longrightarrow>
     (\<forall>j < shards conf. \<forall>x. Ref a j = Some x \<longrightarrow> isAnc L c x (the (Ref block j))))"
proof -
  have "\<exists>m. (Ref block i \<bind> Anc L c) = Some m \<and> (\<forall>k. mget m k \<noteq> None \<longleftrightarrow> isAnc L c k (the (Ref block i)))"
    if i: "i < shards conf" for i
  proof -
    obtain x b where x: "Ref block i = Some x" "mget (fcBlocks c) x = Some b" using r i by blast
    obtain bs where p: "path fideParent (fcBlocks c) g b bs" by (rule stored_path[OF t x(2)])
    from Anc_stored[OF t x(2) p] x(1) show ?thesis by (auto simp: isAnc_def)
  qed
  then obtain M where M: "\<And>i. i < shards conf \<Longrightarrow> (Ref block i \<bind> Anc L c) = Some (M i)"
    "\<And>i k. i < shards conf \<Longrightarrow> mget (M i) k \<noteq> None \<longleftrightarrow> isAnc L c k (the (Ref block i))" by metis
  have "mapM (\<lambda>i. Ref block i \<bind> Anc L c) [0..<shards conf] = Some (map M [0..<shards conf])"
    unfolding mapM_eq_Some list_all2_conv_all_nth using M(1) by simp
  then have V: "Valid L conf block c = allM (refValid L conf block c (map M [0..<shards conf])) [0..<shards conf]"
    by (simp add: Valid_def)
  have one: "refValid L conf block c (map M [0..<shards conf]) i = Some (\<forall>a. mget (fcBlocks c) (the (Ref block i)) = Some a \<longrightarrow> a \<noteq> g \<longrightarrow>
     (\<forall>j < shards conf. \<forall>x. Ref a j = Some x \<longrightarrow> isAnc L c x (the (Ref block j))))" if i: "i < shards conf" for i
  proof -
    obtain x a where x: "Ref block i = Some x" "mget (fcBlocks c) x = Some a" using r i by blast
    have "allM (\<lambda>j. do { anc \<leftarrow> slot (map M [0..<shards conf]) j; h \<leftarrow> Ref a j; Some (mget anc h \<noteq> None) }) js =
        Some (\<forall>j\<in>set js. \<forall>x. Ref a j = Some x \<longrightarrow> isAnc L c x (the (Ref block j)))"
      if ag: "a \<noteq> g" and js: "set js \<subseteq> {..<shards conf}" for js
      using js
    proof (induction js)
      case (Cons j js)
      obtain y where "Ref a j = Some y" using fcTreeD(7)[OF t x(2) ag, of j] Cons.prems by auto
      then show ?case using Cons M(2)[of j] by auto
    qed simp
    from this[of "[0..<shards conf]"] show ?thesis
      using x i fcTreeD(1)[OF t] by (auto simp: refValid_def atLeast0LessThan)
  qed
  have "allM (refValid L conf block c (map M [0..<shards conf])) is =
      Some (\<forall>i\<in>set is. \<forall>a. mget (fcBlocks c) (the (Ref block i)) = Some a \<longrightarrow> a \<noteq> g \<longrightarrow>
     (\<forall>j < shards conf. \<forall>x. Ref a j = Some x \<longrightarrow> isAnc L c x (the (Ref block j))))" if "set is \<subseteq> {..<shards conf}" for "is"
    using that by (induction "is") (simp_all add: one)
  from this[of "[0..<shards conf]"] show ?thesis unfolding V by (simp add: atLeast0LessThan Ball_def)
qed

subsection \<open>The view\<close>

definition topsStored :: "Conf \<Rightarrow> FideBlock \<Rightarrow> 'd FideChain \<Rightarrow> bool" where
  "topsStored conf g c \<longleftrightarrow>
     (\<forall>i < shards conf. \<exists>t. mget (fcBlocks c) (hashAt (fcTop c) i) = Some t \<and> (t = g \<or> fideSid t = i))"

definition closedView :: "Lib \<Rightarrow> Conf \<Rightarrow> FideBlock \<Rightarrow> 'd FideChain \<Rightarrow> bool" where
  \<comment> \<open>what a block of the view refers to is in the view\<close>
  "closedView L conf g c \<longleftrightarrow>
     (\<forall>i k b. i < shards conf \<longrightarrow> isAnc L c k (hashAt (fcTop c) i) \<longrightarrow> mget (fcBlocks c) k = Some b \<longrightarrow> b \<noteq> g \<longrightarrow>
        (\<forall>j r. j < shards conf \<longrightarrow> Ref b j = Some r \<longrightarrow> isAnc L c r (hashAt (fcTop c) j)))"

definition sits :: "Lib \<Rightarrow> Conf \<Rightarrow> FideBlock \<Rightarrow> 'd FideChain \<Rightarrow> bool" where
  \<comment> \<open>a block that extends the view: its parent is the top of its shard, its references are in the view\<close>
  "sits L conf block c \<longleftrightarrow> fideParent block = hashAt (fcTop c) (fideSid block) \<and>
     (\<forall>i < shards conf. \<exists>r. Ref block i = Some r \<and> isAnc L c r (hashAt (fcTop c) i))"

lemma topsStoredD:
  "topsStored conf g c \<Longrightarrow> i < shards conf \<Longrightarrow> \<exists>t. mget (fcBlocks c) (hashAt (fcTop c) i) = Some t \<and> (t = g \<or> fideSid t = i)"
  unfolding topsStored_def by blast

lemma closedViewD:
  "closedView L conf g c \<Longrightarrow> i < shards conf \<Longrightarrow> isAnc L c k (hashAt (fcTop c) i) \<Longrightarrow> mget (fcBlocks c) k = Some b \<Longrightarrow>
   b \<noteq> g \<Longrightarrow> j < shards conf \<Longrightarrow> Ref b j = Some r \<Longrightarrow> isAnc L c r (hashAt (fcTop c) j)"
  unfolding closedView_def by blast

lemma Valid_on_tops:
  assumes t: "fcTree L conf g c" and cl: "closedView L conf g c" and tp: "topsStored conf g c"
    and r: "\<forall>i < shards conf. Ref block i = Some (hashAt (fcTop c) i)"
  shows "Valid L conf block c = Some True"
proof -
  have st: "\<forall>i < shards conf. \<exists>r. Ref block i = Some r \<and> mget (fcBlocks c) r \<noteq> None"
    using r topsStoredD[OF tp] by fastforce
  show ?thesis
    unfolding Valid_iff[OF t st] option.inject eq_True
  proof (intro allI impI)
    fix i a j x
    assume i: "i < shards conf" and a: "mget (fcBlocks c) (the (Ref block i)) = Some a" "a \<noteq> g"
      and j: "j < shards conf" and x: "Ref a j = Some x"
    have a': "mget (fcBlocks c) (hashAt (fcTop c) i) = Some a" using a(1) r i by simp
    show "isAnc L c x (the (Ref block j))"
      using closedViewD[OF cl i isAnc_refl[OF t a'] a' a(2) j x] r j by simp
  qed
qed

lemma GenerateBlock_shape:
  assumes "GenerateBlock L conf ord finished now a c = Some (Some b)"
  shows "(\<forall>i < shards conf. Ref b i = Some (hashAt (fcTop c) i)) \<and> fideParent b = hashAt (fcTop c) (fideSid b) \<and>
    verifyRemoteBlock L conf b = Some True"
proof -
  obtain txsArray blockIdx where g: "PackageRelayTxs conf ord (fcPool c) = Some (txsArray, blockIdx)"
    "\<not> length txsArray < shards conf"
    using assms by (auto simp: GenerateBlock_def Let_def bind_eq_Some_conv split: if_splits)
  define subs where "subs = map (newSub L c) (zip [0..<shards conf] txsArray)"
  have sb: "SubBlocks b = map Some subs" "SubBlockRoot (fH b) = GenMPTRoot (sha L) (map (SubHash L) subs)"
    "fideParent b = hashAt (fcTop c) (fideSid b)"
    using assms unfolding GenerateBlock_def g(1)
    by (auto simp: Let_def subs_def fideParent_def fideSid_def split: if_splits)
  have len: "length subs = shards conf" using g(2) by (simp add: subs_def)
  have "Ref b i = Some (hashAt (fcTop c) i)" if "i < shards conf" for i
  proof -
    have "subs ! i = newSub L c (i, txsArray ! i)" using that g(2) by (simp add: subs_def)
    then show ?thesis using that len by (simp add: Ref_def sb(1) newSub_def)
  qed
  moreover note sb(3)
  moreover have "mapM (\<lambda>sb. do { b \<leftarrow> sb; Some (SubHash L b) }) (map Some subs) = Some (map (SubHash L) subs)"
    unfolding mapM_eq_Some by (simp add: list_all2_conv_all_nth)
  then have "verifyRemoteBlock L conf b = Some True" by (simp add: verifyRemoteBlock_def sb len)
  ultimately show ?thesis by blast
qed

lemma GenerateBlock_sits:
  assumes t: "fcTree L conf g c" and cl: "closedView L conf g c" and tp: "topsStored conf g c"
    and b: "GenerateBlock L conf ord finished now a c = Some (Some b)"
  shows "VerifyBlock L conf b c = Some True \<and> sits L conf b c"
proof -
  note s = GenerateBlock_shape[OF b]
  have "Valid L conf b c = Some True" by (rule Valid_on_tops[OF t cl tp]) (use s in blast)
  moreover have "isAnc L c (hashAt (fcTop c) i) (hashAt (fcTop c) i)" if "i < shards conf" for i
    using topsStoredD[OF tp that] isAnc_refl[OF t] by blast
  ultimately show ?thesis using s by (simp add: VerifyBlock_def sits_def)
qed

lemma onView_iff:
  assumes t: "fcTree L conf g c" and s: "mget (fcBlocks c) (hashAt (fcTop c) i) = Some b" and r: "Ref block i = Some r"
  shows "onView L block c i = Some (isAnc L c r (hashAt (fcTop c) i))"
proof -
  obtain bs where p: "path fideParent (fcBlocks c) g b bs" by (rule stored_path[OF t s])
  show ?thesis using Anc_stored[OF t s p] r by (auto simp: onView_def isAnc_def)
qed

lemma Append_stores:
  assumes ap: "Append L conf kv sched clock clock' block c = Some c'"
  obtains c1 where "VerifyBlock L conf block c = Some True" "storeFide L conf kv clock block c = Some c1"
    "(do { goods \<leftarrow> mapM (onView L block c1) [0..<shards conf];
           if fideParent block = hashAt (fcTop c1) (fideSid block) \<and> list_all id goods
           then do { pool \<leftarrow> RemoveTxs conf (txHash L) (FideTxs block) (fcPool c1);
                     Some (c1\<lparr>fcTop := mput (fideSid block) (FideBHash L block) (fcTop c1), fcPool := pool\<rparr>) }
           else FindBestBranches L conf sched clock' c1 }) = Some c'"
proof -
  obtain l where l: "VerifyBlock L conf block c = Some l" using ap by (auto simp: Append_def bind_eq_Some_conv)
  then have "l" using ap by (cases l) (auto simp: Append_def)
  with l ap obtain c1 where "storeFide L conf kv clock block c = Some c1"
    by (auto simp: Append_def bind_eq_Some_conv)
  with l \<open>l\<close> ap show ?thesis by (intro that[of c1]) (simp_all add: Append_def)
qed

lemma Append_extends:
  assumes t: "fcTree L conf g c" and tp: "topsStored conf g c" and f: "newFor L block c"
    and ap: "Append L conf kv sched clock clock' block c = Some c'" and si: "sits L conf block c"
  obtains c1 pool where "fcTree L conf g c1" "storeFide L conf kv clock block c = Some c1"
    "RemoveTxs conf (txHash L) (FideTxs block) (fcPool c) = Some pool"
    "c' = c1\<lparr>fcTop := mput (fideSid block) (FideBHash L block) (fcTop c), fcPool := pool\<rparr>"
proof -
  obtain c1 where v: "VerifyBlock L conf block c = Some True" and s: "storeFide L conf kv clock block c = Some c1"
    and rest: "(do { goods \<leftarrow> mapM (onView L block c1) [0..<shards conf];
           if fideParent block = hashAt (fcTop c1) (fideSid block) \<and> list_all id goods
           then do { pool \<leftarrow> RemoveTxs conf (txHash L) (FideTxs block) (fcPool c1);
                     Some (c1\<lparr>fcTop := mput (fideSid block) (FideBHash L block) (fcTop c1), fcPool := pool\<rparr>) }
           else FindBestBranches L conf sched clock' c1 }) = Some c'"
    by (rule Append_stores[OF ap])
  have t1: "fcTree L conf g c1" by (rule storeFide_tree[OF t s f]) (use VerifyBlock_refs[OF v] in blast)
  note eff = storeFide_effect[OF s]
  have fresh: "mget (fcBlocks c) (FideBHash L block) = None" using f by (simp add: newFor_def BlockExist_def)
  have "onView L block c1 i = Some True" if i: "i < shards conf" for i
  proof -
    obtain b where b: "mget (fcBlocks c) (hashAt (fcTop c) i) = Some b" using topsStoredD[OF tp i] by blast
    obtain r where r: "Ref block i = Some r" "isAnc L c r (hashAt (fcTop c) i)" using si i by (auto simp: sits_def)
    have "mget (fcBlocks c1) (hashAt (fcTop c1) i) = Some b" using b fresh by (auto simp: eff(1,3))
    from onView_iff[OF t1 this r(1)] show ?thesis
      using storeFide_anc[OF t t1 s f b, of r] r(2) by (simp add: eff(3))
  qed
  then have "list_all2 (\<lambda>i y. onView L block c1 i = Some y) [0..<shards conf] (replicate (shards conf) True)"
    by (simp add: list_all2_conv_all_nth)
  then have m: "mapM (onView L block c1) [0..<shards conf] = Some (replicate (shards conf) True)"
    unfolding mapM_eq_Some .
  have "list_all id (replicate (shards conf) True)" by (simp add: list_all_iff)
  moreover have "fideParent block = hashAt (fcTop c1) (fideSid block)" using si by (simp add: sits_def eff(3))
  ultimately obtain pool where "RemoveTxs conf (txHash L) (FideTxs block) (fcPool c1) = Some pool"
    "c' = c1\<lparr>fcTop := mput (fideSid block) (FideBHash L block) (fcTop c1), fcPool := pool\<rparr>"
    using rest unfolding m by (auto simp: bind_eq_Some_conv)
  then show ?thesis by (intro that[OF t1 s]) (simp_all add: eff(3,4))
qed

lemma Anc_cong: "fcBlocks c' = fcBlocks c \<Longrightarrow> fcGs c' = fcGs c \<Longrightarrow> isAnc L c' = isAnc L c"
  by (intro ext) (simp add: isAnc_def Anc_def genesisOf_def)

lemma fcTree_cong:
  "fcBlocks c' = fcBlocks c \<Longrightarrow> fcGs c' = fcGs c \<Longrightarrow> fcWeight c' = fcWeight c \<Longrightarrow> fcPath c' = fcPath c \<Longrightarrow>
   fcRefs c' = fcRefs c \<Longrightarrow> fcTree L conf g c' = fcTree L conf g c"
  unfolding fcTree_def genesisOf_def by simp

lemma extension_closed:
  assumes t: "fcTree L conf g c" and cl: "closedView L conf g c" and tp: "topsStored conf g c" and f: "newFor L block c"
    and ap: "Append L conf kv sched clock clock' block c = Some c'" and si: "sits L conf block c"
  shows "fcTree L conf g c' \<and> closedView L conf g c' \<and> topsStored conf g c'"
proof -
  obtain c1 pool where t1: "fcTree L conf g c1" and s: "storeFide L conf kv clock block c = Some c1"
    and c': "c' = c1\<lparr>fcTop := mput (fideSid block) (FideBHash L block) (fcTop c), fcPool := pool\<rparr>"
    by (rule Append_extends[OF t tp f ap si])
  note eff = storeFide_effect[OF s]
  have fresh: "mget (fcBlocks c) (FideBHash L block) = None" using f by (simp add: newFor_def BlockExist_def)
  have anc: "isAnc L c' = isAnc L c1" by (rule Anc_cong) (simp_all add: c')
  have blocks: "fcBlocks c' = fcBlocks c1" by (simp add: c')
  have "fcTree L conf g c' = fcTree L conf g c1" by (rule fcTree_cong) (simp_all add: c')
  then have t': "fcTree L conf g c'" using t1 by simp
  let ?h = "FideBHash L block" and ?i = "fideSid block"
  have tops: "hashAt (fcTop c') i = (if i = ?i then ?h else hashAt (fcTop c) i)" for i by (simp add: c')
  obtain p cs where pv: "?i < shards conf" "block \<noteq> g" "mget (fcBlocks c) (fideParent block) = Some p"
    by (rule storeFide_path[OF t s f])
  have st: "mget (fcBlocks c1) ?h = Some block" by (simp add: eff(1))
  have new: "isAnc L c1 k ?h \<longleftrightarrow> k = ?h \<or> isAnc L c k (fideParent block)" for k
    unfolding isAnc_parent(1)[OF t1 st pv(2)] storeFide_anc[OF t t1 s f pv(3)] ..
  have par: "fideParent block = hashAt (fcTop c) ?i" using si by (simp add: sits_def)
  have view: "isAnc L c' k (hashAt (fcTop c') i) \<longleftrightarrow> isAnc L c k (hashAt (fcTop c) i) \<or> i = ?i \<and> k = ?h"
    if i: "i < shards conf" for i k
  proof (cases "i = ?i")
    case True
    then show ?thesis using new[of k] par by (auto simp: tops anc)
  next
    case False
    obtain b where "mget (fcBlocks c) (hashAt (fcTop c) i) = Some b" using topsStoredD[OF tp i] by blast
    from storeFide_anc[OF t t1 s f this] False show ?thesis by (simp add: tops anc)
  qed
  have "closedView L conf g c'"
    unfolding closedView_def
  proof (intro allI impI)
    fix i k b j r
    assume i: "i < shards conf" and k: "isAnc L c' k (hashAt (fcTop c') i)" and b: "mget (fcBlocks c') k = Some b" "b \<noteq> g"
      and j: "j < shards conf" and r: "Ref b j = Some r"
    have "isAnc L c r (hashAt (fcTop c) j)"
    proof (cases "k = ?h")
      case True
      then have "b = block" using b(1) st by (simp add: blocks)
      then show ?thesis using si j r by (auto simp: sits_def)
    next
      case False
      then have "isAnc L c k (hashAt (fcTop c) i)" "mget (fcBlocks c) k = Some b"
        using k b(1) view[OF i] by (auto simp: blocks eff(1))
      from closedViewD[OF cl i this b(2) j r] show ?thesis .
    qed
    then show "isAnc L c' r (hashAt (fcTop c') j)" using view[OF j] by blast
  qed
  moreover have "topsStored conf g c'"
    unfolding topsStored_def
  proof (intro allI impI)
    fix i assume i: "i < shards conf"
    obtain b where b: "mget (fcBlocks c) (hashAt (fcTop c) i) = Some b" "b = g \<or> fideSid b = i" using topsStoredD[OF tp i] by blast
    then show "\<exists>t. mget (fcBlocks c') (hashAt (fcTop c') i) = Some t \<and> (t = g \<or> fideSid t = i)"
      using fresh by (auto simp: tops blocks eff(1))
  qed
  ultimately show ?thesis using t' by blast
qed

subsection \<open>The search for the best branches\<close>

definition covers :: "schedule \<Rightarrow> bool" where
  \<comment> \<open>an iteration visits every key of the map\<close>
  "covers sched \<longleftrightarrow> (\<forall>l r ks. set ks \<subseteq> set (sched l r ks))"

definition ready :: "Conf \<Rightarrow> FideBlock \<Rightarrow> 'd FideChain \<Rightarrow> hash list \<Rightarrow> hash \<Rightarrow> FideBlock \<Rightarrow> bool" where
  \<comment> \<open>all references of the block are accepted\<close>
  "ready conf g c acc k b \<longleftrightarrow> mget (fcBlocks c) k = Some b \<and>
     (b = g \<or> (\<forall>i < shards conf. \<exists>r\<in>set acc. Ref b i = Some r))"

definition refOrder :: "Conf \<Rightarrow> FideBlock \<Rightarrow> 'd FideChain \<Rightarrow> hash list \<Rightarrow> bool" where
  \<comment> \<open>each block comes after the blocks it refers to\<close>
  "refOrder conf g c acc \<longleftrightarrow> (\<forall>xs k ys. acc = xs @ k # ys \<longrightarrow> (\<exists>b. ready conf g c xs k b))"

definition sInv :: "Lib \<Rightarrow> Conf \<Rightarrow> FideBlock \<Rightarrow> 'd FideChain \<Rightarrow> Search \<Rightarrow> bool" where
  "sInv L conf g c st \<longleftrightarrow>
     (\<forall>k. mget (Bs st) k = (if k \<in> set (accepted st) then None else mget (fcBlocks c) k)) \<and>
     distinct (accepted st) \<and>
     (\<forall>k b. mget (fcBlocks c) k = Some b \<longrightarrow> b \<noteq> g \<longrightarrow> getOr (refCnt st) k 0 =
        int (shards conf) - int (card {i. i < shards conf \<and> (\<exists>r\<in>set (accepted st). Ref b i = Some r)})) \<and>
     (\<forall>k x. mget (Removeable st) k = Some x \<longrightarrow> k \<notin> set (accepted st) \<and>
        (\<exists>b. x = Some b \<and> ready conf g c (accepted st) k b)) \<and>
     refOrder conf g c (accepted st) \<and>
     length (tops st) = shards conf \<and>
     (\<forall>i < shards conf. (tops st ! i = FideBHash L g \<or> tops st ! i \<in> set (accepted st)) \<and>
        (\<exists>t. mget (fcBlocks c) (tops st ! i) = Some t \<and> (t = g \<or> fideSid t = i))) \<and>
     (\<forall>k. getOr (LockMap st) k False \<longrightarrow> (\<exists>b. mget (fcBlocks c) k = Some b \<and> b \<noteq> g))"

lemma sInvD:
  assumes "sInv L conf g c st"
  shows "mget (Bs st) k = (if k \<in> set (accepted st) then None else mget (fcBlocks c) k)"
    "distinct (accepted st)"
    "mget (fcBlocks c) k = Some b \<Longrightarrow> b \<noteq> g \<Longrightarrow> getOr (refCnt st) k 0 =
        int (shards conf) - int (card {i. i < shards conf \<and> (\<exists>r\<in>set (accepted st). Ref b i = Some r)})"
    "mget (Removeable st) k = Some x \<Longrightarrow> k \<notin> set (accepted st) \<and> (\<exists>b. x = Some b \<and> ready conf g c (accepted st) k b)"
    "refOrder conf g c (accepted st)" "length (tops st) = shards conf"
    "i < shards conf \<Longrightarrow> (tops st ! i = FideBHash L g \<or> tops st ! i \<in> set (accepted st)) \<and>
        (\<exists>t. mget (fcBlocks c) (tops st ! i) = Some t \<and> (t = g \<or> fideSid t = i))"
    "getOr (LockMap st) k False \<Longrightarrow> \<exists>b. mget (fcBlocks c) k = Some b \<and> b \<noteq> g"
  using assms unfolding sInv_def by blast+

lemma refOrder_snoc: "refOrder conf g c (acc @ [k]) \<longleftrightarrow> refOrder conf g c acc \<and> (\<exists>b. ready conf g c acc k b)"
proof
  assume l: "refOrder conf g c (acc @ [k])"
  show "refOrder conf g c acc \<and> (\<exists>b. ready conf g c acc k b)"
    unfolding refOrder_def
  proof (intro conjI allI impI)
    fix xs j ys assume "acc = xs @ j # ys"
    then have "acc @ [k] = xs @ j # (ys @ [k])" by simp
    then show "\<exists>b. ready conf g c xs j b" using l unfolding refOrder_def by blast
  qed (use l in \<open>auto simp: refOrder_def\<close>)
next
  assume r: "refOrder conf g c acc \<and> (\<exists>b. ready conf g c acc k b)"
  show "refOrder conf g c (acc @ [k])"
    unfolding refOrder_def
  proof (intro allI impI)
    fix xs j ys assume s: "acc @ [k] = xs @ j # ys"
    show "\<exists>b. ready conf g c xs j b"
    proof (cases ys rule: rev_cases)
      case Nil
      then show ?thesis using s r by simp
    next
      case (snoc zs z)
      then have "acc = xs @ j # zs" using s by simp
      then show ?thesis using r unfolding refOrder_def by blast
    qed
  qed
qed

lemma ready_mono: "ready conf g c acc k b \<Longrightarrow> set acc \<subseteq> set acc' \<Longrightarrow> ready conf g c acc' k b"
  unfolding ready_def by blast

lemma refOrder_ready:
  assumes "refOrder conf g c acc" "k \<in> set acc"
  shows "\<exists>b. ready conf g c acc k b"
proof -
  obtain xs ys where s: "acc = xs @ k # ys" using assms(2) by (auto simp: in_set_conv_decomp)
  then obtain b where "ready conf g c xs k b" using assms(1) unfolding refOrder_def by blast
  then show ?thesis using s ready_mono[of conf g c xs k b acc] by auto
qed

lemma countRef_effect:
  "Bs (countRef h st) = Bs st" "tops (countRef h st) = tops st" "accepted (countRef h st) = accepted st"
  "LockMap (countRef h st) = LockMap st"
  "getOr (refCnt (countRef h st)) k 0 = getOr (refCnt st) k 0 - (if k = h then 1 else 0)"
  "mget (Removeable (countRef h st)) k =
     (if k = h \<and> getOr (refCnt st) h 0 = 1 then Some (mget (Bs st) h) else mget (Removeable st) k)"
  by (auto simp: countRef_def Let_def getOr_mput)

lemma countRefs:
  "Bs (fold countRef cs st) = Bs st \<and> tops (fold countRef cs st) = tops st \<and> accepted (fold countRef cs st) = accepted st \<and>
   LockMap (fold countRef cs st) = LockMap st \<and>
   (\<forall>k. getOr (refCnt (fold countRef cs st)) k 0 = getOr (refCnt st) k 0 - int (count_list cs k)) \<and>
   (\<forall>k x. mget (Removeable (fold countRef cs st)) k = Some x \<longrightarrow> mget (Removeable st) k = Some x \<or>
      (k \<in> set cs \<and> x = mget (Bs st) k \<and> 0 < getOr (refCnt st) k 0 \<and> getOr (refCnt st) k 0 \<le> int (count_list cs k)))"
proof (induction cs arbitrary: st)
  case (Cons h cs)
  note ih = Cons.IH[of "countRef h st", unfolded countRef_effect]
  have rm: "mget (Removeable st) k = Some x \<or>
      (k \<in> set (h # cs) \<and> x = mget (Bs st) k \<and> 0 < getOr (refCnt st) k 0 \<and> getOr (refCnt st) k 0 \<le> int (count_list (h # cs) k))"
    if rm0: "mget (Removeable (fold countRef cs (countRef h st))) k = Some x" for k x
  proof -
    consider "(if k = h \<and> getOr (refCnt st) h 0 = 1 then Some (mget (Bs st) h) else mget (Removeable st) k) = Some x"
      | "k \<in> set cs" "x = mget (Bs st) k" "0 < getOr (refCnt st) k 0 - (if k = h then 1 else 0)"
        "getOr (refCnt st) k 0 - (if k = h then 1 else 0) \<le> int (count_list cs k)"
      using ih rm0 by blast
    then show ?thesis by cases (auto split: if_splits)
  qed
  have "getOr (refCnt (fold countRef cs (countRef h st))) k 0 = getOr (refCnt st) k 0 - int (count_list (h # cs) k)" for k
    using ih by auto
  then show ?case using ih rm by (simp only: fold_simps) blast
qed simp

lemma weight_pos:
  assumes t: "fcTree L conf g c" and b: "mget (fcBlocks c) k = Some b" "b \<noteq> g"
  shows "0 < getOr (fcWeight c) k 0"
proof -
  obtain bs where p: "path fideParent (fcBlocks c) g b bs" "fideSid b < shards conf" "FideBHash L b = k"
    by (rule stored_path[OF t b(1)])
  then have "b \<in> set bs" using b(2) by (cases bs) (auto simp: path_Cons)
  then have "k \<in> below (FideBHash L) fideParent fideSid (genesisOf c) (fcBlocks c) k"
    using b(1) p genesisOf_eq[OF t] by (auto simp: below_def)
  then have "0 < card (below (FideBHash L) fideParent fideSid (genesisOf c) (fcBlocks c) k)"
    using finite_below by (metis card_gt_0_iff empty_iff)
  then show ?thesis using fcTreeD(5)[OF t] by (simp add: weighed_def)
qed

lemma kids_stored:
  assumes t: "fcTree L conf g c" and k: "k \<in> set (getOr (fcPath c) h [])"
  shows "\<exists>b. mget (fcBlocks c) k = Some b \<and> b \<noteq> g"
proof -
  obtain b where "mget (fcBlocks c) k = Some b" "genesisOf c 0 \<noteq> Some b"
    using fcTreeD(6)[OF t] k unfolding linkedKids_def by blast
  then show ?thesis using genesisOf_eq[OF t, of 0] fcTreeD(3)[OF t] by auto
qed

lemma fold_lock: "getOr (fold (\<lambda>d. mput d True) ds m) k False \<longleftrightarrow> k \<in> set ds \<or> getOr m k False"
  by (induction ds arbitrary: m) (auto simp: getOr_mput)

lemma acceptBlock_ok:
  assumes t: "fcTree L conf g c" and inv: "sInv L conf g c st" and k: "mget (Removeable st) k = Some (Some b)"
  shows "\<exists>st'. acceptBlock L c b st = Some st' \<and> sInv L conf g c st' \<and> accepted st' = accepted st @ [k]"
proof -
  let ?n = "shards conf"
  have na: "k \<notin> set (accepted st)" and rd: "ready conf g c (accepted st) k b" using sInvD(4)[OF inv k] by auto
  then have b: "mget (fcBlocks c) k = Some b" by (simp add: ready_def)
  obtain bs where h: "fideSid b < ?n" "FideBHash L b = k" by (rule stored_path[OF t b])
  define st1 where "st1 = st\<lparr>Bs := mdel k (Bs st),
     LockMap := (if length (getOr (fcPath c) k []) > 1 then fold (\<lambda>d. mput d True) (getOr (fcPath c) k []) (LockMap st) else LockMap st)\<rparr>"
  define cs where "cs = getOr (fcRefs c) k []"
  define st2 where "st2 = fold countRef cs st1"
  define st' where "st' = st2\<lparr>tops := (tops st)[fideSid b := k], accepted := accepted st @ [k], Removeable := mdel k (Removeable st2)\<rparr>"
  note eff = countRefs[of cs st1, folded st2_def]
  have s1: "tops st1 = tops st" "accepted st1 = accepted st" "refCnt st1 = refCnt st" "Removeable st1 = Removeable st"
    "\<And>j. mget (Bs st1) j = (if j = k then None else mget (Bs st) j)"
    by (simp_all add: st1_def delete_conv')
  have "acceptBlock L c b st = do { ts \<leftarrow> setSlot (tops st2) (fideSid b) k;
      Some (st2\<lparr>tops := ts, accepted := accepted st2 @ [k], Removeable := mdel k (Removeable st2)\<rparr>) }"
    by (simp only: acceptBlock_def Let_def h(2) st1_def st2_def cs_def)
  moreover have "tops st2 = tops st" "accepted st2 = accepted st" using eff s1(1,2) by simp_all
  ultimately have "acceptBlock L c b st = Some st'"
    using h(1) sInvD(6)[OF inv] by (simp add: setSlot_def st'_def)
  moreover have "sInv L conf g c st'"
  proof -
    have acc: "accepted st' = accepted st @ [k]" by (simp add: st'_def)
    have cnt: "count_list cs j = (case mget (fcBlocks c) j of None \<Rightarrow> 0
        | Some x \<Rightarrow> if x = g then 0 else card {i. i < ?n \<and> Ref x i = Some k})" for j
      unfolding cs_def by (rule fcTreeD(8)[OF t])
    have split: "card {i. i < ?n \<and> (\<exists>r\<in>set (accepted st'). Ref x i = Some r)} =
        card {i. i < ?n \<and> (\<exists>r\<in>set (accepted st). Ref x i = Some r)} + card {i. i < ?n \<and> Ref x i = Some k}" for x
    proof -
      have "{i. i < ?n \<and> (\<exists>r\<in>set (accepted st'). Ref x i = Some r)} =
          {i. i < ?n \<and> (\<exists>r\<in>set (accepted st). Ref x i = Some r)} \<union> {i. i < ?n \<and> Ref x i = Some k}"
        by (auto simp: acc)
      moreover have "{i. i < ?n \<and> (\<exists>r\<in>set (accepted st). Ref x i = Some r)} \<inter> {i. i < ?n \<and> Ref x i = Some k} = {}"
        using na by auto
      ultimately show ?thesis by (simp add: card_Un_disjoint)
    qed
    have refs: "getOr (refCnt st') j 0 = int ?n - int (card {i. i < ?n \<and> (\<exists>r\<in>set (accepted st'). Ref x i = Some r)})"
      if "mget (fcBlocks c) j = Some x" "x \<noteq> g" for j x
      using eff s1(3) sInvD(3)[OF inv that] cnt[of j] that split[of x] by (simp add: st'_def)
    have new: "j \<notin> set (accepted st') \<and> (\<exists>y. x = Some y \<and> ready conf g c (accepted st') j y)"
      if j: "mget (Removeable st') j = Some x" for j x
    proof -
      have jk: "j \<noteq> k" "mget (Removeable st2) j = Some x" using j by (auto simp: st'_def delete_conv' split: if_splits)
      then consider "mget (Removeable st) j = Some x"
        | "j \<in> set cs" "x = mget (Bs st1) j" "0 < getOr (refCnt st) j 0" "getOr (refCnt st) j 0 \<le> int (count_list cs j)"
        using eff s1(3,4) by metis
      then show ?thesis
      proof cases
        case 1
        then obtain y where "x = Some y" "ready conf g c (accepted st) j y" "j \<notin> set (accepted st)"
          using sInvD(4)[OF inv] by blast
        moreover from this(2) have "ready conf g c (accepted st') j y" by (rule ready_mono) (auto simp: acc)
        ultimately show ?thesis using jk(1) by (simp add: acc)
      next
        case 2
        have "0 < count_list cs j" using 2(1) count_list_0_iff[of cs j] by simp
        then obtain y where y: "mget (fcBlocks c) j = Some y" "y \<noteq> g"
          "count_list cs j = card {i. i < ?n \<and> Ref y i = Some k}"
          using cnt[of j] by (auto split: option.splits if_splits)
        have nj: "j \<notin> set (accepted st)"
        proof
          assume "j \<in> set (accepted st)"
          then obtain z where "ready conf g c (accepted st) j z" using refOrder_ready[OF sInvD(5)[OF inv]] by blast
          then have "{i. i < ?n \<and> (\<exists>r\<in>set (accepted st). Ref y i = Some r)} = {..<?n}" using y by (auto simp: ready_def)
          then show False using 2(3) sInvD(3)[OF inv y(1,2)] by simp
        qed
        have "?n \<le> card {i. i < ?n \<and> (\<exists>r\<in>set (accepted st'). Ref y i = Some r)}"
          using 2(4) sInvD(3)[OF inv y(1,2)] y(3) split[of y] by simp
        then have "{i. i < ?n \<and> (\<exists>r\<in>set (accepted st'). Ref y i = Some r)} = {..<?n}"
          by (intro card_seteq) auto
        then have "ready conf g c (accepted st') j y" using y(1) unfolding ready_def by blast
        moreover have "x = Some y" using 2(2) s1(5) jk(1) sInvD(1)[OF inv, of j] nj y(1) by simp
        ultimately show ?thesis using nj jk(1) acc by simp
      qed
    qed
    have lk: "\<exists>x. mget (fcBlocks c) j = Some x \<and> x \<noteq> g" if "getOr (LockMap st') j False" for j
    proof -
      have "LockMap st' = LockMap st1" using eff by (simp add: st'_def)
      then have "getOr (LockMap st) j False \<or> j \<in> set (getOr (fcPath c) k [])"
        using that by (auto simp: st1_def fold_lock split: if_splits)
      then show ?thesis using sInvD(8)[OF inv] kids_stored[OF t] by blast
    qed
    have tp: "(tops st' ! i = FideBHash L g \<or> tops st' ! i \<in> set (accepted st')) \<and>
        (\<exists>t. mget (fcBlocks c) (tops st' ! i) = Some t \<and> (t = g \<or> fideSid t = i))" if "i < ?n" for i
      using sInvD(6)[OF inv] sInvD(7)[OF inv that] b that by (cases "i = fideSid b") (auto simp: st'_def)
    show ?thesis
      unfolding sInv_def
    proof (intro conjI allI impI)
      fix j show "mget (Bs st') j = (if j \<in> set (accepted st') then None else mget (fcBlocks c) j)"
        using eff s1(5)[of j] sInvD(1)[OF inv, of j] by (simp add: st'_def)
    next
      show "distinct (accepted st')" using sInvD(2)[OF inv] na by (simp add: acc)
      show "refOrder conf g c (accepted st')" unfolding acc refOrder_snoc using sInvD(5)[OF inv] rd by blast
      show "length (tops st') = ?n" using sInvD(6)[OF inv] by (simp add: st'_def)
    next
      fix i assume i: "i < ?n"
      show "tops st' ! i = FideBHash L g \<or> tops st' ! i \<in> set (accepted st')"
        "\<exists>t. mget (fcBlocks c) (tops st' ! i) = Some t \<and> (t = g \<or> fideSid t = i)" using tp[OF i] by blast+
    next
      fix j x assume "mget (fcBlocks c) j = Some x" "x \<noteq> g"
      then show "getOr (refCnt st') j 0 = int ?n - int (card {i. i < ?n \<and> (\<exists>r\<in>set (accepted st'). Ref x i = Some r)})"
        by (rule refs)
    next
      fix j x assume j: "mget (Removeable st') j = Some x"
      show "j \<notin> set (accepted st')" "\<exists>b. x = Some b \<and> ready conf g c (accepted st') j b" using new[OF j] by blast+
    next
      fix j assume "getOr (LockMap st') j False"
      then show "\<exists>b. mget (fcBlocks c) j = Some b \<and> b \<noteq> g" by (rule lk)
    qed
  qed
  ultimately show ?thesis by (auto simp: st'_def)
qed

lemma acceptable: "ready conf g c acc k b \<Longrightarrow> mget (fcBlocks c) k = Some b"
  by (simp add: ready_def)

lemma visit_ok:
  assumes t: "fcTree L conf g c" and inv: "sInv L conf g c st"
  shows "\<exists>st' removed'. visit L c k (st, removed) = Some (st', removed') \<and> sInv L conf g c st' \<and>
     (st' = st \<and> removed' = removed \<or> removed' \<and> length (accepted st) < length (accepted st')) \<and>
     (mget (Removeable st) k \<noteq> None \<and> \<not> getOr (LockMap st) k False \<longrightarrow> removed')"
proof (cases "mget (Removeable st) k")
  case (Some x)
  then obtain b where b: "x = Some b" "ready conf g c (accepted st) k b" using sInvD(4)[OF inv] by blast
  have h: "FideBHash L b = k" by (rule stored_path[OF t acceptable[OF b(2)]])
  show ?thesis
  proof (cases "getOr (LockMap st) k False")
    case False
    obtain st' where "acceptBlock L c b st = Some st'" "sInv L conf g c st'" "accepted st' = accepted st @ [k]"
      using acceptBlock_ok[OF t inv, of k b] Some b(1) by blast
    then show ?thesis
      using Some b(1) h False by (intro exI[of _ st'] exI[of _ True]) (simp add: visit_def)
  qed (use Some b(1) h inv in \<open>simp add: visit_def\<close>)
qed (use inv in \<open>simp add: visit_def\<close>)

lemma round_ok:
  assumes t: "fcTree L conf g c" and inv: "sInv L conf g c st"
  shows "\<exists>st' removed'. foldM (visit L c) ks (st, removed) = Some (st', removed') \<and> sInv L conf g c st' \<and>
     (st' = st \<and> removed' = removed \<or> removed' \<and> length (accepted st) < length (accepted st')) \<and>
     ((\<exists>k\<in>set ks. mget (Removeable st) k \<noteq> None \<and> \<not> getOr (LockMap st) k False) \<longrightarrow> removed')"
  using inv
proof (induction ks arbitrary: st removed)
  case (Cons k ks)
  obtain st1 r1 where v: "visit L c k (st, removed) = Some (st1, r1)" "sInv L conf g c st1"
    "st1 = st \<and> r1 = removed \<or> r1 \<and> length (accepted st) < length (accepted st1)"
    "mget (Removeable st) k \<noteq> None \<and> \<not> getOr (LockMap st) k False \<longrightarrow> r1"
    using visit_ok[OF t Cons.prems, of k removed] by blast
  obtain st2 r2 where w: "foldM (visit L c) ks (st1, r1) = Some (st2, r2)" "sInv L conf g c st2"
    "st2 = st1 \<and> r2 = r1 \<or> r2 \<and> length (accepted st1) < length (accepted st2)"
    "(\<exists>k\<in>set ks. mget (Removeable st1) k \<noteq> None \<and> \<not> getOr (LockMap st1) k False) \<longrightarrow> r2"
    using Cons.IH[OF v(2), of r1] by blast
  have "foldM (visit L c) (k # ks) (st, removed) = Some (st2, r2)" using v(1) w(1) by simp
  moreover have "st2 = st \<and> r2 = removed \<or> r2 \<and> length (accepted st) < length (accepted st2)"
    using v(3) w(3) by auto
  moreover have "r2" if "\<exists>j\<in>set (k # ks). mget (Removeable st) j \<noteq> None \<and> \<not> getOr (LockMap st) j False"
    using that v(3,4) w(3,4) by auto
  ultimately show ?case using w(2) by blast
qed simp

lemma heavier_ok:
  assumes t: "fcTree L conf g c" and inv: "sInv L conf g c st"
    and lk: "\<forall>k. mget (Removeable st) k \<noteq> None \<longrightarrow> getOr (LockMap st) k False"
  shows "(0 < maxW \<longrightarrow> mget (Removeable st) best \<noteq> None) \<Longrightarrow>
     \<exists>best' maxW' lastT'. foldM (heavier L c st) ks (best, maxW, lastT) = Some (best', maxW', lastT') \<and>
       (0 < maxW' \<longrightarrow> mget (Removeable st) best' \<noteq> None) \<and>
       ((\<exists>k\<in>set ks. mget (Removeable st) k \<noteq> None) \<or> 0 < maxW \<longrightarrow> 0 < maxW')"
proof (induction ks arbitrary: best maxW lastT)
  case (Cons k ks)
  show ?case
  proof (cases "mget (Removeable st) k")
    case None
    then have "heavier L c st k (best, maxW, lastT) = Some (best, maxW, lastT)" by (simp add: heavier_def)
    then show ?thesis using Cons.IH[OF Cons.prems, of lastT] None by simp
  next
    case (Some x)
    then obtain b where b: "x = Some b" "ready conf g c (accepted st) k b" using sInvD(4)[OF inv] by blast
    have h: "FideBHash L b = k" by (rule stored_path[OF t acceptable[OF b(2)]])
    have "b \<noteq> g" using sInvD(8)[OF inv] lk Some acceptable[OF b(2)] by fastforce
    then have pos: "0 < getOr (fcWeight c) k 0" by (rule weight_pos[OF t acceptable[OF b(2)]])
    define best1 where "best1 = (if getOr (fcWeight c) k 0 > maxW \<or> getOr (fcWeight c) k 0 = maxW \<and> getOr (updataT c) k 0 < lastT then k else best)"
    define maxW1 where "maxW1 = (if getOr (fcWeight c) k 0 > maxW then getOr (fcWeight c) k 0 else maxW)"
    define lastT1 where "lastT1 = (if getOr (fcWeight c) k 0 > maxW \<or> getOr (fcWeight c) k 0 = maxW \<and> getOr (updataT c) k 0 < lastT
      then getOr (updataT c) k 0 else lastT)"
    have "heavier L c st k (best, maxW, lastT) = Some (best1, maxW1, lastT1)"
      using Some b(1) h by (simp add: heavier_def Let_def best1_def maxW1_def lastT1_def)
    moreover have "0 < maxW1" using pos by (simp add: maxW1_def)
    moreover have "mget (Removeable st) best1 \<noteq> None" using Some Cons.prems pos by (auto simp: best1_def)
    ultimately show ?thesis using Cons.IH[of maxW1 best1 lastT1] by (simp only: foldM.simps bind.bind_lunit) blast
  qed
qed simp

lemma dropSibling_ok:
  assumes t: "fcTree L conf g c"
  shows "sInv L conf g c st \<Longrightarrow> mget (Removeable st) best \<noteq> None \<Longrightarrow>
     \<exists>st'. foldM (dropSibling L best sid) ks st = Some st' \<and> sInv L conf g c st' \<and>
       mget (Removeable st') best \<noteq> None \<and> accepted st' = accepted st"
proof (induction ks arbitrary: st)
  case (Cons k ks)
  note inv = Cons.prems(1)
  have "\<exists>st1. dropSibling L best sid k st = Some st1 \<and> sInv L conf g c st1 \<and> mget (Removeable st1) best \<noteq> None \<and>
      accepted st1 = accepted st"
  proof (cases "mget (Removeable st) k")
    case None
    then show ?thesis using Cons.prems by (simp add: dropSibling_def)
  next
    case (Some x)
    then obtain b where b: "x = Some b" "ready conf g c (accepted st) k b" using sInvD(4)[OF inv] by blast
    have h: "FideBHash L b = k" by (rule stored_path[OF t acceptable[OF b(2)]])
    show ?thesis
    proof (cases "fideSid b = sid \<and> k \<noteq> best")
      case True
      let ?st = "st\<lparr>Removeable := mdel k (Removeable st), LockMap := mdel k (LockMap st)\<rparr>"
      have lk: "getOr (mdel k (LockMap st)) j False \<Longrightarrow> getOr (LockMap st) j False" for j
        by (auto simp: getOr_def delete_conv' split: if_splits)
      have "sInv L conf g c ?st"
        unfolding sInv_def
      proof (intro conjI allI impI)
        fix j x assume "mget (Removeable ?st) j = Some x"
        then have "mget (Removeable st) j = Some x" by (auto simp: delete_conv' split: if_splits)
        from sInvD(4)[OF inv this]
        show "j \<notin> set (accepted ?st)" "\<exists>b. x = Some b \<and> ready conf g c (accepted ?st) j b" by auto
      next
        fix j assume "getOr (LockMap ?st) j False"
        then have "getOr (LockMap st) j False" using lk by simp
        from sInvD(8)[OF inv this] show "\<exists>b. mget (fcBlocks c) j = Some b \<and> b \<noteq> g" .
      qed (use sInvD[OF inv] in \<open>simp_all\<close>)
      then show ?thesis using Some b(1) h True Cons.prems(2) by (auto simp: dropSibling_def delete_conv')
    next
      case False
      then show ?thesis using Some b(1) h Cons.prems by (auto simp: dropSibling_def)
    qed
  qed
  then obtain st1 where "dropSibling L best sid k st = Some st1" "sInv L conf g c st1" "mget (Removeable st1) best \<noteq> None"
    "accepted st1 = accepted st" by blast
  with Cons.IH[of st1] show ?case by auto
qed simp

lemma chooseFork_ok:
  assumes t: "fcTree L conf g c" and inv: "sInv L conf g c st" and ne: "Removeable st \<noteq> []" and cov: "covers sched"
    and lk: "\<forall>k. mget (Removeable st) k \<noteq> None \<longrightarrow> getOr (LockMap st) k False"
  shows "\<exists>st'. chooseFork L sched now r c st = Some st' \<and> sInv L conf g c st' \<and> accepted st' = accepted st \<and>
     (\<exists>k. mget (Removeable st') k \<noteq> None \<and> \<not> getOr (LockMap st') k False)"
proof -
  obtain k x where k: "mget (Removeable st) k = Some x"
  proof -
    have "mget (Removeable st) (fst (hd (Removeable st))) = Some (snd (hd (Removeable st)))"
      using ne by (cases "Removeable st") auto
    then show ?thesis by (rule that)
  qed
  then have "k \<in> set (mkeys (Removeable st))" by (force dest: map_of_SomeD)
  then have "k \<in> set (sched 1 r (mkeys (Removeable st)))" using cov unfolding covers_def by blast
  with heavier_ok[OF t inv lk, of 0 EmptyHash "sched 1 r (mkeys (Removeable st))" now] k
  obtain best maxW lastT where best: "foldM (heavier L c st) (sched 1 r (mkeys (Removeable st))) (EmptyHash, 0, now) = Some (best, maxW, lastT)"
    "mget (Removeable st) best \<noteq> None" by auto
  obtain b where b: "mget (fcBlocks c) best = Some b" using best(2) sInvD(4)[OF inv] unfolding ready_def by blast
  obtain st1 where st1: "foldM (dropSibling L best (fideSid b)) (sched 2 r (mkeys (Removeable st))) st = Some st1"
    "sInv L conf g c st1" "mget (Removeable st1) best \<noteq> None" "accepted st1 = accepted st"
    using dropSibling_ok[OF t inv best(2)] by blast
  let ?st = "st1\<lparr>LockMap := mdel best (LockMap st1)\<rparr>"
  have lk: "getOr (mdel best (LockMap st1)) j False \<Longrightarrow> getOr (LockMap st1) j False" for j
    by (auto simp: getOr_def delete_conv' split: if_splits)
  have "sInv L conf g c ?st"
    unfolding sInv_def
  proof (intro conjI allI impI)
    fix j assume "getOr (LockMap ?st) j False"
    then have "getOr (LockMap st1) j False" using lk by simp
    from sInvD(8)[OF st1(2) this] show "\<exists>b. mget (fcBlocks c) j = Some b \<and> b \<noteq> g" .
  next
    fix j x assume "mget (Removeable ?st) j = Some x"
    then have "mget (Removeable st1) j = Some x" by simp
    from sInvD(4)[OF st1(2) this]
    show "j \<notin> set (accepted ?st)" "\<exists>b. x = Some b \<and> ready conf g c (accepted ?st) j b" by auto
  qed (use sInvD[OF st1(2)] in simp_all)
  moreover have "\<not> getOr (LockMap ?st) best False" by (simp add: getOr_def delete_conv')
  ultimately show ?thesis using best(1) b st1 by (auto simp: chooseFork_def)
qed

lemma accepted_bound:
  assumes "fcTree L conf g c" "sInv L conf g c st"
  shows "length (accepted st) \<le> length (fcBlocks c)"
proof -
  have "set (accepted st) \<subseteq> fst ` set (fcBlocks c)"
  proof
    fix k assume "k \<in> set (accepted st)"
    then obtain b where "ready conf g c (accepted st) k b" using refOrder_ready[OF sInvD(5)[OF assms(2)]] by blast
    then show "k \<in> fst ` set (fcBlocks c)" unfolding ready_def by (force dest: map_of_SomeD)
  qed
  then have "card (set (accepted st)) \<le> card (fst ` set (fcBlocks c))" by (intro card_mono) auto
  also have "\<dots> \<le> length (fcBlocks c)" by (metis card_image_le card_length finite_set le_trans)
  finally show ?thesis using sInvD(2)[OF assms(2)] by (simp add: distinct_card)
qed

lemma searchLoop_ends:
  assumes t: "fcTree L conf g c" and cov: "covers sched"
  shows "sInv L conf g c st \<Longrightarrow>
     2 * (length (fcBlocks c) - length (accepted st)) +
       (if \<exists>k. mget (Removeable st) k \<noteq> None \<and> \<not> getOr (LockMap st) k False then 0 else 1) < n \<Longrightarrow>
     \<exists>st'. searchLoop n L sched clock r c st = Some st' \<and> sInv L conf g c st' \<and> Removeable st' = []"
proof (induction n arbitrary: st r)
  case (Suc n)
  note inv = Suc.prems(1)
  let ?open = "\<lambda>st. \<exists>k. mget (Removeable st) k \<noteq> None \<and> \<not> getOr (LockMap st) k False"
  show ?case
  proof (cases "Removeable st = []")
    case True
    then show ?thesis using inv by simp
  next
    case False
    let ?ks = "sched 0 r (mkeys (Removeable st))"
    obtain st1 removed where r: "foldM (visit L c) ?ks (st, False) = Some (st1, removed)" "sInv L conf g c st1"
      "st1 = st \<and> removed = False \<or> removed \<and> length (accepted st) < length (accepted st1)"
      "(\<exists>k\<in>set ?ks. mget (Removeable st) k \<noteq> None \<and> \<not> getOr (LockMap st) k False) \<longrightarrow> removed"
      using round_ok[OF t inv, of ?ks False] by blast
    show ?thesis
    proof (cases removed)
      case True
      have "searchLoop (Suc n) L sched clock r c st = searchLoop n L sched clock (Suc r) c st1"
        using False r(1) True by simp
      moreover have "2 * (length (fcBlocks c) - length (accepted st1)) + (if ?open st1 then 0 else 1) < n"
        using Suc.prems(2) r(3) True accepted_bound[OF t r(2)] by (auto split: if_splits)
      ultimately show ?thesis using Suc.IH[OF r(2)] by presburger
    next
      case closed: False
      have lk: "\<forall>k. mget (Removeable st) k \<noteq> None \<longrightarrow> getOr (LockMap st) k False"
      proof (intro allI impI)
        fix k assume k: "mget (Removeable st) k \<noteq> None"
        then have "k \<in> set (mkeys (Removeable st))" by (force dest: map_of_SomeD)
        then have "k \<in> set ?ks" using cov unfolding covers_def by blast
        then show "getOr (LockMap st) k False" using r(4) closed k by blast
      qed
      have eq: "st1 = st" using r(3) closed by simp
      obtain st2 where c: "chooseFork L sched (clock r) r c st = Some st2" "sInv L conf g c st2"
        "accepted st2 = accepted st" "?open st2"
        using chooseFork_ok[OF t inv False cov lk] by blast
      have "searchLoop (Suc n) L sched clock r c st = searchLoop n L sched clock (Suc r) c st2"
        using False r(1) closed c(1) by (simp add: eq)
      moreover have no: "\<not> ?open st" using lk by blast
      have "2 * (length (fcBlocks c) - length (accepted st2)) + (if ?open st2 then 0 else 1) < n"
        unfolding if_P[OF c(4)] c(3) using Suc.prems(2) unfolding if_not_P[OF no] by linarith
      ultimately show ?thesis using Suc.IH[OF c(2)] by presburger
    qed
  qed
qed simp

lemma startSearch_ok:
  assumes t: "fcTree L conf g c"
  shows "\<exists>st. startSearch L conf c = Some st \<and> sInv L conf g c st \<and> accepted st = []"
proof -
  let ?n = "shards conf"
  have "list_all2 (\<lambda>i y. genesisOf c i = Some y) [0..<?n] (replicate ?n g)"
    by (simp add: list_all2_conv_all_nth genesisOf_eq[OF t])
  then have gs: "mapM (genesisOf c) [0..<?n] = Some (replicate ?n g)" unfolding mapM_eq_Some .
  have "list_all2 (\<lambda>x y. x = Some y) (fcGs c) (replicate ?n g)"
    by (simp add: list_all2_conv_all_nth fcTreeD(1)[OF t])
  then have al: "mapM (\<lambda>g. g) (fcGs c) = Some (replicate ?n g)" unfolding mapM_eq_Some .
  define rm where "rm = fold (\<lambda>g. mput (FideBHash L g) (Some g)) (replicate ?n g) []"
  have rm0: "mget (fold (\<lambda>g. mput (FideBHash L g) (Some g)) gs z) k = Some x \<Longrightarrow>
      mget z k = Some x \<or> (\<exists>g\<in>set gs. k = FideBHash L g \<and> x = Some g)" for gs z k x
  proof (induction gs arbitrary: z)
    case (Cons a gs)
    from Cons.IH[of "mput (FideBHash L a) (Some a) z"] Cons.prems show ?case by (auto split: if_splits)
  qed simp
  have rm: "mget rm k = Some x \<Longrightarrow> k = FideBHash L g \<and> x = Some g" for k x
    using rm0[of "replicate ?n g" "[]" k x] by (auto simp: rm_def)
  let ?st = "\<lparr>Bs = fcBlocks c, refCnt = map (\<lambda>(k, b). (k, int ?n)) (fcBlocks c),
                tops = map (FideBHash L) (replicate ?n g), accepted = [], LockMap = [], Removeable = rm\<rparr>"
  have "startSearch L conf c = Some ?st" unfolding startSearch_def gs al by (simp add: rm_def)
  moreover have "sInv L conf g c ?st"
    unfolding sInv_def
  proof (intro conjI allI impI)
    fix k b assume "mget (fcBlocks c) k = Some b" "b \<noteq> g"
    then show "getOr (refCnt ?st) k 0 = int ?n - int (card {i. i < ?n \<and> (\<exists>r\<in>set (accepted ?st). Ref b i = Some r)})"
      by (simp add: getOr_def map_of_map)
  next
    fix k x assume "mget (Removeable ?st) k = Some x"
    then have "k = FideBHash L g" "x = Some g" using rm by auto
    then show "k \<notin> set (accepted ?st)" "\<exists>b. x = Some b \<and> ready conf g c (accepted ?st) k b"
      using genesis_stored(1)[OF t] by (auto simp: ready_def)
  qed (use genesis_stored(1)[OF t] in \<open>auto simp: refOrder_def getOr_def\<close>)
  ultimately show ?thesis by (intro exI[of _ ?st]) simp
qed

lemma search_ends:
  assumes "fcTree L conf g c" "covers sched"
  shows "\<exists>st. search L conf sched clock c = Some st \<and> sInv L conf g c st \<and> Removeable st = []"
proof -
  obtain st where st: "startSearch L conf c = Some st" "sInv L conf g c st" "accepted st = []"
    using startSearch_ok[OF assms(1)] by blast
  then have "2 * (length (fcBlocks c) - length (accepted st)) +
       (if \<exists>k. mget (Removeable st) k \<noteq> None \<and> \<not> getOr (LockMap st) k False then 0 else 1) < 2 * length (fcBlocks c) + 2" by simp
  from searchLoop_ends[OF assms st(2) this] show ?thesis using st(1) by (auto simp: search_def)
qed

subsection \<open>The invariant of the chain\<close>

definition allValid :: "Lib \<Rightarrow> Conf \<Rightarrow> FideBlock \<Rightarrow> 'd FideChain \<Rightarrow> bool" where
  \<comment> \<open>every stored block has passed \<open>Valid\<close>\<close>
  "allValid L conf g c \<longleftrightarrow> (\<forall>k b i a j x.
     mget (fcBlocks c) k = Some b \<longrightarrow> b \<noteq> g \<longrightarrow> i < shards conf \<longrightarrow> mget (fcBlocks c) (the (Ref b i)) = Some a \<longrightarrow> a \<noteq> g \<longrightarrow>
     j < shards conf \<longrightarrow> Ref a j = Some x \<longrightarrow> isAnc L c x (the (Ref b j)))"

definition fcInv :: "Lib \<Rightarrow> Conf \<Rightarrow> FideBlock \<Rightarrow> 'd FideChain \<Rightarrow> bool" where
  "fcInv L conf g c \<longleftrightarrow> fcTree L conf g c \<and> topsStored conf g c \<and> allValid L conf g c"

lemma moveTops:
  "foldM (moveTop L conf sched) its c = Some c' \<Longrightarrow>
     fcBlocks c' = fcBlocks c \<and> fcGs c' = fcGs c \<and> fcWeight c' = fcWeight c \<and> fcPath c' = fcPath c \<and> fcRefs c' = fcRefs c \<and>
     fcTop c' = fold (\<lambda>(i, t). mput i t) its (fcTop c)"
proof (induction its arbitrary: c)
  case (Cons it its)
  obtain i t where it: "it = (i, t)" by fastforce
  obtain c1 where c1: "moveTop L conf sched (i, t) c = Some c1" "foldM (moveTop L conf sched) its c1 = Some c'"
    using Cons.prems by (auto simp: it bind_eq_Some_conv)
  obtain pool where "c1 = c\<lparr>fcPool := pool, fcTop := mput i t (fcTop c)\<rparr>"
    using c1(1) unfolding moveTop_def case_prod_conv bind_eq_Some_conv by blast
  then show ?case using Cons.IH[OF c1(2)] by (simp add: it)
qed simp

lemma fold_tops:
  "hashAt (fold (\<lambda>(i, t). mput i t) (zip [m..<m + length ts] ts) tp) i =
     (if m \<le> i \<and> i < m + length ts then ts ! (i - m) else hashAt tp i)"
proof (induction ts arbitrary: m tp)
  case (Cons t ts)
  have "[m..<m + length (t # ts)] = m # [Suc m..<Suc m + length ts]" by (simp add: upt_rec)
  then show ?case using Cons.IH[of "Suc m"] by (auto simp: nth_Cons')
qed auto

lemma FindBestBranches_effect:
  assumes t: "fcTree L conf g c" and cov: "covers sched" and fb: "FindBestBranches L conf sched clock c = Some c'"
  shows "\<exists>st. search L conf sched clock c = Some st \<and> sInv L conf g c st \<and>
     fcBlocks c' = fcBlocks c \<and> fcGs c' = fcGs c \<and> fcWeight c' = fcWeight c \<and> fcPath c' = fcPath c \<and> fcRefs c' = fcRefs c \<and>
     (\<forall>i < shards conf. hashAt (fcTop c') i = tops st ! i)"
proof -
  obtain st where st: "search L conf sched clock c = Some st" "sInv L conf g c st" using search_ends[OF t cov] by blast
  then have m: "foldM (moveTop L conf sched) (zip [0..<shards conf] (tops st)) c = Some c'"
    using fb sInvD(6)[OF st(2)] by (simp add: FindBestBranches_def)
  show ?thesis
    using moveTops[OF m] st fold_tops[of 0 "tops st" "fcTop c"] sInvD(6)[OF st(2)] by auto
qed

lemma VerifyBlock_Valid:
  assumes "VerifyBlock L conf block c = Some True"
  shows "Valid L conf block c = Some True"
proof -
  obtain l v where "verifyRemoteBlock L conf block = Some l" "Valid L conf block c = Some v" "(if \<not> v then False else l) = True"
    using assms by (auto simp: VerifyBlock_def bind_eq_Some_conv)
  then show ?thesis by (cases v) simp_all
qed

lemma FideAppend_inv:
  assumes inv: "fcInv L conf g c" and f: "newFor L block c" and cov: "covers sched"
    and ap: "Append L conf kv sched clock clock' block c = Some c'"
  shows "fcInv L conf g c'"
proof -
  have t: "fcTree L conf g c" and tp: "topsStored conf g c" and av: "allValid L conf g c" using inv by (auto simp: fcInv_def)
  obtain c1 where v: "VerifyBlock L conf block c = Some True" and s: "storeFide L conf kv clock block c = Some c1"
    and rest: "(do { goods \<leftarrow> mapM (onView L block c1) [0..<shards conf];
           if fideParent block = hashAt (fcTop c1) (fideSid block) \<and> list_all id goods
           then do { pool \<leftarrow> RemoveTxs conf (txHash L) (FideTxs block) (fcPool c1);
                     Some (c1\<lparr>fcTop := mput (fideSid block) (FideBHash L block) (fcTop c1), fcPool := pool\<rparr>) }
           else FindBestBranches L conf sched clock' c1 }) = Some c'"
    by (rule Append_stores[OF ap])
  have rr: "\<forall>i < shards conf. \<exists>r. Ref block i = Some r \<and> mget (fcBlocks c) r \<noteq> None" using VerifyBlock_refs[OF v] by blast
  have t1: "fcTree L conf g c1" by (rule storeFide_tree[OF t s f rr])
  note eff = storeFide_effect[OF s]
  have fresh: "mget (fcBlocks c) (FideBHash L block) = None" using f by (simp add: newFor_def BlockExist_def)
  have mono: "mget (fcBlocks c1) k = Some b" if "mget (fcBlocks c) k = Some b" for k b
    using that fresh by (auto simp: eff(1))
  have tp1: "topsStored conf g c1" using topsStoredD[OF tp] mono unfolding topsStored_def eff(3) by blast
  have av1: "allValid L conf g c1"
    unfolding allValid_def
  proof (intro allI impI)
    fix k b i a j x
    assume b: "mget (fcBlocks c1) k = Some b" "b \<noteq> g" and i: "i < shards conf"
      and a: "mget (fcBlocks c1) (the (Ref b i)) = Some a" "a \<noteq> g" and j: "j < shards conf" and x: "Ref a j = Some x"
    have old: "\<exists>r q. Ref b l = Some r \<and> mget (fcBlocks c) r = Some q" if "l < shards conf" for l
    proof (cases "k = FideBHash L block")
      case True
      then show ?thesis using b(1) rr that by (auto simp: eff(1))
    next
      case False
      then show ?thesis using b fcTreeD(7)[OF t _ b(2) that] by (auto simp: eff(1))
    qed
    have a': "mget (fcBlocks c) (the (Ref b i)) = Some a" using old[OF i] a(1) mono by fastforce
    have "isAnc L c x (the (Ref b j))"
    proof (cases "k = FideBHash L block")
      case True
      then have "b = block" using b(1) by (simp add: eff(1))
      moreover have "\<forall>i < shards conf. \<forall>a. mget (fcBlocks c) (the (Ref block i)) = Some a \<longrightarrow> a \<noteq> g \<longrightarrow>
          (\<forall>j < shards conf. \<forall>x. Ref a j = Some x \<longrightarrow> isAnc L c x (the (Ref block j)))"
        using VerifyBlock_Valid[OF v] unfolding Valid_iff[OF t rr] by simp
      ultimately show ?thesis using a' a(2) i j x by blast
    next
      case False
      then have "mget (fcBlocks c) k = Some b" using b(1) by (simp add: eff(1))
      then show ?thesis using av b(2) i a' a(2) j x unfolding allValid_def by blast
    qed
    then show "isAnc L c1 x (the (Ref b j))" using old[OF j] storeFide_anc[OF t t1 s f] by fastforce
  qed
  obtain goods where goods: "mapM (onView L block c1) [0..<shards conf] = Some goods" using rest by (auto simp: bind_eq_Some_conv)
  show ?thesis
  proof (cases "fideParent block = hashAt (fcTop c1) (fideSid block) \<and> list_all id goods")
    case True
    then obtain pool where c': "c' = c1\<lparr>fcTop := mput (fideSid block) (FideBHash L block) (fcTop c1), fcPool := pool\<rparr>"
      using rest goods by (auto simp: bind_eq_Some_conv)
    have "isAnc L c' = isAnc L c1" by (rule Anc_cong) (simp_all add: c')
    then have "allValid L conf g c'" using av1 unfolding allValid_def by (simp add: c')
    moreover have "fcTree L conf g c' = fcTree L conf g c1" by (rule fcTree_cong) (simp_all add: c')
    moreover have "mget (fcBlocks c1) (FideBHash L block) = Some block" by (simp add: eff(1))
    then have "topsStored conf g c'" using topsStoredD[OF tp1] unfolding topsStored_def by (simp add: c')
    ultimately show ?thesis using t1 by (simp add: fcInv_def)
  next
    case False
    then have "FindBestBranches L conf sched clock' c1 = Some c'" using rest goods by auto
    then obtain st where st: "sInv L conf g c1 st"
      "fcBlocks c' = fcBlocks c1" "fcGs c' = fcGs c1" "fcWeight c' = fcWeight c1" "fcPath c' = fcPath c1" "fcRefs c' = fcRefs c1"
      "\<forall>i < shards conf. hashAt (fcTop c') i = tops st ! i"
      using FindBestBranches_effect[OF t1 cov] by blast
    have "isAnc L c' = isAnc L c1" by (rule Anc_cong[OF st(2,3)])
    then have "allValid L conf g c'" using av1 unfolding allValid_def by (simp add: st(2))
    moreover have "fcTree L conf g c' = fcTree L conf g c1" by (rule fcTree_cong[OF st(2-6)])
    moreover have "topsStored conf g c'" using sInvD(7)[OF st(1)] st(7) unfolding topsStored_def st(2) by metis
    ultimately show ?thesis using t1 by (simp add: fcInv_def)
  qed
qed

lemma setSlots: "k \<le> m \<Longrightarrow> foldM (\<lambda>i gs. setSlot gs i x) [0..<k] (replicate m y) = Some (replicate k x @ replicate (m - k) y)"
proof (induction k)
  case (Suc k)
  have "(replicate k x @ replicate (m - k) y)[k := x] = replicate (Suc k) x @ replicate (m - Suc k) y"
    by (rule nth_equalityI) (use Suc.prems in \<open>auto simp: nth_append nth_list_update less_Suc_eq simp del: replicate_Suc\<close>)
  then show ?case using Suc by (simp add: foldM_append setSlot_def)
qed simp

lemma NewFideChain_inv:
  assumes new: "NewFideChain L conf idTop shard a db = Some c" and n: "shards conf = ShardAmount conf" "0 < shards conf"
    and ap: "FideBHash L (fideGenesis conf idTop a) \<noteq> idTop"
  shows "fcInv L conf (fideGenesis conf idTop a) c \<and> closedView L conf (fideGenesis conf idTop a) c"
proof -
  let ?n = "shards conf" and ?g = "fideGenesis conf idTop a" and ?h = "FideBHash L (fideGenesis conf idTop a)"
  have gs: "foldM (\<lambda>i gs. setSlot gs i (Some ?g)) [0..<?n] (replicate (ShardAmount conf) None) = Some (replicate ?n (Some ?g))"
    using setSlots[of ?n "ShardAmount conf" "Some ?g" None] n(1) by simp
  have c: "fcBlocks c = fold (\<lambda>i. mput ?h ?g) [0..<?n] []" "fcTop c = fold (\<lambda>i. mput i ?h) [0..<?n] []"
    "fcGs c = replicate ?n (Some ?g)" "fcWeight c = []" "fcPath c = []" "fcRefs c = []"
    using new by (auto simp: NewFideChain_def Let_def gs bind_eq_Some_conv)
  have "k > 0 \<Longrightarrow> fold (\<lambda>i. mput ?h ?g) [0..<k] [] = [(?h, ?g)]" for k
  proof (induction k)
    case (Suc k)
    then show ?case by (cases k) auto
  qed simp
  then have b: "fcBlocks c = [(?h, ?g)]" using n(2) c(1) by simp
  have top: "hashAt (fold (\<lambda>i. mput i ?h) [0..<k] []) i = (if i < k then ?h else EmptyHash)" for k i
    by (induction k) (auto simp: hashAt_def less_Suc_eq)
  have gen: "genesisOf c i = (if i < ?n then Some ?g else None)" for i by (simp add: genesisOf_def slot_def c(3))
  have par: "fideParent ?g = idTop" "fideSid ?g = 0" by (simp_all add: fideParent_def fideSid_def fideGenesis_def)
  have tr: "tree (FideBHash L) fideParent fideSid (genesisOf c) (fcBlocks c)"
    unfolding tree_def
  proof (intro conjI allI impI)
    fix k x assume "mget (fcBlocks c) k = Some x"
    then have "x = ?g" "k = ?h" by (auto simp: b split: if_splits)
    then show "FideBHash L x = k" "\<exists>g bs. genesisOf c (fideSid x) = Some g \<and> path fideParent (fcBlocks c) g x bs"
      using n(2) par(2) by (auto simp: gen intro: path.here)
  next
    fix i g assume "genesisOf c i = Some g"
    then have "g = ?g" by (auto simp: gen split: if_splits)
    then show "mget (fcBlocks c) (FideBHash L g) = Some g" "mget (fcBlocks c) (fideParent g) = None"
      using ap by (auto simp: b par(1))
  qed
  have "below (FideBHash L) fideParent fideSid (genesisOf c) (fcBlocks c) x = {}" for x
    by (auto simp: below_def b gen par(2) path_g split: if_splits)
  then have w: "weighed (FideBHash L) fideParent fideSid (genesisOf c) (fcBlocks c) (fcWeight c)"
    by (simp add: weighed_def getOr_def c(4))
  have l: "linkedKids (FideBHash L) fideParent (genesisOf c) (fcBlocks c) (fcPath c)"
    using n(2) by (auto simp: linkedKids_def getOr_def c(5) b gen)
  have t: "fcTree L conf ?g c"
    unfolding fcTree_def using c(3,6) par n(2) tr w l by (auto simp: b getOr_def)
  moreover have "topsStored conf ?g c" by (simp add: topsStored_def c(2) top b)
  moreover have "allValid L conf ?g c" by (simp add: allValid_def b)
  moreover have "closedView L conf ?g c" by (simp add: closedView_def b)
  ultimately show ?thesis by (simp add: fcInv_def)
qed

subsection \<open>What the chain guarantees\<close>

datatype fideOp =
    FTx Transaction                             \<comment> \<open>a transaction arrives\<close>
  | FReset                                      \<comment> \<open>the pool selects its shards\<close>
  | FBlock schedule clock clock FideBlock       \<comment> \<open>a block arrives; the iterations and the clock of its append\<close>

fun changePool :: "Lib \<Rightarrow> Conf \<Rightarrow> fideOp \<Rightarrow> 'd FideChain \<Rightarrow> 'd FideChain option" where
  "changePool L conf (FTx tx) c = do { pool \<leftarrow> TxPool.Append conf (txHash L) tx (fcPool c); Some (c\<lparr>fcPool := pool\<rparr>) }"
| "changePool L conf FReset c = do { pool \<leftarrow> ResetControl conf (fcPool c); Some (c\<lparr>fcPool := pool\<rparr>) }"
| "changePool L conf (FBlock sched clock clock' block) c = Some c"

fun appendNew :: "Lib \<Rightarrow> Conf \<Rightarrow> 'd KV \<Rightarrow> fideOp \<Rightarrow> 'd FideChain \<Rightarrow> 'd FideChain option" where
  \<comment> \<open>a block that arrives is not stored yet\<close>
  "appendNew L conf kv (FBlock sched clock clock' block) c =
     (if covers sched \<and> newFor L block c then Append L conf kv sched clock clock' block c else None)"
| "appendNew L conf kv op c = changePool L conf op c"

fun extendView :: "Lib \<Rightarrow> Conf \<Rightarrow> 'd KV \<Rightarrow> fideOp \<Rightarrow> 'd FideChain \<Rightarrow> 'd FideChain option" where
  \<comment> \<open>a block that arrives is new and sits on the view\<close>
  "extendView L conf kv (FBlock sched clock clock' block) c =
     (if newFor L block c \<and> sits L conf block c then Append L conf kv sched clock clock' block c else None)"
| "extendView L conf kv op c = changePool L conf op c"

lemma changePool_keeps:
  assumes "changePool L conf op c = Some c'"
  shows "fcInv L conf g c' = fcInv L conf g c" "closedView L conf g c' = closedView L conf g c"
    "fcTree L conf g c' = fcTree L conf g c" "topsStored conf g c' = topsStored conf g c"
proof -
  obtain pool where c: "c' = c\<lparr>fcPool := pool\<rparr>"
  proof (cases op)
    case (FBlock sched clock clock' block)
    then have "c' = c\<lparr>fcPool := fcPool c\<rparr>" using assms by simp
    then show ?thesis by (rule that)
  qed (use assms that in \<open>auto simp: bind_eq_Some_conv\<close>)
  have anc: "isAnc L c' = isAnc L c" by (rule Anc_cong) (simp_all add: c)
  have t: "fcTree L conf g c' = fcTree L conf g c" by (rule fcTree_cong) (simp_all add: c)
  have "allValid L conf g c' = allValid L conf g c" unfolding allValid_def anc by (simp add: c)
  moreover have tp: "topsStored conf g c' = topsStored conf g c" unfolding topsStored_def by (simp add: c)
  ultimately show "fcInv L conf g c' = fcInv L conf g c" unfolding fcInv_def t by simp
  show "closedView L conf g c' = closedView L conf g c" unfolding closedView_def anc by (simp add: c)
  show "fcTree L conf g c' = fcTree L conf g c" "topsStored conf g c' = topsStored conf g c" by (fact t tp)+
qed

interpretation fide_machine: machine "appendNew L conf kv" "fcInv L conf g" for L conf kv g
proof
  fix c op c'
  assume i: "fcInv L conf g c" and e: "appendNew L conf kv op c = Some c'"
  show "fcInv L conf g c'"
  proof (cases op)
    case (FBlock sched clock clock' block)
    then show ?thesis using i e FideAppend_inv by (fastforce split: if_splits)
  qed (use i e changePool_keeps(1)[of L conf op c c' g] in simp_all)
qed

interpretation view_machine: machine "extendView L conf kv" "\<lambda>c. fcTree L conf g c \<and> closedView L conf g c \<and> topsStored conf g c"
  for L conf kv g
proof
  fix c op c'
  assume i: "fcTree L conf g c \<and> closedView L conf g c \<and> topsStored conf g c" and e: "extendView L conf kv op c = Some c'"
  show "fcTree L conf g c' \<and> closedView L conf g c' \<and> topsStored conf g c'"
  proof (cases op)
    case (FBlock sched clock clock' block)
    then have "newFor L block c" "sits L conf block c" "Append L conf kv sched clock clock' block c = Some c'"
      using e by (auto split: if_splits)
    with i show ?thesis by (intro extension_closed[where c = c]) auto
  qed (use i e changePool_keeps(2-4)[of L conf op c c' g] in simp_all)
qed

definition started :: "Lib \<Rightarrow> Conf \<Rightarrow> hash \<Rightarrow> nat \<Rightarrow> nat \<Rightarrow> 'd \<Rightarrow> 'd FideChain \<Rightarrow> bool" where
  \<comment> \<open>the chain of a node that starts, and no collision with the hash of the genesis block\<close>
  "started L conf idTop shard a db c \<longleftrightarrow> NewFideChain L conf idTop shard a db = Some c \<and>
     shards conf = ShardAmount conf \<and> 0 < shards conf \<and> FideBHash L (fideGenesis conf idTop a) \<noteq> idTop"

lemma started_inv:
  "started L conf idTop shard a db c \<Longrightarrow> fcInv L conf (fideGenesis conf idTop a) c \<and> closedView L conf (fideGenesis conf idTop a) c"
  unfolding started_def by (rule NewFideChain_inv) auto

text \<open>C5: In every state a Monosulfide chain can reach by appending new blocks, the search for the best branches
  ends, in any order of its iterations: it accepts blocks in an order in which each one comes after all the blocks it refers to,
  and its top of each shard is an accepted block of the shard, or the genesis block.\<close>
theorem fide_search_terminates:
  assumes "started L conf idTop shard a db c0" "foldM (appendNew L conf kv) ops c0 = Some c" "covers sched"
  shows "\<exists>st. search L conf sched clock c = Some st \<and> Removeable st = [] \<and> distinct (accepted st) \<and>
     refOrder conf (fideGenesis conf idTop a) c (accepted st) \<and>
     (\<forall>i < shards conf. tops st ! i = FideBHash L (fideGenesis conf idTop a) \<or>
        tops st ! i \<in> set (accepted st) \<and> (\<exists>t. mget (fcBlocks c) (tops st ! i) = Some t \<and> fideSid t = i))"
proof -
  let ?g = "fideGenesis conf idTop a"
  have "fcInv L conf ?g c" by (rule fide_machine.run_inv[OF _ assms(2)]) (use started_inv[OF assms(1)] in blast)
  then have t: "fcTree L conf ?g c" by (simp add: fcInv_def)
  obtain st where st: "search L conf sched clock c = Some st" "sInv L conf ?g c st" "Removeable st = []"
    using search_ends[OF t assms(3)] by blast
  have "tops st ! i = FideBHash L ?g \<or>
      tops st ! i \<in> set (accepted st) \<and> (\<exists>t. mget (fcBlocks c) (tops st ! i) = Some t \<and> fideSid t = i)" if i: "i < shards conf" for i
  proof -
    obtain x where x: "mget (fcBlocks c) (tops st ! i) = Some x" "x = ?g \<or> fideSid x = i"
      "tops st ! i = FideBHash L ?g \<or> tops st ! i \<in> set (accepted st)"
      using sInvD(7)[OF st(2) i] by blast
    then show ?thesis using treeD(1)[OF fcTreeD(4)[OF t] x(1)] by auto
  qed
  then show ?thesis using st sInvD(2,5)[OF st(2)] by blast
qed

lemma view_generates:
  assumes "started L conf idTop shard a db c0" "foldM (extendView L conf kv) ops c0 = Some c"
    and "GenerateBlock L conf ord finished now a1 c = Some (Some b)"
  shows "VerifyBlock L conf b c = Some True \<and> sits L conf b c \<and>
     (\<forall>i < shards conf. Ref b i = Some (hashAt (fcTop c) i))"
proof -
  let ?g = "fideGenesis conf idTop a"
  have "fcTree L conf ?g c \<and> closedView L conf ?g c \<and> topsStored conf ?g c"
    by (rule view_machine.run_inv[OF _ assms(2)]) (use started_inv[OF assms(1)] in \<open>simp add: fcInv_def\<close>)
  then show ?thesis using GenerateBlock_sits[of L conf ?g c] GenerateBlock_shape[OF assms(3)] assms(3) by blast
qed

text \<open>C6: As long as every appended block sits on the view of a node (its parent is the top of its shard and its
  references are on the branches of the tops), what the node generates passes its own check and sits on its view again.\<close>
theorem fide_view_extends:
  assumes "started L conf idTop shard a db c0" "foldM (extendView L conf kv) ops c0 = Some c"
    and "GenerateBlock L conf ord finished now a1 c = Some (Some b)"
  shows "VerifyBlock L conf b c = Some True \<and> sits L conf b c \<and>
     (\<forall>i < shards conf. Ref b i = Some (hashAt (fcTop c) i))"
  by (rule view_generates[OF assms])

definition topsAgree :: "Lib \<Rightarrow> Conf \<Rightarrow> FideBlock \<Rightarrow> 'd FideChain \<Rightarrow> bool" where
  \<comment> \<open>what the top of a shard refers to is on the branches of the tops\<close>
  "topsAgree L conf g c \<longleftrightarrow> (\<forall>i < shards conf. \<forall>t. mget (fcBlocks c) (hashAt (fcTop c) i) = Some t \<longrightarrow> t \<noteq> g \<longrightarrow>
     (\<forall>j < shards conf. \<forall>x. Ref t j = Some x \<longrightarrow> isAnc L c x (hashAt (fcTop c) j)))"

lemma Valid_tops_iff:
  assumes t: "fcTree L conf g c" and tp: "topsStored conf g c" and r: "\<forall>i < shards conf. Ref block i = Some (hashAt (fcTop c) i)"
  shows "Valid L conf block c = Some (topsAgree L conf g c)"
proof -
  have st: "\<forall>i < shards conf. \<exists>r. Ref block i = Some r \<and> mget (fcBlocks c) r \<noteq> None"
    using r topsStoredD[OF tp] by fastforce
  show ?thesis unfolding Valid_iff[OF t st] topsAgree_def using r by simp
qed

text \<open>C8: After any run of new blocks, with any forks and searches for the best branches in it, a node can use the block it generates
  exactly when the tops it has chosen agree, that is when what the top of each shard refers to is on the branches of the tops.  When
  they do not, every block it generates fails its own check and makes its own append panic.  The witness is such a run: five
  blocks extend the view; a sibling of the block \<open>X\<close> and a sibling \<open>a\<close> of the block \<open>A\<close> follow, all of them valid.  \<open>A\<close> is accepted first,
  but \<open>a\<close> becomes removable only once \<open>X\<close> is accepted, is then the only candidate of its shard, and is made the top of the
  shard, in place of the branch of weight 3 over \<open>A\<close>.  The top of the other shard still refers to \<open>A\<close>.\<close>
theorem fide_generates_valid_iff:
  assumes "started L conf idTop shard a db c0" "foldM (appendNew L conf kv) ops c0 = Some c"
    and "GenerateBlock L conf ord finished now a1 c = Some (Some b)"
  shows "VerifyBlock L conf b c = Some (topsAgree L conf (fideGenesis conf idTop a) c) \<and>
     (\<not> topsAgree L conf (fideGenesis conf idTop a) c \<longrightarrow> Append L conf kv' sched clock clock' b c = None)"
proof -
  let ?g = "fideGenesis conf idTop a"
  have inv: "fcInv L conf ?g c" by (rule fide_machine.run_inv[OF _ assms(2)]) (use started_inv[OF assms(1)] in blast)
  note s = GenerateBlock_shape[OF assms(3)]
  have "Valid L conf b c = Some (topsAgree L conf ?g c)"
    by (rule Valid_tops_iff) (use inv s in \<open>simp_all add: fcInv_def\<close>)
  then have "VerifyBlock L conf b c = Some (topsAgree L conf ?g c)" using s by (simp add: VerifyBlock_def)
  then show ?thesis by (simp add: Append_def)
qed

text \<open>C7: The check of the references keeps the past of a block causally closed, as long as blocks refer to their own
  parent: whatever a block in the past of a stored block refers to, in any shard, is in the past of that block as well.\<close>
theorem fide_past_closed:
  assumes "started L conf idTop shard a db c0" "foldM (appendNew L conf kv) ops c0 = Some c"
    and own: "\<forall>k b. mget (fcBlocks c) k = Some b \<longrightarrow> b \<noteq> fideGenesis conf idTop a \<longrightarrow> Ref b (fideSid b) = Some (fideParent b)"
    and b: "mget (fcBlocks c) h = Some b" "i < shards conf" "Ref b i = Some r" "isAnc L c k r" "mget (fcBlocks c) k = Some x"
      "b \<noteq> fideGenesis conf idTop a" "x \<noteq> fideGenesis conf idTop a" "j < shards conf" "Ref x j = Some y"
  shows "\<exists>s. Ref b j = Some s \<and> isAnc L c y s"
proof -
  let ?g = "fideGenesis conf idTop a"
  have inv: "fcInv L conf ?g c" by (rule fide_machine.run_inv[OF _ assms(2)]) (use started_inv[OF assms(1)] in blast)
  then have t: "fcTree L conf ?g c" and av: "allValid L conf ?g c" by (auto simp: fcInv_def)
  have valid: "isAnc L c z (the (Ref b j))" if "mget (fcBlocks c) l = Some b" "b \<noteq> ?g" "i < shards conf"
    "mget (fcBlocks c) (the (Ref b i)) = Some a" "a \<noteq> ?g" "j < shards conf" "Ref a j = Some z" for l b i a j z
    using av that unfolding allValid_def by blast
  obtain s where s: "Ref b j = Some s" using fcTreeD(7)[OF t b(1,6,8)] by blast
  have past: "isAnc L c y s" if "path fideParent (fcBlocks c) ?g q qs" "mget (fcBlocks c) l = Some q"
    "\<forall>j y. q \<noteq> ?g \<longrightarrow> j < shards conf \<longrightarrow> Ref q j = Some y \<longrightarrow> isAnc L c y (the (Ref b j))" "isAnc L c k l" for q qs l
    using that
  proof (induction qs arbitrary: q l rule: list.induct)
    case Nil
    then have "k = FideBHash L ?g" using isAnc_iff[OF t Nil.prems(2,1)] by simp
    then show ?case using b(5,7) genesis_stored(1)[OF t] by simp
  next
    case (Cons z qs)
    have q: "q \<noteq> ?g" "path fideParent (fcBlocks c) ?g q (q # qs)" using Cons.prems(1) by (auto simp: path_Cons)
    then obtain p where p: "mget (fcBlocks c) (fideParent q) = Some p" "path fideParent (fcBlocks c) ?g p qs"
      by (auto simp: path_Cons)
    show ?case
    proof (cases "k = l")
      case True
      then have "x = q" using Cons.prems(2) b(5) by simp
      then have "isAnc L c y (the (Ref b j))" using Cons.prems(3) q(1) b(8,9) by blast
      then show ?thesis by (simp add: s)
    next
      case False
      then have k: "isAnc L c k (fideParent q)"
        using isAnc_parent(1)[OF t Cons.prems(2) q(1), of k] Cons.prems(4) by blast
      have sid: "fideSid q < shards conf" by (rule stored_path[OF t Cons.prems(2)])
      have "isAnc L c z' (the (Ref b j'))" if p': "p \<noteq> ?g" "j' < shards conf" "Ref p j' = Some z'" for j' z'
      proof -
        have rq: "Ref q (fideSid q) = Some (fideParent q)" using own Cons.prems(2) q(1) by blast
        obtain m where m: "Ref q j' = Some m" using fcTreeD(7)[OF t Cons.prems(2) q(1) p'(2)] by blast
        have "isAnc L c z' (the (Ref q j'))"
          by (rule valid[OF Cons.prems(2) q(1) sid _ p'(1,2,3)]) (use p(1) rq in simp)
        then have one: "isAnc L c z' m" by (simp add: m)
        have "isAnc L c m (the (Ref b j'))" using Cons.prems(3) q(1) p'(2) m by blast
        from isAnc_trans[OF t one this] show ?thesis .
      qed
      then show ?thesis using Cons.IH[OF p(2,1) _ k] by blast
    qed
  qed
  obtain q where q: "mget (fcBlocks c) r = Some q" using isAnc_stored[OF t b(4)] by blast
  obtain qs where qs: "path fideParent (fcBlocks c) ?g q qs" by (rule stored_path[OF t q])
  have "isAnc L c z (the (Ref b l))" if "q \<noteq> ?g" "l < shards conf" "Ref q l = Some z" for l z
    using valid[OF b(1,6,2) _ that] q b(3) by simp
  from past[OF qs q _ b(4)] this s show ?thesis by blast
qed

subsection \<open>A run with forks\<close>

definition fideLib :: Lib where
  \<comment> \<open>blocks are told apart by a label in the head\<close>
  "fideLib = demoLib\<lparr>sha := \<lambda>_. ''m'', fideHash := \<lambda>h. CHR ''b'' # fStateRoot h\<rparr>"

definition demoFide :: "bytes \<Rightarrow> nat \<Rightarrow> bytes \<Rightarrow> bytes \<Rightarrow> bytes \<Rightarrow> nat \<Rightarrow> FideBlock" where
  \<comment> \<open>a block without transactions for two shards, with its shard, its parent and two references\<close>
  "demoFide label i p r0 r1 a =
     \<lparr>fH = \<lparr>fNonce = 1, ShardIdx = i, fParentHash = p, IntraTxRoot = [], SubBlockRoot = ''m'', fStateRoot = label,
            fTimestamp = 0\<rparr>,
      SubBlocks = [Some \<lparr>CHead = Some \<lparr>RemoteBlockHash = r0, TxToot = []\<rparr>, CBody = Some []\<rparr>,
                   Some \<lparr>CHead = Some \<lparr>RemoteBlockHash = r1, TxToot = []\<rparr>, CBody = Some []\<rparr>],
      addr = a\<rparr>"

definition forkConf :: Conf where
  "forkConf = \<lparr>ShardAmount = 2, MaxBlockSize = 4, txTest = True, pyrConf = shipped, fideConf = InitFideConfig UniRelay 2,
     monoConf = InitMonoxideConfig UniRelay 2\<rparr>"

definition forkStart :: "((bytes \<times> bytes) \<times> bytes) list FideChain" where
  "forkStart = (case NewFideChain fideLib forkConf ''z'' 0 0 [] of Some c \<Rightarrow> c | None \<Rightarrow> undefined)"

definition keyOrder :: schedule where
  "keyOrder = (\<lambda>l r ks. ks)"

definition ticks :: clock where
  "ticks = int"

abbreviation arrive :: "FideBlock \<Rightarrow> fideOp" where
  "arrive \<equiv> FBlock keyOrder ticks ticks"

definition viewBlocks :: "FideBlock list" where
  "viewBlocks = [demoFide ''A'' 0 ''b'' ''b'' ''b'' 1, demoFide ''B'' 0 ''bA'' ''bA'' ''b'' 2,
     demoFide ''C'' 0 ''bB'' ''bB'' ''b'' 3, demoFide ''X'' 1 ''b'' ''b'' ''b'' 4, demoFide ''Y'' 1 ''bX'' ''bA'' ''bX'' 5]"

definition forkBlocks :: "FideBlock list" where
  \<comment> \<open>a sibling of \<open>X\<close>, and a sibling of \<open>A\<close> that refers to \<open>X\<close>\<close>
  "forkBlocks = viewBlocks @ [demoFide ''x'' 1 ''b'' ''b'' ''b'' 6, demoFide ''a'' 0 ''b'' ''b'' ''bX'' 7]"

lemma forkStart: "started fideLib forkConf ''z'' 0 0 [] forkStart"
proof -
  have "NewFideChain fideLib forkConf ''z'' 0 0 ([] :: ((bytes \<times> bytes) \<times> bytes) list) \<noteq> None" by code_simp
  then have "NewFideChain fideLib forkConf ''z'' 0 0 [] = Some forkStart" by (auto simp: forkStart_def)
  moreover have "shards forkConf = ShardAmount forkConf" "0 < shards forkConf" by code_simp+
  moreover have "FideBHash fideLib (fideGenesis forkConf ''z'' 0) \<noteq> ''z''" by code_simp
  ultimately show ?thesis by (simp add: started_def)
qed

lemma newFor_iff: "newFor L block c \<longleftrightarrow> \<not> BlockExist c (FideBHash L block) \<and>
    list_all (\<lambda>x. case x of None \<Rightarrow> True | Some g \<Rightarrow> fideParent g \<noteq> FideBHash L block) (fcGs c)"
  by (force simp: newFor_def genesisOf_def slot_def list_all_iff in_set_conv_nth bind_eq_Some_conv split: option.splits if_splits)

fun arriveAll :: "bool \<Rightarrow> FideBlock list \<Rightarrow> ((bytes \<times> bytes) \<times> bytes) list FideChain \<Rightarrow> ((bytes \<times> bytes) \<times> bytes) list FideChain option" where
  \<comment> \<open>blocks that arrive in a row, with the tests of \<open>appendNew\<close> and of \<open>extendView\<close> in executable form\<close>
  "arriveAll view [] c = Some c"
| "arriveAll view (b # bs) c =
     (if BlockExist c (FideBHash fideLib b) \<or>
         \<not> list_all (\<lambda>x. case x of None \<Rightarrow> True | Some g \<Rightarrow> fideParent g \<noteq> FideBHash fideLib b) (fcGs c) \<or>
         view \<and> \<not> (fideParent b = hashAt (fcTop c) (fideSid b) \<and>
           list_all (\<lambda>i. onView fideLib b c i = Some True) [0..<shards forkConf]) then None
      else Append fideLib forkConf demoKV keyOrder ticks ticks b c \<bind> arriveAll view bs)"

lemma keyOrder_covers: "covers keyOrder"
  by (simp add: covers_def keyOrder_def)

lemma onView_sits: "list_all (\<lambda>i. onView L b c i = Some True) [0..<shards conf] \<Longrightarrow>
    fideParent b = hashAt (fcTop c) (fideSid b) \<Longrightarrow> sits L conf b c"
  by (fastforce simp: sits_def onView_def isAnc_def list_all_iff bind_eq_Some_conv)

lemma arriveAll:
  "arriveAll view bs c = Some c' \<Longrightarrow> foldM (appendNew fideLib forkConf demoKV) (map arrive bs) c = Some c' \<and>
     (view \<longrightarrow> foldM (extendView fideLib forkConf demoKV) (map arrive bs) c = Some c')"
proof (induction view bs c rule: arriveAll.induct)
  case (2 view b bs c)
  then obtain c1 where c1: "newFor fideLib b c" "Append fideLib forkConf demoKV keyOrder ticks ticks b c = Some c1"
    "arriveAll view bs c1 = Some c'" "view \<longrightarrow> sits fideLib forkConf b c"
    using onView_sits[of fideLib b c forkConf] by (auto simp: newFor_iff bind_eq_Some_conv split: if_splits)
  have "foldM (appendNew fideLib forkConf demoKV) (map arrive bs) c1 = Some c' \<and>
     (view \<longrightarrow> foldM (extendView fideLib forkConf demoKV) (map arrive bs) c1 = Some c')"
    using "2.IH" "2.prems" c1(2,3) by (auto split: if_splits)
  then show ?case using c1 keyOrder_covers by simp
qed simp

lemma fork_run: "\<exists>c. foldM (appendNew fideLib forkConf demoKV) (map arrive forkBlocks) forkStart = Some c"
proof -
  have "arriveAll False forkBlocks forkStart \<noteq> None" by code_simp
  then show ?thesis using arriveAll by blast
qed

theorem fide_search_terminates_witness:
  "\<exists>c st. foldM (appendNew fideLib forkConf demoKV) (map arrive forkBlocks) forkStart = Some c \<and>
     search fideLib forkConf keyOrder ticks c = Some st \<and> Removeable st = []"
proof -
  obtain c where c: "foldM (appendNew fideLib forkConf demoKV) (map arrive forkBlocks) forkStart = Some c" using fork_run by blast
  from fide_search_terminates[OF forkStart c keyOrder_covers] c show ?thesis by blast
qed

definition viewOps :: "fideOp list" where
  \<comment> \<open>two transactions, and the blocks that extend the view\<close>
  "viewOps = [FReset, FTx (demoTx ''00000000'' ''00000001''), FTx (demoTx ''00000001'' ''00000000'')] @ map arrive viewBlocks"

lemma view_run:
  "\<exists>c b. foldM (extendView fideLib forkConf demoKV) viewOps forkStart = Some c \<and>
     GenerateBlock fideLib forkConf id False 7 9 c = Some (Some b) \<and> FideTxs b \<noteq> []"
proof -
  have "case foldM (changePool fideLib forkConf) (take 3 viewOps) forkStart of None \<Rightarrow> False | Some c \<Rightarrow>
     (case arriveAll True viewBlocks c of None \<Rightarrow> False | Some c' \<Rightarrow>
        (case GenerateBlock fideLib forkConf id False 7 9 c' of Some (Some b) \<Rightarrow> FideTxs b \<noteq> [] | _ \<Rightarrow> False))"
    by code_simp
  then obtain c c' b where c: "foldM (changePool fideLib forkConf) (take 3 viewOps) forkStart = Some c"
    "arriveAll True viewBlocks c = Some c'" "GenerateBlock fideLib forkConf id False 7 9 c' = Some (Some b)" "FideTxs b \<noteq> []"
    by (auto split: option.splits)
  have "foldM (extendView fideLib forkConf demoKV) (take 3 viewOps) forkStart = Some c"
    using c(1) by (simp add: viewOps_def)
  then have "foldM (extendView fideLib forkConf demoKV) (take 3 viewOps @ map arrive viewBlocks) forkStart = Some c'"
    using arriveAll[OF c(2)] by (simp add: foldM_append)
  then show ?thesis using c(3,4) by (simp add: viewOps_def)
qed

theorem fide_view_extends_witness:
  "\<exists>c b. foldM (extendView fideLib forkConf demoKV) viewOps forkStart = Some c \<and>
     GenerateBlock fideLib forkConf id False 7 9 c = Some (Some b) \<and> FideTxs b \<noteq> [] \<and>
     VerifyBlock fideLib forkConf b c = Some True \<and> sits fideLib forkConf b c"
proof -
  obtain c b where c: "foldM (extendView fideLib forkConf demoKV) viewOps forkStart = Some c"
    "GenerateBlock fideLib forkConf id False 7 9 c = Some (Some b)" "FideTxs b \<noteq> []" using view_run by blast
  from fide_view_extends[OF forkStart c(1,2)] c show ?thesis by blast
qed

definition forkOps :: "fideOp list" where
  \<comment> \<open>two transactions, and the blocks with the two siblings\<close>
  "forkOps = take 3 viewOps @ map arrive forkBlocks"

lemma forked_run:
  "\<exists>c b. foldM (appendNew fideLib forkConf demoKV) forkOps forkStart = Some c \<and>
     GenerateBlock fideLib forkConf id False 7 9 c = Some (Some b) \<and> hashAt (fcTop c) 0 = ''ba'' \<and> hashAt (fcTop c) 1 = ''bY'' \<and>
     getOr (fcWeight c) ''bA'' 0 = 3 \<and> getOr (fcWeight c) ''ba'' 0 = 1 \<and> VerifyBlock fideLib forkConf b c \<noteq> Some True"
proof -
  have "case foldM (changePool fideLib forkConf) (take 3 viewOps) forkStart of None \<Rightarrow> False | Some c \<Rightarrow>
     (case arriveAll False forkBlocks c of None \<Rightarrow> False | Some c' \<Rightarrow> hashAt (fcTop c') 0 = ''ba'' \<and> hashAt (fcTop c') 1 = ''bY'' \<and>
        getOr (fcWeight c') ''bA'' 0 = 3 \<and> getOr (fcWeight c') ''ba'' 0 = 1 \<and>
        (case GenerateBlock fideLib forkConf id False 7 9 c' of Some (Some b) \<Rightarrow> VerifyBlock fideLib forkConf b c' \<noteq> Some True | _ \<Rightarrow> False))"
    by code_simp
  then obtain c c' b where c: "foldM (changePool fideLib forkConf) (take 3 viewOps) forkStart = Some c"
    "arriveAll False forkBlocks c = Some c'" "GenerateBlock fideLib forkConf id False 7 9 c' = Some (Some b)"
    "hashAt (fcTop c') 0 = ''ba''" "hashAt (fcTop c') 1 = ''bY''" "getOr (fcWeight c') ''bA'' 0 = 3" "getOr (fcWeight c') ''ba'' 0 = 1"
    "VerifyBlock fideLib forkConf b c' \<noteq> Some True"
    by (auto split: option.splits)
  have "foldM (appendNew fideLib forkConf demoKV) (take 3 viewOps) forkStart = Some c"
    using c(1) by (simp add: viewOps_def)
  then have "foldM (appendNew fideLib forkConf demoKV) forkOps forkStart = Some c'"
    using arriveAll[OF c(2)] by (simp add: foldM_append forkOps_def)
  then show ?thesis using c(3-) by blast
qed

theorem fide_generates_valid_iff_witness:
  "\<exists>c b. foldM (appendNew fideLib forkConf demoKV) forkOps forkStart = Some c \<and>
     GenerateBlock fideLib forkConf id False 7 9 c = Some (Some b) \<and> hashAt (fcTop c) 0 = ''ba'' \<and> hashAt (fcTop c) 1 = ''bY'' \<and>
     getOr (fcWeight c) ''bA'' 0 = 3 \<and> getOr (fcWeight c) ''ba'' 0 = 1 \<and>
     VerifyBlock fideLib forkConf b c = Some False \<and> Append fideLib forkConf demoKV keyOrder ticks ticks b c = None"
proof -
  obtain c b where c: "foldM (appendNew fideLib forkConf demoKV) forkOps forkStart = Some c"
    "GenerateBlock fideLib forkConf id False 7 9 c = Some (Some b)" "hashAt (fcTop c) 0 = ''ba''" "hashAt (fcTop c) 1 = ''bY''"
    "getOr (fcWeight c) ''bA'' 0 = 3" "getOr (fcWeight c) ''ba'' 0 = 1" "VerifyBlock fideLib forkConf b c \<noteq> Some True" using forked_run by blast
  from fide_generates_valid_iff[OF forkStart c(1,2), where kv' = demoKV and sched = keyOrder and clock = ticks and clock' = ticks] c(7)
  have "VerifyBlock fideLib forkConf b c = Some False \<and> Append fideLib forkConf demoKV keyOrder ticks ticks b c = None" by auto
  with c(1-6) show ?thesis by blast
qed

lemma past_run:
  "\<exists>c. foldM (appendNew fideLib forkConf demoKV) (map arrive viewBlocks) forkStart = Some c \<and>
     list_all (\<lambda>(k, b). b = fideGenesis forkConf ''z'' 0 \<or> Ref b (fideSid b) = Some (fideParent b)) (fcBlocks c) \<and>
     mget (fcBlocks c) ''bY'' = Some (demoFide ''Y'' 1 ''bX'' ''bA'' ''bX'' 5) \<and>
     mget (fcBlocks c) ''bA'' = Some (demoFide ''A'' 0 ''b'' ''b'' ''b'' 1) \<and>
     isAnc fideLib c ''bA'' ''bA''"
proof -
  have "case arriveAll True viewBlocks forkStart of None \<Rightarrow> False | Some c \<Rightarrow>
     list_all (\<lambda>(k, b). b = fideGenesis forkConf ''z'' 0 \<or> Ref b (fideSid b) = Some (fideParent b)) (fcBlocks c) \<and>
     mget (fcBlocks c) ''bY'' = Some (demoFide ''Y'' 1 ''bX'' ''bA'' ''bX'' 5) \<and>
     mget (fcBlocks c) ''bA'' = Some (demoFide ''A'' 0 ''b'' ''b'' ''b'' 1) \<and>
     (case Anc fideLib c ''bA'' of None \<Rightarrow> False | Some m \<Rightarrow> mget m ''bA'' \<noteq> None)"
    by code_simp
  then show ?thesis using arriveAll by (fastforce simp: isAnc_def split: option.splits)
qed

theorem fide_past_closed_witness:
  "\<exists>c. foldM (appendNew fideLib forkConf demoKV) (map arrive viewBlocks) forkStart = Some c \<and> isAnc fideLib c ''b'' ''bX''"
proof -
  obtain c where c: "foldM (appendNew fideLib forkConf demoKV) (map arrive viewBlocks) forkStart = Some c"
     "list_all (\<lambda>(k, b). b = fideGenesis forkConf ''z'' 0 \<or> Ref b (fideSid b) = Some (fideParent b)) (fcBlocks c)"
     "mget (fcBlocks c) ''bY'' = Some (demoFide ''Y'' 1 ''bX'' ''bA'' ''bX'' 5)"
     "mget (fcBlocks c) ''bA'' = Some (demoFide ''A'' 0 ''b'' ''b'' ''b'' 1)" "isAnc fideLib c ''bA'' ''bA''"
    using past_run by blast
  have own: "\<forall>k b. mget (fcBlocks c) k = Some b \<longrightarrow> b \<noteq> fideGenesis forkConf ''z'' 0 \<longrightarrow> Ref b (fideSid b) = Some (fideParent b)"
    using c(2) by (fastforce simp: list_all_iff dest: map_of_SomeD)
  have refs: "0 < shards forkConf" "Ref (demoFide ''Y'' 1 ''bX'' ''bA'' ''bX'' 5) 0 = Some ''bA''"
    "demoFide ''Y'' 1 ''bX'' ''bA'' ''bX'' 5 \<noteq> fideGenesis forkConf ''z'' 0"
    "demoFide ''A'' 0 ''b'' ''b'' ''b'' 1 \<noteq> fideGenesis forkConf ''z'' 0" "1 < shards forkConf"
    "Ref (demoFide ''A'' 0 ''b'' ''b'' ''b'' 1) 1 = Some ''b''" "Ref (demoFide ''Y'' 1 ''bX'' ''bA'' ''bX'' 5) 1 = Some ''bX''"
    by code_simp+
  from fide_past_closed[OF forkStart c(1) own c(3) refs(1,2) c(5,4) refs(3-6)] refs(7) c(1) show ?thesis by auto
qed

end
