(* ===== verification/Pyramid.thy ===== *)
theory Pyramid
  imports BlockTree
begin

text \<open>
  \<^verbatim>\<open>src/pyramid/\<close>: a b-shard (bridge shard) also keeps the chains of its i-shards, and its cross blocks extend all
  these chains at once: the head of a block maps shards to parent hashes.  The definitions take the shard of the chain
  (\<open>own\<close>) and its related i-shards (\<open>rel\<close>), which the code reads through \<open>ownerShard\<close>, and the top hash of the identity chain
  (\<open>idTop\<close>).

  \<open>printChain\<close> only prints, but it follows parent hashes and panics on one that is not stored, so that it is
  modelled; the fuel is an argument, and running out of it (\<open>Unfinished\<close>) is told apart from the panic (\<open>NilBlock\<close>).  The loops that package transactions
  again while there are none see the pool of each attempt (\<open>pools\<close>), since transactions arrive meanwhile.  A map with no
  entries and \<open>nil\<close> are both \<open>[]\<close>, as after gob coding.
\<close>

record 'd PyrChain =
  pcStorage :: 'd
  pcPool :: Pool
  pcBlocks :: "(hash, StdBlock) gomap"
  pcTop :: "(nat, hash) gomap"
  TopHashToBeConfirmed :: "(nat, bool) gomap"
  pcNonce :: "64 word"

abbreviation distribution :: "Conf \<Rightarrow> bool list list" where
  "distribution conf \<equiv> ShardDistribution (pyrConf conf)"

definition Controls :: "Conf \<Rightarrow> nat \<Rightarrow> nat \<Rightarrow> bool option" where
  "Controls conf own r = cell (distribution conf) own r"

definition relatedB :: "Conf \<Rightarrow> nat \<Rightarrow> nat list option" where
  "relatedB conf sid =
     filterM (\<lambda>i. do { d \<leftarrow> cell (distribution conf) i sid; Some (d \<and> i \<noteq> sid) }) [0..<pyrShardAmount (pyrConf conf)]"

definition relatedI :: "Conf \<Rightarrow> nat \<Rightarrow> nat list option" where
  "relatedI conf sid =
     filterM (\<lambda>i. do { d \<leftarrow> cell (distribution conf) sid i; Some (d \<and> i \<noteq> sid) }) [0..<pyrShardAmount (pyrConf conf)]"

definition IsBShard :: "nat list \<Rightarrow> bool" where
  "IsBShard rel \<longleftrightarrow> length rel > 0"

definition GenStateRoot :: bytes where
  "GenStateRoot = ''STATE_ROOT''"

definition NewPyrChain :: "Conf \<Rightarrow> nat \<Rightarrow> 'd \<Rightarrow> 'd PyrChain option" where
  "NewPyrChain conf own db =
     do { pool \<leftarrow> NewTxPool conf own;
          Some \<lparr>pcStorage = db, pcPool = pool, pcBlocks = [], pcTop = [], TopHashToBeConfirmed = [], pcNonce = 0\<rparr> }"

definition originBlock :: "Lib \<Rightarrow> hash \<Rightarrow> int \<Rightarrow> nat \<Rightarrow> StdBlock" where
  "originBlock L idTop now shardId =
     emptyStdBlock\<lparr>sH := \<lparr>ParentHashes = [(shardId, idTop)], MerkleRoot = GenTxRoot (sha L) (txHash L) [],
       StateRoot = GenStateRoot, Timestamp = now, sNonce = 0, Bits = 0\<rparr>\<rparr>"

definition RecordTx :: "Lib \<Rightarrow> Conf \<Rightarrow> Transaction \<Rightarrow> 'd PyrChain \<Rightarrow> 'd PyrChain option" where
  "RecordTx L conf tx c = do { pool \<leftarrow> TxPool.Append conf (txHash L) tx (pcPool c); Some (c\<lparr>pcPool := pool\<rparr>) }"

subsection \<open>Generation\<close>

fun innerTry :: "Conf \<Rightarrow> mapOrder \<Rightarrow> (nat \<Rightarrow> Pool) \<Rightarrow> nat \<Rightarrow> Transaction list \<Rightarrow> nat \<Rightarrow> Transaction list option option" where
  \<comment> \<open>the loop with \<open>cnt\<close> attempts left, \<open>Some None\<close> for \<open>nil\<close>; what the last attempt packages is not used\<close>
  "innerTry conf ord pools k txs 0 = Some None"
| "innerTry conf ord pools k txs (Suc cnt) =
     (if txs \<noteq> [] then Some (Some txs)
      else do { txs' \<leftarrow> PackageInnerTxs conf ord (pools k); innerTry conf ord pools (Suc k) txs' cnt })"

definition GenerateInternalBlock ::
  "Lib \<Rightarrow> Conf \<Rightarrow> mapOrder \<Rightarrow> (nat \<Rightarrow> Pool) \<Rightarrow> nat \<Rightarrow> 'd PyrChain \<Rightarrow> StdBlock option option" where
  "GenerateInternalBlock L conf ord pools own c =
     do { txs0 \<leftarrow> PackageInnerTxs conf ord (pools 0);
          r \<leftarrow> innerTry conf ord pools 1 txs0 3;
          Some (map_option (\<lambda>txs.
            \<lparr>sH = \<lparr>ParentHashes = [(own, hashAt (pcTop c) own)], MerkleRoot = GenTxRoot (sha L) (txHash L) txs,
                   StateRoot = GenStateRoot, Timestamp = 0, sNonce = pcNonce c + 1, Bits = 0\<rparr>,
             sB = \<lparr>Transactions = txs, BInterface = None\<rparr>\<rparr>) r) }"

fun crossTry :: "Conf \<Rightarrow> mapOrder \<Rightarrow> (nat \<Rightarrow> Pool) \<Rightarrow> nat \<Rightarrow> Transaction list \<Rightarrow> nat \<Rightarrow> Transaction list option" where
  "crossTry conf ord pools k txs 0 = Some []"
| "crossTry conf ord pools k txs (Suc cnt) =
     (if txs \<noteq> [] then Some txs
      else do { txs' \<leftarrow> PackageCrossTxs conf ord (pools k); crossTry conf ord pools (Suc k) txs' cnt })"

definition GenerateCrossBlock ::
  "Lib \<Rightarrow> Conf \<Rightarrow> mapOrder \<Rightarrow> (nat \<Rightarrow> Pool) \<Rightarrow> nat \<Rightarrow> nat list \<Rightarrow> 'd PyrChain \<Rightarrow> StdBlock option" where
  "GenerateCrossBlock L conf ord pools own rel c =
     do { txs0 \<leftarrow> PackageCrossTxs conf ord (pools 0);
          txs \<leftarrow> crossTry conf ord pools 1 txs0 8;
          Some \<lparr>sH = \<lparr>ParentHashes = fold (\<lambda>i. mput i (hashAt (pcTop c) i)) (rel @ [own]) [],
                      MerkleRoot = GenTxRoot (sha L) (txHash L) txs, StateRoot = GenStateRoot, Timestamp = 0,
                      sNonce = pcNonce c + 1 + 10000, Bits = 0\<rparr>,
                sB = \<lparr>Transactions = txs, BInterface = None\<rparr>\<rparr> }"

subsection \<open>Verification and appending\<close>

definition countRelated :: "Conf \<Rightarrow> nat \<Rightarrow> Transaction \<Rightarrow> bool option" where
  \<comment> \<open>the loop body of \<open>_countRelateTxs\<close>, whose panics matter\<close>
  "countRelated conf own tx =
     do { s \<leftarrow> SInShard conf tx;
          r \<leftarrow> RInShard conf tx;
          a \<leftarrow> Controls conf own s;
          b \<leftarrow> (if a then Controls conf own r else Some False);
          Some (b \<or> own = s \<or> own = r) }"

definition VerifyBlock :: "Lib \<Rightarrow> Conf \<Rightarrow> nat \<Rightarrow> StdBlock \<Rightarrow> bool option" where
  "VerifyBlock L conf own block =
     do { mapM (countRelated conf own) (Transactions (sB block));
          Some (GenTxRoot (sha L) (txHash L) (Transactions (sB block)) = MerkleRoot (sH block)) }"

datatype walkEnd = Unfinished | NilBlock | EndsAt StdBlock   \<comment> \<open>out of fuel; a panic on a block that is not stored; the loop ends\<close>

fun walkBack :: "nat \<Rightarrow> hash \<Rightarrow> nat \<Rightarrow> (hash, StdBlock) gomap \<Rightarrow> StdBlock \<Rightarrow> walkEnd" where
  \<comment> \<open>the loop of \<open>printChain\<close>\<close>
  "walkBack 0 idTop i blocks b = Unfinished"
| "walkBack (Suc n) idTop i blocks b =
     (if ParentHashes (sH b) = [] then EndsAt b
      else let preHash = hashAt (ParentHashes (sH b)) i
           in if preHash = idTop then EndsAt b
              else (case mget blocks preHash of None \<Rightarrow> NilBlock | Some b' \<Rightarrow> walkBack n idTop i blocks b'))"

definition printChain :: "nat \<Rightarrow> hash \<Rightarrow> 'd PyrChain \<Rightarrow> nat \<Rightarrow> walkEnd" where
  "printChain fuel idTop c i =
     (case mget (pcBlocks c) (hashAt (pcTop c) i) of None \<Rightarrow> NilBlock | Some b \<Rightarrow> walkBack fuel idTop i (pcBlocks c) b)"

definition returned :: "walkEnd \<Rightarrow> StdBlock option" where
  "returned r = (case r of EndsAt b \<Rightarrow> Some b | _ \<Rightarrow> None)"

definition crossTop :: "Conf \<Rightarrow> nat \<Rightarrow> hash \<Rightarrow> nat \<times> hash \<Rightarrow> (nat, hash) gomap \<Rightarrow> (nat, hash) gomap option" where
  \<comment> \<open>the loop over the parent hashes: a controlled shard whose top is the parent moves to the block\<close>
  "crossTop conf own h = (\<lambda>(i, p) top.
     do { ctl \<leftarrow> Controls conf own i;
          Some (if ctl \<and> hashAt top i = p then mput i h top else top) })"

definition linkBlock :: "Lib \<Rightarrow> Conf \<Rightarrow> 'd KV \<Rightarrow> nat \<Rightarrow> StdBlock \<Rightarrow> nat \<Rightarrow> 'd PyrChain \<Rightarrow> (bool \<times> 'd PyrChain) option" where
  \<comment> \<open>\<open>Append\<close> of a legal block up to where it prints; whether it prints\<close>
  "linkBlock L conf kv own block sid c =
     (let h = StdHash L block; txs = Transactions (sB block)
      in do { db \<leftarrow> AddBlock kv h (EncodeH L (sH block)) (encStd L block) (pcStorage c);
              let c1 = c\<lparr>pcStorage := db, pcNonce := pcNonce c + 1,
                        pcBlocks := mput h (StdLight block) (pcBlocks c), pcTop := mput sid h (pcTop c)\<rparr>
              in case txs of
                   [] \<Rightarrow> Some (False, c1)
                 | tx # _ \<Rightarrow>
                     do { pool \<leftarrow> RemoveTxs conf (txHash L) txs (pcPool c1);
                          s \<leftarrow> SInShard conf tx;
                          r \<leftarrow> RInShard conf tx;
                          if s = r then Some (False, c1\<lparr>pcPool := pool\<rparr>)
                          else do { top \<leftarrow> foldM (crossTop conf own h) (ParentHashes (sH block)) (pcTop c1);
                                    Some (True, c1\<lparr>pcPool := pool, pcTop := top\<rparr>) } } })"

definition Append ::
  "nat \<Rightarrow> Lib \<Rightarrow> Conf \<Rightarrow> 'd KV \<Rightarrow> hash \<Rightarrow> nat \<Rightarrow> nat list \<Rightarrow> StdBlock \<Rightarrow> nat \<Rightarrow> 'd PyrChain \<Rightarrow> 'd PyrChain option" where
  \<comment> \<open>\<open>None\<close> when it does not return: it panics, or the fuel of \<open>printChain\<close> is used up\<close>
  "Append fuel L conf kv idTop own rel block sid c =
     do { isLegal \<leftarrow> VerifyBlock L conf own block;
          if \<not> isLegal then Some c
          else do { (cross, c2) \<leftarrow> linkBlock L conf kv own block sid c;
                    if \<not> cross then Some c2
                    else do { mapM (\<lambda>i. returned (printChain fuel idTop c2 i)) (rel @ [own]); Some c2 } } }"

definition InitOriginBlocks ::
  "nat \<Rightarrow> Lib \<Rightarrow> Conf \<Rightarrow> 'd KV \<Rightarrow> hash \<Rightarrow> (nat \<Rightarrow> int) \<Rightarrow> nat \<Rightarrow> nat list \<Rightarrow> 'd PyrChain \<Rightarrow> 'd PyrChain option" where
  \<comment> \<open>no code calls it\<close>
  "InitOriginBlocks fuel L conf kv idTop now own rel c =
     foldM (\<lambda>i c. Append fuel L conf kv idTop own rel (originBlock L idTop (now i) i) i c) (own # rel) c"

definition AppendIShardIBlock ::
  "nat \<Rightarrow> Lib \<Rightarrow> Conf \<Rightarrow> 'd KV \<Rightarrow> hash \<Rightarrow> StdBlock \<Rightarrow> nat \<Rightarrow> 'd PyrChain \<Rightarrow> 'd PyrChain option" where
  \<comment> \<open>the block is made light before it is stored\<close>
  "AppendIShardIBlock fuel L conf kv idTop block shardId c =
     do { pool \<leftarrow> RemoveTxs conf (txHash L) (Transactions (sB block)) (pcPool c);
          let h = StdHash L block;
              c1 = c\<lparr>pcPool := pool, pcTop := mput shardId h (pcTop c), pcBlocks := mput h (StdLight block) (pcBlocks c)\<rparr>
          in do { returned (printChain fuel idTop c1 shardId);
                  db \<leftarrow> AddBlock kv h (EncodeH L (sH block)) (encStd L (StdLight block)) (pcStorage c1);
                  Some (c1\<lparr>pcStorage := db\<rparr>) } }"

definition lockTop :: "nat \<Rightarrow> hash \<Rightarrow> 'd PyrChain \<Rightarrow> 'd PyrChain" where
  \<comment> \<open>what the answer of an i-shard to a lock request does to the chain of the b-shard\<close>
  "lockTop remoteSID h c =
     c\<lparr>pcTop := mput remoteSID h (pcTop c), TopHashToBeConfirmed := mput remoteSID True (TopHashToBeConfirmed c)\<rparr>"

definition GetBlock :: "Lib \<Rightarrow> 'd KV \<Rightarrow> hash \<Rightarrow> 'd PyrChain \<Rightarrow> StdBlock option" where
  "GetBlock L kv h c = do { byteBlock \<leftarrow> kvGetBlock kv h (pcStorage c); StdDecode L (Some byteBlock) }"

definition UnconfirmedInternal :: "nat \<Rightarrow> 'd PyrChain \<Rightarrow> nat option" where
  "UnconfirmedInternal own c = do { l \<leftarrow> cell (TxLists (pcPool c)) own own; Some (length l) }"

definition UnconfirmedCrossTxsLen :: "Conf \<Rightarrow> nat \<Rightarrow> 'd PyrChain \<Rightarrow> int option" where
  "UnconfirmedCrossTxsLen conf own c =
     do { ns \<leftarrow> mapM (\<lambda>i. if i = own then Some 0
                    else do { a \<leftarrow> cell (TxLists (pcPool c)) i own; b \<leftarrow> cell (TxLists (pcPool c)) own i;
                              Some (length a + length b) }) [0..<pyrShardAmount (pyrConf conf)];
          u \<leftarrow> UnconfirmedInternal own c;
          Some (int (sum_list ns) - int u) }"

subsection \<open>What appending does\<close>

lemma all2_ex: "list_all2 P xs ys \<Longrightarrow> x \<in> set xs \<Longrightarrow> \<exists>y. P x y"
  by (induction rule: list_all2_induct) auto

lemma Append_cases:
  assumes "Append fuel L conf kv idTop own rel block sid c = Some c'" "VerifyBlock L conf own block = Some True"
  shows "(Transactions (sB block) = [] \<longrightarrow> pcTop c' = mput sid (StdHash L block) (pcTop c) \<and> pcPool c' = pcPool c) \<and>
    pcBlocks c' = mput (StdHash L block) (StdLight block) (pcBlocks c) \<and>
    (\<forall>tx txs s r. Transactions (sB block) = tx # txs \<longrightarrow> SInShard conf tx = Some s \<longrightarrow> RInShard conf tx = Some r \<longrightarrow>
       RemoveTxs conf (txHash L) (tx # txs) (pcPool c) = Some (pcPool c') \<and>
       (if s = r then pcTop c' = mput sid (StdHash L block) (pcTop c)
        else foldM (crossTop conf own (StdHash L block)) (ParentHashes (sH block)) (mput sid (StdHash L block) (pcTop c)) = Some (pcTop c') \<and>
             (\<forall>i\<in>set (own # rel). returned (printChain fuel idTop c' i) \<noteq> None)))"
proof -
  let ?h = "StdHash L block"
  obtain db where db: "AddBlock kv ?h (EncodeH L (sH block)) (encStd L block) (pcStorage c) = Some db"
    using assms by (auto simp: Append_def linkBlock_def Let_def bind_eq_Some_conv)
  let ?c1 = "c\<lparr>pcStorage := db, pcNonce := pcNonce c + 1, pcBlocks := mput ?h (StdLight block) (pcBlocks c), pcTop := mput sid ?h (pcTop c)\<rparr>"
  show ?thesis
  proof (cases "Transactions (sB block)")
    case Nil
    then have "c' = ?c1" using assms db by (simp add: Append_def linkBlock_def Let_def)
    then show ?thesis using Nil by simp
  next
    case (Cons tx txs)
    then obtain pool s r where sr: "RemoveTxs conf (txHash L) (tx # txs) (pcPool c) = Some pool" "SInShard conf tx = Some s" "RInShard conf tx = Some r"
      using assms db by (auto simp: Append_def linkBlock_def Let_def bind_eq_Some_conv)
    show ?thesis
    proof (cases "s = r")
      case True
      then have "c' = ?c1\<lparr>pcPool := pool\<rparr>" using assms db Cons sr by (simp add: Append_def linkBlock_def Let_def)
      then show ?thesis using Cons sr True by simp
    next
      case False
      then obtain tp ps where tp: "foldM (crossTop conf own ?h) (ParentHashes (sH block)) (mput sid ?h (pcTop c)) = Some tp"
        "mapM (\<lambda>i. returned (printChain fuel idTop (?c1\<lparr>pcPool := pool, pcTop := tp\<rparr>) i)) (rel @ [own]) = Some ps"
        "c' = ?c1\<lparr>pcPool := pool, pcTop := tp\<rparr>"
        using assms db Cons sr by (auto simp: Append_def linkBlock_def Let_def bind_eq_Some_conv)
      have "list_all2 (\<lambda>i p. returned (printChain fuel idTop c' i) = Some p) (rel @ [own]) ps" using tp(2,3) by (simp add: mapM_eq_Some)
      then have "\<forall>i\<in>set (own # rel). returned (printChain fuel idTop c' i) \<noteq> None"
        using all2_ex by fastforce
      then show ?thesis using Cons sr False tp(1,3) by simp
    qed
  qed
qed

lemma crossTops:
  assumes "foldM (crossTop conf own h) ps tp = Some tp'" "distinct (map fst ps)"
  shows "hashAt tp' i = (if Controls conf own i = Some True \<and> mget ps i = Some (hashAt tp i) then h else hashAt tp i)"
  using assms
proof (induction ps arbitrary: tp)
  case (Cons x ps)
  obtain j p where x: "x = (j, p)" by fastforce
  obtain tp1 ctl where t: "Controls conf own j = Some ctl" "tp1 = (if ctl \<and> hashAt tp j = p then mput j h tp else tp)"
    "foldM (crossTop conf own h) ps tp1 = Some tp'"
    using Cons.prems(1) by (auto simp: x crossTop_def bind_eq_Some_conv)
  have nj: "mget ps j = None" using Cons.prems(2) by (auto simp: x map_of_eq_None_iff)
  have ih: "hashAt tp' i = (if Controls conf own i = Some True \<and> mget ps i = Some (hashAt tp1 i) then h else hashAt tp1 i)"
    using Cons.IH[OF t(3)] Cons.prems(2) by (simp add: x)
  show ?case
  proof (cases "i = j")
    case True
    then show ?thesis using ih t(1,2) nj by (auto simp: x)
  next
    case False
    then have "hashAt tp1 i = hashAt tp i" by (simp add: t(2))
    then show ?thesis using ih False by (simp add: x)
  qed
qed simp

lemma mget_tops: "mget (fold (\<lambda>i. mput i (f i)) is m) j = (if j \<in> set is then Some (f j) else mget m j)"
  by (induction "is" arbitrary: m) auto

lemma distinct_tops: "distinct (map fst m) \<Longrightarrow> distinct (map fst (fold (\<lambda>i. mput i (f i)) is m))"
  by (induction "is" arbitrary: m) (auto simp: distinct_update)

lemma GenerateCrossBlock_parents:
  assumes "GenerateCrossBlock L conf ord pools own rel c = Some b"
  shows "mget (ParentHashes (sH b)) i = (if i \<in> set (own # rel) then Some (hashAt (pcTop c) i) else None)"
    "distinct (map fst (ParentHashes (sH b)))" "GenTxRoot (sha L) (txHash L) (Transactions (sB b)) = MerkleRoot (sH b)"
proof -
  have b: "ParentHashes (sH b) = fold (\<lambda>i. mput i (hashAt (pcTop c) i)) (rel @ [own]) []"
    "MerkleRoot (sH b) = GenTxRoot (sha L) (txHash L) (Transactions (sB b))"
    using assms by (auto simp: GenerateCrossBlock_def bind_eq_Some_conv)
  show "mget (ParentHashes (sH b)) i = (if i \<in> set (own # rel) then Some (hashAt (pcTop c) i) else None)"
    unfolding b(1) mget_tops by simp
  show "distinct (map fst (ParentHashes (sH b)))" unfolding b(1) by (rule distinct_tops) simp
  show "GenTxRoot (sha L) (txHash L) (Transactions (sB b)) = MerkleRoot (sH b)" using b(2) by simp
qed

subsection \<open>Chains without origin blocks\<close>

text \<open>
  The chains of all shards in one epoch, with the blocks that have been generated: every block a node appends is one of them, and the top a
  b-shard stores at a lock is the top of the chain of the i-shard.
\<close>

record 'd PyrWorld =
  pwChain :: "nat \<Rightarrow> 'd PyrChain"
  generated :: "StdBlock list"

datatype pyrEvent =
    PRecord nat Transaction
  | PInternal nat mapOrder "nat \<Rightarrow> Pool"     \<comment> \<open>\<open>GenerateInternalBlock\<close>\<close>
  | PCross nat mapOrder "nat \<Rightarrow> Pool"        \<comment> \<open>\<open>GenerateCrossBlock\<close>\<close>
  | PAppend nat nat StdBlock nat
  | PSync nat nat StdBlock nat               \<comment> \<open>\<open>AppendIShardIBlock\<close>\<close>
  | PLock nat nat                            \<comment> \<open>the answer of an i-shard to the lock of a b-shard\<close>

definition setChain :: "nat \<Rightarrow> 'd PyrChain \<Rightarrow> 'd PyrWorld \<Rightarrow> 'd PyrWorld" where
  "setChain n c w = w\<lparr>pwChain := (pwChain w)(n := c)\<rparr>"

definition generate :: "StdBlock option \<Rightarrow> 'd PyrWorld \<Rightarrow> 'd PyrWorld" where
  "generate b w = (case b of None \<Rightarrow> w | Some b \<Rightarrow> w\<lparr>generated := b # generated w\<rparr>)"

fun pyrStep ::
  "Lib \<Rightarrow> Conf \<Rightarrow> 'd KV \<Rightarrow> hash \<Rightarrow> (nat \<Rightarrow> nat list) \<Rightarrow> pyrEvent \<Rightarrow> 'd PyrWorld \<Rightarrow> 'd PyrWorld option" where
  "pyrStep L conf kv idTop rel (PRecord n tx) w = do { c \<leftarrow> RecordTx L conf tx (pwChain w n); Some (setChain n c w) }"
| "pyrStep L conf kv idTop rel (PInternal n ord pools) w =
     do { b \<leftarrow> GenerateInternalBlock L conf ord pools n (pwChain w n); Some (generate b w) }"
| "pyrStep L conf kv idTop rel (PCross n ord pools) w =
     do { b \<leftarrow> GenerateCrossBlock L conf ord pools n (rel n) (pwChain w n); Some (generate (Some b) w) }"
| "pyrStep L conf kv idTop rel (PAppend fuel n b sid) w =
     (if b \<in> set (generated w)
      then do { c \<leftarrow> Append fuel L conf kv idTop n (rel n) b sid (pwChain w n); Some (setChain n c w) } else None)"
| "pyrStep L conf kv idTop rel (PSync fuel n b sid) w =
     (if b \<in> set (generated w)
      then do { c \<leftarrow> AppendIShardIBlock fuel L conf kv idTop b sid (pwChain w n); Some (setChain n c w) } else None)"
| "pyrStep L conf kv idTop rel (PLock n i) w = Some (setChain n (lockTop i (hashAt (pcTop (pwChain w i)) i) (pwChain w n)) w)"

definition pyrStart :: "Conf \<Rightarrow> 'd PyrWorld \<Rightarrow> bool" where
  \<comment> \<open>the chains of the nodes that have started\<close>
  "pyrStart conf w \<longleftrightarrow> generated w = [] \<and>
     (\<forall>n. pcBlocks (pwChain w n) = [] \<and> pcTop (pwChain w n) = [] \<and>
        (n < ShardAmount conf \<longrightarrow> (\<exists>db. NewPyrChain conf n db = Some (pwChain w n))))"

definition rootless :: "hash \<Rightarrow> StdBlock \<Rightarrow> bool" where
  \<comment> \<open>\<open>printChain\<close> does not stop at the block\<close>
  "rootless idTop b \<longleftrightarrow> ParentHashes (sH b) \<noteq> [] \<and> (\<forall>i. hashAt (ParentHashes (sH b)) i \<noteq> idTop)"

definition noRoot :: "hash \<Rightarrow> (hash \<Rightarrow> nat) \<Rightarrow> 'd PyrChain \<Rightarrow> bool" where
  \<comment> \<open>no stored block ends a chain, the parents of a block come before it, and no top is the top of the identity chain\<close>
  "noRoot idTop rank c \<longleftrightarrow>
     (\<forall>h b. mget (pcBlocks c) h = Some b \<longrightarrow> rootless idTop b \<and> (\<forall>i. rank (hashAt (ParentHashes (sH b)) i) < rank h)) \<and>
     (\<forall>i. hashAt (pcTop c) i \<noteq> idTop)"

definition hashOrdered :: "Lib \<Rightarrow> hash \<Rightarrow> (hash \<Rightarrow> nat) \<Rightarrow> StdBlock \<Rightarrow> bool" where
  \<comment> \<open>what the hash function gives: the hash of the block is not the one of the top of the identity chain, and hashes form no cycle\<close>
  "hashOrdered L idTop rank b \<longleftrightarrow> StdHash L b \<noteq> idTop \<and> (\<forall>i. rank (hashAt (ParentHashes (sH b)) i) < rank (StdHash L b))"

lemma walkBack_noRoot:
  assumes "noRoot idTop rank c" "rootless idTop b"
  shows "returned (walkBack n idTop i (pcBlocks c) b) = None"
  using assms(2)
proof (induction n arbitrary: b)
  case (Suc n)
  then show ?case using assms(1) by (auto simp: rootless_def noRoot_def Let_def returned_def split: option.split)
qed (simp add: returned_def)

lemma printChain_noRoot: "noRoot idTop rank c \<Longrightarrow> returned (printChain n idTop c i) = None"
  using walkBack_noRoot[of idTop rank c _ n i]
  by (auto simp: printChain_def noRoot_def returned_def split: option.split)

lemma stored_length: "finite {k. mget m k \<noteq> None} \<and> card {k. mget m k \<noteq> None} \<le> length m"
proof -
  have s: "{k. mget m k \<noteq> None} \<subseteq> fst ` set m" by (auto simp: map_of_eq_None_iff)
  then have "finite {k. mget m k \<noteq> None}" by (rule finite_subset) simp
  then show ?thesis using card_mono[OF _ s] card_image_le[of "set m" fst] card_length[of m] by simp
qed

lemma walkBack_ends:
  assumes nr: "noRoot idTop rank c" and b: "\<forall>i. rank (hashAt (ParentHashes (sH b)) i) < r"
    and n: "card {k. mget (pcBlocks c) k \<noteq> None \<and> rank k < r} < n"
  shows "walkBack n idTop i (pcBlocks c) b \<noteq> Unfinished"
  using b n
proof (induction n arbitrary: b r)
  case (Suc n)
  let ?p = "hashAt (ParentHashes (sH b)) i"
  let ?S = "\<lambda>r. {k. mget (pcBlocks c) k \<noteq> None \<and> rank k < r}"
  show ?case
  proof (cases "mget (pcBlocks c) ?p")
    case (Some b')
    have b': "\<forall>i. rank (hashAt (ParentHashes (sH b')) i) < rank ?p" using nr Some by (simp add: noRoot_def)
    have fin: "finite (?S r)" using stored_length[of "pcBlocks c"] by (auto intro: finite_subset[of _ "{k. mget (pcBlocks c) k \<noteq> None}"])
    have "?S (rank ?p) \<subset> ?S r"
    proof
      have p: "rank ?p < r" using Suc.prems(1) by blast
      then show "?S (rank ?p) \<subseteq> ?S r" by auto
      have "?p \<in> ?S r" "?p \<notin> ?S (rank ?p)" using Some p by auto
      then show "?S (rank ?p) \<noteq> ?S r" by blast
    qed
    from psubset_card_mono[OF fin this] have "card (?S (rank ?p)) < n" using Suc.prems(2) by linarith
    from Suc.IH[OF b' this] have "walkBack n idTop i (pcBlocks c) b' \<noteq> Unfinished" .
    then show ?thesis using Some by (simp add: Let_def)
  qed (simp add: Let_def)
qed simp

lemma printChain_panics:
  assumes nr: "noRoot idTop rank c" and n: "length (pcBlocks c) \<le> n"
  shows "printChain n idTop c i = NilBlock"
proof -
  have "printChain n idTop c i \<noteq> Unfinished"
  proof (cases "mget (pcBlocks c) (hashAt (pcTop c) i)")
    case (Some b)
    let ?t = "hashAt (pcTop c) i"
    let ?D = "{k. mget (pcBlocks c) k \<noteq> None}"
    have "{k. mget (pcBlocks c) k \<noteq> None \<and> rank k < rank ?t} \<subset> ?D" using Some by (auto simp del: not_None_eq)
    then have "card {k. mget (pcBlocks c) k \<noteq> None \<and> rank k < rank ?t} < n"
      using psubset_card_mono[of ?D] stored_length[of "pcBlocks c"] n by (meson le_trans less_le_trans)
    moreover have "\<forall>i. rank (hashAt (ParentHashes (sH b)) i) < rank ?t" using nr Some by (simp add: noRoot_def)
    ultimately show ?thesis using walkBack_ends[OF nr, of b "rank ?t"] Some by (simp add: printChain_def)
  qed (simp add: printChain_def)
  then show ?thesis using printChain_noRoot[OF nr, of n i] by (cases "printChain n idTop c i") (simp_all add: returned_def)
qed

lemma noRoot_link:
  assumes nr: "noRoot idTop rank c" and b: "rootless idTop b" "hashOrdered L idTop rank b"
    and l: "linkBlock L conf kv own b sid c = Some (cross, c2)"
  shows "noRoot idTop rank c2"
proof -
  let ?h = "StdHash L b"
  have h: "?h \<noteq> idTop" using b(2) by (simp add: hashOrdered_def)
  have t0: "\<forall>i. hashAt (mput sid ?h (pcTop c)) i \<noteq> idTop" using nr h by (simp add: noRoot_def)
  have keep: "\<forall>i. hashAt tp' i \<noteq> idTop"
    if "foldM (crossTop conf own ?h) ps tp = Some tp'" "\<forall>i. hashAt tp i \<noteq> idTop" for ps tp tp'
    using that
  proof (induction ps arbitrary: tp)
    case (Cons x ps)
    then obtain tp1 where "crossTop conf own ?h x tp = Some tp1" "foldM (crossTop conf own ?h) ps tp1 = Some tp'"
      by (auto simp: bind_eq_Some_conv)
    moreover from this(1) have "\<forall>i. hashAt tp1 i \<noteq> idTop"
      using Cons.prems(2) h by (cases x) (auto simp: crossTop_def bind_eq_Some_conv split: if_splits)
    ultimately show ?case using Cons.IH by blast
  qed simp
  have c2: "pcBlocks c2 = mput ?h (StdLight b) (pcBlocks c) \<and>
      (pcTop c2 = mput sid ?h (pcTop c) \<or> foldM (crossTop conf own ?h) (ParentHashes (sH b)) (mput sid ?h (pcTop c)) = Some (pcTop c2))"
    using l by (cases "Transactions (sB b)") (auto simp: linkBlock_def Let_def bind_eq_Some_conv split: if_splits)
  then have "\<forall>i. hashAt (pcTop c2) i \<noteq> idTop" using keep t0 by metis
  then show ?thesis using nr b c2 by (auto simp: noRoot_def hashOrdered_def StdLight_def rootless_def)
qed

lemma GenerateInternalBlock_parents:
  assumes "GenerateInternalBlock L conf ord pools own c = Some (Some b)"
  shows "ParentHashes (sH b) = [(own, hashAt (pcTop c) own)]" "GenTxRoot (sha L) (txHash L) (Transactions (sB b)) = MerkleRoot (sH b)"
  using assms by (auto simp: GenerateInternalBlock_def bind_eq_Some_conv)

definition pwInv :: "Lib \<Rightarrow> hash \<Rightarrow> (hash \<Rightarrow> nat) \<Rightarrow> 'd PyrWorld \<Rightarrow> bool" where
  "pwInv L idTop rank w \<longleftrightarrow> (\<forall>n. noRoot idTop rank (pwChain w n)) \<and>
     (\<forall>b\<in>set (generated w). rootless idTop b \<and> GenTxRoot (sha L) (txHash L) (Transactions (sB b)) = MerkleRoot (sH b))"

lemma pwInv_setChain: "pwInv L idTop rank w \<Longrightarrow> noRoot idTop rank c \<Longrightarrow> pwInv L idTop rank (setChain n c w)"
  by (simp add: pwInv_def setChain_def)

lemma generated_parents:
  assumes nr: "noRoot idTop rank c" and ne: "idTop \<noteq> EmptyHash"
    and b: "GenerateInternalBlock L conf ord pools own c = Some (Some b) \<or> GenerateCrossBlock L conf ord pools own rel c = Some b"
  shows "rootless idTop b \<and> GenTxRoot (sha L) (txHash L) (Transactions (sB b)) = MerkleRoot (sH b)"
  using b
proof
  assume "GenerateInternalBlock L conf ord pools own c = Some (Some b)"
  from GenerateInternalBlock_parents[OF this] show ?thesis
    using nr ne by (auto simp: rootless_def noRoot_def hashAt_def split: option.split)
next
  assume "GenerateCrossBlock L conf ord pools own rel c = Some b"
  note p = GenerateCrossBlock_parents[OF this]
  have "ParentHashes (sH b) \<noteq> []" using p(1)[of own] by auto
  moreover have "hashAt (ParentHashes (sH b)) i \<noteq> idTop" for i
    using p(1)[of i] nr ne by (simp add: hashAt_def[of "ParentHashes (sH b)"] noRoot_def)
  ultimately show ?thesis using p(3) by (simp add: rootless_def)
qed

lemma pwInv_step:
  assumes i: "pwInv L idTop rank w" and ne: "idTop \<noteq> EmptyHash" and e: "pyrStep L conf kv idTop rel ev w = Some w'"
    and ch: "\<forall>b\<in>set (generated w). hashOrdered L idTop rank b"
  shows "pwInv L idTop rank w'"
proof -
  have nr: "noRoot idTop rank (pwChain w n)" for n using i by (simp add: pwInv_def)
  have gen: "pwInv L idTop rank (w\<lparr>generated := b # generated w\<rparr>)"
    if "rootless idTop b \<and> GenTxRoot (sha L) (txHash L) (Transactions (sB b)) = MerkleRoot (sH b)" for b
    using i that by (auto simp: pwInv_def)
  have bl: "rootless idTop b" "hashOrdered L idTop rank b" if "b \<in> set (generated w)" for b
    using i ch that by (simp_all add: pwInv_def)
  show ?thesis
  proof (cases ev)
    case (PRecord n tx)
    then obtain c where "RecordTx L conf tx (pwChain w n) = Some c" "w' = setChain n c w" using e by (auto simp: bind_eq_Some_conv)
    then show ?thesis using nr[of n] by (auto intro!: pwInv_setChain[OF i] simp: RecordTx_def bind_eq_Some_conv noRoot_def)
  next
    case (PInternal n ord pools)
    then obtain r where "GenerateInternalBlock L conf ord pools n (pwChain w n) = Some r" "w' = generate r w"
      using e by (auto simp: bind_eq_Some_conv)
    then show ?thesis using i gen[OF generated_parents[OF nr ne disjI1]] by (cases r) (simp_all add: generate_def)
  next
    case (PCross n ord pools)
    then obtain b where "GenerateCrossBlock L conf ord pools n (rel n) (pwChain w n) = Some b" "w' = generate (Some b) w"
      using e by (auto simp: bind_eq_Some_conv)
    then show ?thesis using gen[OF generated_parents[OF nr ne disjI2]] by (simp add: generate_def)
  next
    case (PAppend fuel n b sid)
    then obtain c where c: "b \<in> set (generated w)" "Append fuel L conf kv idTop n (rel n) b sid (pwChain w n) = Some c" "w' = setChain n c w"
      using e by (auto simp: bind_eq_Some_conv split: if_splits)
    have "c = pwChain w n \<or> (\<exists>cross. linkBlock L conf kv n b sid (pwChain w n) = Some (cross, c))"
      using c(2) by (auto simp: Append_def bind_eq_Some_conv split: if_splits)
    then show ?thesis using c(3) nr[of n] noRoot_link[OF nr bl[OF c(1)]] by (auto intro: pwInv_setChain[OF i])
  next
    case (PSync fuel n b sid)
    then obtain c where c: "b \<in> set (generated w)" "AppendIShardIBlock fuel L conf kv idTop b sid (pwChain w n) = Some c" "w' = setChain n c w"
      using e by (auto simp: bind_eq_Some_conv split: if_splits)
    have "pcBlocks c = mput (StdHash L b) (StdLight b) (pcBlocks (pwChain w n)) \<and> pcTop c = mput sid (StdHash L b) (pcTop (pwChain w n))"
      using c(2) by (auto simp: AppendIShardIBlock_def Let_def bind_eq_Some_conv)
    then have "noRoot idTop rank c" using nr[of n] bl[OF c(1)] by (auto simp: noRoot_def hashOrdered_def StdLight_def rootless_def)
    then show ?thesis using c(3) by (simp add: pwInv_setChain[OF i])
  next
    case (PLock n j)
    have "noRoot idTop rank (lockTop j (hashAt (pcTop (pwChain w j)) j) (pwChain w n))"
      using nr[of n] nr[of j] by (auto simp: lockTop_def noRoot_def)
    then show ?thesis using e PLock by (auto intro: pwInv_setChain[OF i])
  qed
qed

lemma generated_grows: "foldM (pyrStep L conf kv idTop rel) es w = Some w' \<Longrightarrow> set (generated w) \<subseteq> set (generated w')"
proof (induction es arbitrary: w)
  case (Cons e es)
  then obtain w1 where w1: "pyrStep L conf kv idTop rel e w = Some w1" "foldM (pyrStep L conf kv idTop rel) es w1 = Some w'"
    by (auto simp: bind_eq_Some_conv)
  have "set (generated w) \<subseteq> set (generated w1)"
    using w1(1) by (cases e) (auto simp: bind_eq_Some_conv setChain_def generate_def split: if_splits option.splits)
  then show ?case using Cons.IH[OF w1(2)] by blast
qed simp

lemma pwInv_run:
  "foldM (pyrStep L conf kv idTop rel) es w = Some w' \<Longrightarrow> idTop \<noteq> EmptyHash \<Longrightarrow> \<forall>b\<in>set (generated w'). hashOrdered L idTop rank b \<Longrightarrow>
   pwInv L idTop rank w \<Longrightarrow> pwInv L idTop rank w'"
proof (induction es arbitrary: w)
  case (Cons e es)
  then obtain w1 where w1: "pyrStep L conf kv idTop rel e w = Some w1" "foldM (pyrStep L conf kv idTop rel) es w1 = Some w'"
    by (auto simp: bind_eq_Some_conv)
  have "set (generated w) \<subseteq> set (generated w')" by (rule generated_grows[OF Cons.prems(1)])
  then have "\<forall>b\<in>set (generated w). hashOrdered L idTop rank b" using Cons.prems(3) by blast
  from pwInv_step[OF Cons.prems(4,2) w1(1) this] show ?case using Cons.IH[OF w1(2)] Cons.prems(2,3) by blast
qed simp

lemma pyrStart_inv: "pyrStart conf w \<Longrightarrow> idTop \<noteq> EmptyHash \<Longrightarrow> pwInv L idTop rank w"
  by (simp add: pyrStart_def pwInv_def noRoot_def hashAt_def)

text \<open>C9: No cross block gets through.  No code calls \<open>InitOriginBlocks\<close>, so that no block of a chain names the top of the identity
  chain, where \<open>printChain\<close> stops.  In any run of the shards from their start, as long as no block has the hash of that top and the hashes
  form no cycle, the append of a generated block with transactions between shards never returns at any node, for any fuel, and not
  for want of it: whenever it gets as far as to print, the walk through each chain ends in the panic on a block that is not stored, within as
  many steps as there are stored blocks.  The append of any generated block as one of an i-shard, which prints as well, never returns either.\<close>
theorem cross_append_panics:
  assumes "pyrStart conf w0" "idTop \<noteq> EmptyHash" "foldM (pyrStep L conf kv idTop rel) es w0 = Some w"
    and "\<forall>b\<in>set (generated w). StdHash L b \<noteq> idTop \<and> (\<forall>i. (rank :: hash \<Rightarrow> nat) (hashAt (ParentHashes (sH b)) i) < rank (StdHash L b))"
    and "b \<in> set (generated w)" "Transactions (sB b) = tx # txs" "SInShard conf tx = Some s" "RInShard conf tx = Some r" "s \<noteq> r"
  shows "Append fuel L conf kv idTop n (rel n) b sid (pwChain w n) = None \<and>
    (\<forall>b'\<in>set (generated w). AppendIShardIBlock fuel L conf kv idTop b' sid (pwChain w n) = None) \<and>
    (\<forall>cross c2. linkBlock L conf kv n b sid (pwChain w n) = Some (cross, c2) \<longrightarrow>
       cross \<and> (\<forall>m i. length (pcBlocks c2) \<le> m \<longrightarrow> printChain m idTop c2 i = NilBlock))"
proof -
  have ch: "\<forall>b\<in>set (generated w). hashOrdered L idTop rank b" using assms(4) by (simp add: hashOrdered_def)
  have inv: "pwInv L idTop rank w" by (rule pwInv_run[OF assms(3,2) ch pyrStart_inv[OF assms(1,2)]])
  have nr: "noRoot idTop rank (pwChain w n)" and bl: "rootless idTop b" "hashOrdered L idTop rank b"
    and root: "GenTxRoot (sha L) (txHash L) (Transactions (sB b)) = MerkleRoot (sH b)"
    using inv ch assms(5) by (simp_all add: pwInv_def)
  have cross: "cross" if "linkBlock L conf kv n b sid (pwChain w n) = Some (cross, c2)" for cross c2
    using that assms(6-9) by (auto simp: linkBlock_def Let_def bind_eq_Some_conv)
  note link = noRoot_link[OF nr bl]
  have "Append fuel L conf kv idTop n (rel n) b sid (pwChain w n) = None"
  proof (rule ccontr)
    assume "Append fuel L conf kv idTop n (rel n) b sid (pwChain w n) \<noteq> None"
    then obtain c2 ps where c2: "linkBlock L conf kv n b sid (pwChain w n) = Some (True, c2)"
      "mapM (\<lambda>i. returned (printChain fuel idTop c2 i)) (rel n @ [n]) = Some ps"
      using root cross by (auto simp: Append_def VerifyBlock_def bind_eq_Some_conv split: if_splits)
    have "list_all2 (\<lambda>i p. returned (printChain fuel idTop c2 i) = Some p) (rel n @ [n]) ps" using c2(2) by (simp add: mapM_eq_Some)
    then show False using printChain_noRoot[OF link[OF c2(1)], of fuel] by (simp add: list_all2_append1 list_all2_Cons1)
  qed
  moreover have "AppendIShardIBlock fuel L conf kv idTop b' sid (pwChain w n) = None" if b': "b' \<in> set (generated w)" for b'
  proof -
    have "rootless idTop b'" "hashOrdered L idTop rank b'" using inv ch b' by (simp_all add: pwInv_def)
    then have "noRoot idTop rank ((pwChain w n)\<lparr>pcPool := pool, pcTop := mput sid (StdHash L b') (pcTop (pwChain w n)),
        pcBlocks := mput (StdHash L b') (StdLight b') (pcBlocks (pwChain w n))\<rparr>)" for pool
      using nr by (auto simp: noRoot_def hashOrdered_def StdLight_def rootless_def)
    then show ?thesis using printChain_noRoot by (fastforce simp: AppendIShardIBlock_def Let_def bind_eq_None_conv)
  qed
  moreover have "cross \<and> (\<forall>m i. length (pcBlocks c2) \<le> m \<longrightarrow> printChain m idTop c2 i = NilBlock)"
    if "linkBlock L conf kv n b sid (pwChain w n) = Some (cross, c2)" for cross c2
    using cross[OF that] printChain_panics[OF link[OF that]] by blast
  ultimately show ?thesis by blast
qed

subsection \<open>Examples\<close>

definition pyrDemoConf :: Conf where
  "pyrDemoConf = \<lparr>ShardAmount = 6, MaxBlockSize = 4, txTest = True, pyrConf = shipped\<lparr>pyrEnable := True, shardRoute :=
       [[[], [], [], [], [0, 1, 4], [0, 1, 5]], [[], [], [], [], [], []], [[], [], [], [], [], []],
        [[], [], [], [], [3, 1, 4], [3, 1, 5]], [[4, 1, 0], [], [], [4, 1, 3], [], []],
        [[5, 1, 0], [], [], [5, 1, 3], [], []]]\<rparr>,
     fideConf = InitFideConfig Pyramid 6,
     monoConf = InitMonoxideConfig Pyramid 6\<rparr>"

lemma pyrDemoConf: "pyrConf pyrDemoConf = (route shipped)\<lparr>pyrEnable := True\<rparr>"
  by code_simp

definition pyrDemoLib :: Lib where
  \<comment> \<open>heads are coded to the pairs of shard and parent and the Merkle root, and hashed to themselves\<close>
  "pyrDemoLib = demoLib\<lparr>stdJson := \<lambda>h. concat (map (\<lambda>(i, p). beBytes 1 i @ p) (ParentHashes h)) @ MerkleRoot h\<rparr>"

definition pyrDemoTx :: Transaction where
  "pyrDemoTx = demoTx ''00000000'' ''00000001''"

definition pyrChainOf :: "nat \<Rightarrow> nat list \<Rightarrow> Transaction list \<Rightarrow> ((bytes \<times> bytes) \<times> bytes) list PyrChain" where
  \<comment> \<open>a chain with its origin blocks and with transactions in its pool\<close>
  "pyrChainOf own rel txs =
     (case do { c \<leftarrow> NewPyrChain pyrDemoConf own [];
                c \<leftarrow> InitOriginBlocks 9 pyrDemoLib pyrDemoConf demoKV ''z'' int own rel c;
                foldM (RecordTx pyrDemoLib pyrDemoConf) txs c } of
        Some c \<Rightarrow> c | None \<Rightarrow> undefined)"

definition genCross :: "'d PyrChain \<Rightarrow> StdBlock" where
  "genCross c = (case GenerateCrossBlock pyrDemoLib pyrDemoConf (\<lambda>kvs. kvs) (\<lambda>_. pcPool c) 3 [0, 1, 2] c of
     Some b \<Rightarrow> b | None \<Rightarrow> undefined)"

abbreviation demoCross :: StdBlock where
  "demoCross \<equiv> genCross (pyrChainOf 3 [0, 1, 2] [pyrDemoTx])"

lemma genCross:
  "GenerateCrossBlock pyrDemoLib pyrDemoConf (\<lambda>kvs. kvs) (\<lambda>_. pcPool c) 3 [0, 1, 2] c \<noteq> None \<Longrightarrow>
   GenerateCrossBlock pyrDemoLib pyrDemoConf (\<lambda>kvs. kvs) (\<lambda>_. pcPool c) 3 [0, 1, 2] c = Some (genCross c)"
  by (auto simp: genCross_def)

definition freshWorld :: "((bytes \<times> bytes) \<times> bytes) list PyrWorld" where
  \<comment> \<open>the chains of all shards as they start\<close>
  "freshWorld = \<lparr>pwChain = (\<lambda>n. case NewPyrChain pyrDemoConf (if n < 6 then n else 0) [] of Some c \<Rightarrow> c | None \<Rightarrow> undefined), generated = []\<rparr>"

definition crossEvents :: "pyrEvent list" where
  "crossEvents = [PRecord 3 pyrDemoTx, PCross 3 (\<lambda>kvs. kvs) (\<lambda>_. case RecordTx pyrDemoLib pyrDemoConf pyrDemoTx (pwChain freshWorld 3) of
     Some c \<Rightarrow> pcPool c | None \<Rightarrow> undefined)]"

lemma freshWorld: "pyrStart pyrDemoConf freshWorld"
proof -
  have new: "\<exists>c. NewPyrChain pyrDemoConf n ([] :: ((bytes \<times> bytes) \<times> bytes) list) = Some c \<and> pcBlocks c = [] \<and> pcTop c = []" if "n < 6" for n
  proof -
    have "list_all (\<lambda>n. NewPyrChain pyrDemoConf n ([] :: ((bytes \<times> bytes) \<times> bytes) list) \<noteq> None) [0..<6]" by code_simp
    then have "NewPyrChain pyrDemoConf n ([] :: ((bytes \<times> bytes) \<times> bytes) list) \<noteq> None" using that by (auto simp: list_all_iff)
    then show ?thesis by (auto simp: NewPyrChain_def bind_eq_Some_conv)
  qed
  have six: "ShardAmount pyrDemoConf = 6" by code_simp
  show ?thesis unfolding pyrStart_def six
  proof (intro conjI allI impI)
    fix n
    have "pcBlocks (pwChain freshWorld n) = [] \<and> pcTop (pwChain freshWorld n) = []"
      using new[of "if n < 6 then n else 0"] by (auto simp: freshWorld_def)
    then show "pcBlocks (pwChain freshWorld n) = []" "pcTop (pwChain freshWorld n) = []" by simp_all
    assume "n < 6"
    then show "\<exists>db. NewPyrChain pyrDemoConf n db = Some (pwChain freshWorld n)"
      using new[of n] by (auto simp: freshWorld_def)
  qed (simp add: freshWorld_def)
qed

definition crossMade :: "((bytes \<times> bytes) \<times> bytes) list PyrWorld \<Rightarrow> bool" where
  \<comment> \<open>there is one block; it has the transaction and no known parents, and its hash is not the top of the identity chain\<close>
  "crossMade w \<longleftrightarrow> (case generated w of [b] \<Rightarrow> Transactions (sB b) = [pyrDemoTx] \<and> list_all (\<lambda>(i, p). p = []) (ParentHashes (sH b)) \<and>
     StdHash pyrDemoLib b \<noteq> ''z'' \<and> StdHash pyrDemoLib b \<noteq> [] \<and>
     map_option fst (linkBlock pyrDemoLib pyrDemoConf demoKV 3 b 3 (pwChain w 3)) = Some True | _ \<Rightarrow> False)"

theorem cross_append_panics_witness:
  "\<exists>w b c2. foldM (pyrStep pyrDemoLib pyrDemoConf demoKV ''z'' (\<lambda>n. if n = 3 then [0, 1, 2] else [])) crossEvents freshWorld = Some w \<and>
     generated w = [b] \<and> linkBlock pyrDemoLib pyrDemoConf demoKV 3 b 3 (pwChain w 3) = Some (True, c2) \<and>
     printChain (length (pcBlocks c2)) ''z'' c2 0 = NilBlock \<and>
     Append 99 pyrDemoLib pyrDemoConf demoKV ''z'' 3 [0, 1, 2] b 3 (pwChain w 3) = None"
proof -
  let ?rel = "\<lambda>n :: nat. if n = 3 then [0, 1, 2 :: nat] else []"
  have "map_option crossMade (foldM (pyrStep pyrDemoLib pyrDemoConf demoKV ''z'' ?rel) crossEvents freshWorld) = Some True" by code_simp
  then obtain w where w: "foldM (pyrStep pyrDemoLib pyrDemoConf demoKV ''z'' ?rel) crossEvents freshWorld = Some w" "crossMade w" by auto
  then obtain b c2 where b: "generated w = [b]" "Transactions (sB b) = [pyrDemoTx]" "list_all (\<lambda>(i, p). p = []) (ParentHashes (sH b))"
    "StdHash pyrDemoLib b \<noteq> ''z''" "StdHash pyrDemoLib b \<noteq> []" "linkBlock pyrDemoLib pyrDemoConf demoKV 3 b 3 (pwChain w 3) = Some (True, c2)"
    by (auto simp: crossMade_def split: list.splits)
  have par: "hashAt (ParentHashes (sH b)) i = []" for i
  proof (cases "mget (ParentHashes (sH b)) i")
    case (Some p)
    then have "(i, p) \<in> set (ParentHashes (sH b))" by (rule map_of_SomeD)
    then show ?thesis using Some b(3) by (auto simp: list_all_iff hashAt_def)
  qed (simp add: hashAt_def EmptyHash_def)
  have h: "\<forall>x\<in>set (generated w). StdHash pyrDemoLib x \<noteq> ''z'' \<and>
      (\<forall>i. length (hashAt (ParentHashes (sH x)) i) < length (StdHash pyrDemoLib x))"
    using b(4,5) by (simp add: b(1) par)
  have s: "SInShard pyrDemoConf pyrDemoTx = Some 0" "RInShard pyrDemoConf pyrDemoTx = Some 1" by code_simp+
  have "''z'' \<noteq> EmptyHash" "b \<in> set (generated w)" "(0 :: nat) \<noteq> 1" by (simp_all add: EmptyHash_def b(1))
  from cross_append_panics[OF freshWorld this(1) w(1) h this(2) b(2) s this(3), of 99 3 3] b(6) w(1) b(1)
  show ?thesis by auto
qed

end
