(* ===== verification/Shards.thy ===== *)
theory Shards
  imports IdChain
begin

text \<open>
  How the nodes are assigned to shards: \<open>RDomain\<close> of \<^verbatim>\<open>src/Opts/Op_EpochReset.go\<close>, the part of the
  three \<open>Shard\<close> types that they share (the map of nodes, the main node, \<open>SelectMain\<close>, \<open>Threshold\<close>;
  \<^verbatim>\<open>src/pyramid/PyrShard.go\<close>, \<^verbatim>\<open>src/Monosulfide/MonosulfideShard.go\<close>, \<^verbatim>\<open>src/monoxide/monoxideShard.go\<close>).

  The map of a shard points to nodes of the map of the identity chain, under the same keys: \<open>dMap\<close> is
  the list of these keys, and \<open>domainNodes\<close> the nodes behind it.
\<close>

record Settings =
  \<comment> \<open>constants of \<open>config\<close>\<close>
  realRand :: bool
  mainPort :: bytes
  enableSpy :: bool
  spyAtShard :: int
  spyIsMainNode :: bool

record Domain =
  dSid :: nat
  dMap :: "bytes list"
  dMain :: "bytes option"

definition shardThreshold :: "nat \<Rightarrow> 64 word" where
  \<comment> \<open>in \<open>int\<close>, converted at the end; the argument is the length of the node map\<close>
  "shardThreshold n = (let maliciousAmount = (int n + 2) div 3 - 1 in word_of_int (int n - maliciousAmount))"

definition domainThreshold :: "Domain \<Rightarrow> 64 word" where
  "domainThreshold d = shardThreshold (length (dMap d))"

definition domainNodes :: "nodeMap \<Rightarrow> bytes list \<Rightarrow> nodeMap" where
  "domainNodes m ks = filter (\<lambda>(k, n). k \<in> set ks) m"

definition ShardSelectMain :: "Lib \<Rightarrow> Settings \<Rightarrow> nat \<Rightarrow> nodeMap \<Rightarrow> 64 word \<Rightarrow> bytes option option" where
  \<comment> \<open>\<open>SelectMain\<close> of a shard on its node map: the result is \<open>mainNode\<close>, the outer \<open>None\<close> a panic\<close>
  "ShardSelectMain L S sid m rnd =
     do { key \<leftarrow> SelectRandomKey m rnd;
          let drawn = pointer m (encodePub L key)
          in if enableSpy S \<and> int sid = spyAtShard S \<and> spyIsMainNode S
             then do { holder \<leftarrow> portHolder (mainPort S) m;
                       Some (case holder of Some k \<Rightarrow> Some k | None \<Rightarrow> drawn) }
             else Some drawn }"

definition modBytes :: "nat \<Rightarrow> bytes" where
  \<comment> \<open>\<open>(*big.Int).Bytes\<close>\<close>
  "modBytes n = beBytes ((bitLen n + 7) div 8) n"

definition shardOf :: "Settings \<Rightarrow> (bytes \<Rightarrow> bytes) \<Rightarrow> 64 word \<Rightarrow> int \<Rightarrow> Node \<Rightarrow> int option" where
  "shardOf S sha256 rnd sNum n =
     do { port \<leftarrow> Port n;
          shardId \<leftarrow> HashToRange (realRand S) sha256 rnd (modBytes (keyN (NodeId n))) (keyE (NodeId n)) port sNum;
          Some (if port = mainPort S \<and> enableSpy S then spyAtShard S else shardId) }"

definition assignNode :: "Settings \<Rightarrow> (bytes \<Rightarrow> bytes) \<Rightarrow> Conf \<Rightarrow> 64 word \<Rightarrow> bytes \<times> Node \<Rightarrow> (bytes \<times> Node) option" where
  \<comment> \<open>the body of the first loop of \<open>RDomain\<close>; \<open>shardMaps[shardId]\<close> panics out of range\<close>
  "assignNode S sha256 conf rnd = (\<lambda>(k, n).
     do { shardId \<leftarrow> shardOf S sha256 rnd (int (ShardAmount conf)) n;
          if 0 \<le> shardId \<and> shardId < int (ShardAmount conf) then Some (k, n\<lparr>ShardID := nat shardId\<rparr>) else None })"

definition membersOf :: "nodeMap \<Rightarrow> nat \<Rightarrow> bytes list" where
  \<comment> \<open>the keys of \<open>shardMaps[i]\<close> after the loop\<close>
  "membersOf m i = map fst (filter (\<lambda>(k, n). ShardID n = i) m)"

definition buildDomain :: "Lib \<Rightarrow> Settings \<Rightarrow> nodeMap \<Rightarrow> 64 word \<Rightarrow> nat \<Rightarrow> Domain option" where
  \<comment> \<open>the body of the second loop, for a shard that has been reset: an empty one is left without map and main node\<close>
  "buildDomain L S m rnd i =
     (if membersOf m i = [] then Some \<lparr>dSid = i, dMap = [], dMain = None\<rparr>
      else do { main \<leftarrow> ShardSelectMain L S i (domainNodes m (membersOf m i)) rnd;
                Some \<lparr>dSid = i, dMap = membersOf m i, dMain = main\<rparr> })"

definition RDomain ::
  "Lib \<Rightarrow> Settings \<Rightarrow> Conf \<Rightarrow> bytes \<Rightarrow> 'd IdChain \<Rightarrow> (Domain list \<times> nat \<times> 'd IdChain) option" where
  \<comment> \<open>for the running node \<open>self\<close>: the shards, the index of the local one, and the state in which the nodes
     know their shards; the main node of the local shard is dereferenced\<close>
  "RDomain L S conf self idc =
     do { m \<leftarrow> mapM (assignNode S (sha L) conf (randNum idc)) (NodeMap idc);
          me \<leftarrow> mget m self;
          ds \<leftarrow> mapM (buildDomain L S m (randNum idc)) [0..<ShardAmount conf];
          local \<leftarrow> slot ds (ShardID me);
          dMain local;
          Some (ds, ShardID me, idc\<lparr>NodeMap := m\<rparr>) }"

definition IsMainOf :: "bytes \<Rightarrow> Domain \<Rightarrow> bool" where
  "IsMainOf self d \<longleftrightarrow> dMain d = Some self"

subsection \<open>Votes in a shard\<close>

lemma shardThreshold_nat:
  assumes "0 < n" "n < 2 ^ 62"
  shows "unat (shardThreshold n) = n - faultsTolerated n"
proof -
  have c: "(n + 2) div 3 = faultsTolerated n + 1" using assms(1) by (simp add: faultsTolerated_def)
  have "(int n + 2) div 3 = int ((n + 2) div 3)" by (simp add: zdiv_int)
  then have m: "(int n + 2) div 3 - 1 = int (faultsTolerated n)" unfolding c by simp
  have "faultsTolerated n \<le> n" using faultsTolerated_bound[OF assms(1)] by linarith
  then have d: "int n - int (faultsTolerated n) = int (n - faultsTolerated n)" by (rule of_nat_diff[symmetric])
  have "shardThreshold n = of_nat (n - faultsTolerated n)"
    unfolding shardThreshold_def m Let_def d by (rule of_int_of_nat_eq)
  moreover have "n - faultsTolerated n < 2 ^ LENGTH(64)" using assms(2) by simp
  ultimately show ?thesis by (simp add: unat_of_nat take_bit_nat_eq_self)
qed

interpretation shardQuorum: quorum_rule "\<lambda>n. unat (shardThreshold n)" "2 ^ 62"
proof
  fix n :: nat
  assume n: "0 < n" "n < 2 ^ 62"
  show "n + faultsTolerated n < 2 * unat (shardThreshold n)"
    using faultsTolerated_bound[OF n(1)] unfolding shardThreshold_nat[OF n] by linarith
  show "unat (shardThreshold n) \<le> n - faultsTolerated n" using shardThreshold_nat[OF n] by simp
qed

subsection \<open>The assignment\<close>

definition withShard :: "Settings \<Rightarrow> (bytes \<Rightarrow> bytes) \<Rightarrow> Conf \<Rightarrow> 64 word \<Rightarrow> Node \<Rightarrow> Node" where
  "withShard S sha256 conf rnd n =
     n\<lparr>ShardID := (case shardOf S sha256 rnd (int (ShardAmount conf)) n of Some i \<Rightarrow> nat i | None \<Rightarrow> 0)\<rparr>"

lemma withShard_simps [simp]:
  "NodeId (withShard S h conf rnd n) = NodeId n" "IpAddr (withShard S h conf rnd n) = IpAddr n"
  "Activating (withShard S h conf rnd n) = Activating n" "Sleeping (withShard S h conf rnd n) = Sleeping n"
  "IsRunning (withShard S h conf rnd n) = IsRunning n"
  by (simp_all add: withShard_def IsRunning_def)

lemma assign_all:
  "mapM (assignNode S h conf rnd) m = Some m' \<Longrightarrow>
   m' = mapNodes (withShard S h conf rnd) m \<and> (\<forall>(k, n)\<in>set m'. ShardID n < ShardAmount conf)"
proof (induction m arbitrary: m')
  case (Cons x m)
  obtain k n where x: "x = (k, n)" by fastforce
  obtain y ms where y: "assignNode S h conf rnd x = Some y" "mapM (assignNode S h conf rnd) m = Some ms" "m' = y # ms"
    using Cons.prems by (auto simp: bind_eq_Some_conv)
  have "y = (k, withShard S h conf rnd n) \<and> ShardID (snd y) < ShardAmount conf"
    using y(1) by (auto simp: x assignNode_def withShard_def bind_eq_Some_conv split: if_splits)
  then show ?case using Cons.IH[OF y(2)] y(3) by (auto simp: x mapNodes_def)
qed (simp add: mapNodes_def)

lemma set_membersOf: "k \<in> set (membersOf m i) \<longleftrightarrow> (\<exists>n. (k, n) \<in> set m \<and> ShardID n = i)"
  by (force simp: membersOf_def)

lemma domainNodes_members: "(k, n) \<in> set (domainNodes m (membersOf m i)) \<Longrightarrow> (k, n) \<in> set m \<and> k \<in> set (membersOf m i)"
  by (auto simp: domainNodes_def)

lemma portHolder_in: "portHolder port m = Some (Some k) \<Longrightarrow> k \<in> fst ` set m"
  by (induction port m rule: portHolder.induct) (auto simp: bind_eq_Some_conv split: if_splits)

lemma mwf_domainNodes: "mwf m \<Longrightarrow> mwf (domainNodes m ks)"
  by (simp add: mwf_def domainNodes_def distinct_map_filter)

lemma ShardSelectMain_main:
  assumes "ShardSelectMain L S i m rnd = Some main" "mwf m" "\<forall>(k, n)\<in>set m. k = encodePub L (NodeId n)"
  shows "\<exists>k n. main = Some k \<and> mget m k = Some n \<and> (\<not> (enableSpy S \<and> spyIsMainNode S) \<longrightarrow> IsRunning n)"
proof -
  obtain key where key: "SelectRandomKey m rnd = Some key" using assms(1) by (auto simp: ShardSelectMain_def bind_eq_Some_conv)
  then obtain k n where kn: "(k, n) \<in> set m" "IsRunning n" "NodeId n = key"
    using SelectRandomKey_running[OF key] by auto
  then have "k = encodePub L key" using assms(3) by auto
  then have drawn: "mget m (encodePub L key) = Some n" using kn(1) set_mwf_iff[OF assms(2)] by simp
  show ?thesis
  proof (cases "enableSpy S \<and> int i = spyAtShard S \<and> spyIsMainNode S")
    case True
    then obtain holder where h: "portHolder (mainPort S) m = Some holder"
      "main = (case holder of Some k \<Rightarrow> Some k | None \<Rightarrow> pointer m (encodePub L key))"
      using assms(1) key by (auto simp: ShardSelectMain_def bind_eq_Some_conv)
    show ?thesis
    proof (cases holder)
      case None
      then show ?thesis using h(2) drawn True by (simp add: pointer_def)
    next
      case (Some k')
      then obtain n' where "(k', n') \<in> set m" using portHolder_in[of "mainPort S" m k'] h(1) by auto
      then have "mget m k' = Some n'" using set_mwf_iff[OF assms(2)] by simp
      then show ?thesis using h(2) Some True by auto
    qed
  next
    case False
    then have "main = Some (encodePub L key)"
      using assms(1) key drawn by (auto simp: ShardSelectMain_def pointer_def)
    then show ?thesis using drawn kn(2) by blast
  qed
qed

text \<open>C29: After \<open>RDomain\<close> the shards partition the nodes: each node of the identity chain is in the map of exactly
  one shard, the one its \<open>ShardID\<close> names; the local shard is the one of the running node; and every shard that has
  nodes has one of them as its main node, a running one unless the spy settings choose it.\<close>
theorem RDomain_partition:
  assumes "RDomain L S conf self idc = Some (ds, loc, idc')" "viewOk L (viewOf idc)"
  shows "length ds = ShardAmount conf \<and> loc < length ds \<and> self \<in> set (dMap (ds ! loc)) \<and>
    (\<forall>k n. mget (NodeMap idc') k = Some n \<longrightarrow> ShardID n < length ds \<and>
       (\<forall>j < length ds. k \<in> set (dMap (ds ! j)) \<longleftrightarrow> j = ShardID n)) \<and>
    (\<forall>j < length ds. dMap (ds ! j) \<noteq> [] \<longrightarrow> (\<exists>k n. dMain (ds ! j) = Some k \<and> k \<in> set (dMap (ds ! j)) \<and>
       mget (NodeMap idc') k = Some n \<and> (\<not> (enableSpy S \<and> spyIsMainNode S) \<longrightarrow> IsRunning n)))"
proof -
  obtain m me where m: "mapM (assignNode S (sha L) conf (randNum idc)) (NodeMap idc) = Some m" "mget m self = Some me"
    "mapM (buildDomain L S m (randNum idc)) [0..<ShardAmount conf] = Some ds" "loc = ShardID me" "loc < length ds"
    "idc' = idc\<lparr>NodeMap := m\<rparr>"
    using assms(1) by (auto simp: RDomain_def bind_eq_Some_conv slot_eq_Some)
  note as = assign_all[OF m(1)]
  have wf: "mwf m" using as assms(2) by (simp add: viewOk_def viewOf_def)
  have keys: "\<forall>(k, n)\<in>set m. k = encodePub L (NodeId n)"
  proof (clarify)
    fix k n assume "(k, n) \<in> set m"
    then have "mget m k = Some n" using set_mwf_iff[OF wf] by simp
    then obtain n0 where "mget (NodeMap idc) k = Some n0" "NodeId n = NodeId n0" using as by auto
    then show "k = encodePub L (NodeId n)" using assms(2) by (simp add: viewOk_def viewOf_def)
  qed
  have len: "length ds = ShardAmount conf" and b: "buildDomain L S m (randNum idc) j = Some (ds ! j)" if "j < length ds" for j
    using m(3) that by (auto simp: mapM_eq_Some list_all2_conv_all_nth)
  have len: "length ds = ShardAmount conf" using m(3) by (auto simp: mapM_eq_Some dest: list_all2_lengthD)
  have dm: "dMap (ds ! j) = membersOf m j" if "j < length ds" for j
    using b[OF that] by (cases "ds ! j") (auto simp: buildDomain_def bind_eq_Some_conv split: if_splits)
  have inm: "k \<in> set (membersOf m j) \<longleftrightarrow> ShardID n = j" if "mget m k = Some n" for k n j
    using that set_mwf_iff[OF wf] by (auto simp: set_membersOf)
  have 1: "ShardID n < length ds \<and> (\<forall>j < length ds. k \<in> set (dMap (ds ! j)) \<longleftrightarrow> j = ShardID n)"
    if "mget m k = Some n" for k n
  proof -
    have "(k, n) \<in> set m" using that set_mwf_iff[OF wf] by simp
    then have "ShardID n < ShardAmount conf" using as by auto
    then show ?thesis using dm inm[OF that] len by auto
  qed
  have 2: "\<exists>k n. dMain (ds ! j) = Some k \<and> k \<in> set (dMap (ds ! j)) \<and> mget m k = Some n \<and>
      (\<not> (enableSpy S \<and> spyIsMainNode S) \<longrightarrow> IsRunning n)" if j: "j < length ds" "dMap (ds ! j) \<noteq> []" for j
  proof -
    let ?m = "domainNodes m (membersOf m j)"
    have ms: "ShardSelectMain L S j ?m (randNum idc) = Some (dMain (ds ! j))"
      using b[OF j(1)] j dm[OF j(1)] by (cases "ds ! j") (auto simp: buildDomain_def bind_eq_Some_conv split: if_splits)
    have "\<forall>(k, n)\<in>set ?m. k = encodePub L (NodeId n)" using keys by (auto simp: domainNodes_def)
    from ShardSelectMain_main[OF ms mwf_domainNodes[OF wf] this]
    obtain k n where k: "dMain (ds ! j) = Some k" "mget ?m k = Some n" "\<not> (enableSpy S \<and> spyIsMainNode S) \<longrightarrow> IsRunning n"
      by blast
    then have "(k, n) \<in> set ?m" using map_of_SomeD by fastforce
    then have "(k, n) \<in> set m \<and> k \<in> set (membersOf m j)" by (rule domainNodes_members)
    then show ?thesis using k dm[OF j(1)] set_mwf_iff[OF wf] by auto
  qed
  have "self \<in> set (dMap (ds ! loc))" using 1[OF m(2)] m(4,5) by simp
  then show ?thesis using len 1 2 m(5,6) by simp
qed

subsection \<open>All nodes build the same shards\<close>

definition sameDomain :: "Domain \<Rightarrow> Domain \<Rightarrow> bool" where
  \<comment> \<open>up to the order of the node map\<close>
  "sameDomain d d' \<longleftrightarrow> dSid d = dSid d' \<and> mset (dMap d) = mset (dMap d') \<and> dMain d = dMain d'"

definition keysApart :: "nodeMap \<Rightarrow> bool" where
  \<comment> \<open>no two nodes have the same modulus\<close>
  "keysApart m \<longleftrightarrow> inj_on keyN (NodeId ` snd ` set m)"

lemma sameNodes_mapNodes: "sameNodes m m' \<Longrightarrow> sameNodes (mapNodes f m) (mapNodes f m')"
  by (simp add: sameNodes_def mapNodes_def)

lemma sameNodes_set: "sameNodes m m' \<Longrightarrow> set m = set m'"
  unfolding sameNodes_def by (rule mset_eq_setD)

lemma sameNodes_mget:
  assumes "sameNodes m m'" "mwf m"
  shows "mwf m' \<and> mget m' = mget m"
proof -
  have "mset (map fst m) = mset (map fst m')" using assms(1) by (simp add: sameNodes_def)
  then have wf: "mwf m'" using assms(2) mset_eq_imp_distinct_iff unfolding mwf_def by blast
  have "mget m' k = mget m k" for k
  proof (cases "mget m k")
    case None
    then have "k \<notin> fst ` set m'" using sameNodes_set[OF assms(1)] by (simp add: map_of_eq_None_iff)
    then have "mget m' k = None" unfolding map_of_eq_None_iff .
    then show ?thesis using None by simp
  next
    case (Some n)
    then have "(k, n) \<in> set m'" using sameNodes_set[OF assms(1)] set_mwf_iff[OF assms(2)] by simp
    then show ?thesis using Some set_mwf_iff[OF wf] by simp
  qed
  then show ?thesis using wf by blast
qed

lemma keysApart_mapNodes [simp]: "(\<And>n. NodeId (f n) = NodeId n) \<Longrightarrow> keysApart (mapNodes f m) = keysApart m"
  by (simp add: keysApart_def mapNodes_def image_image split_beta)

lemma keysApart_sub: "keysApart m \<Longrightarrow> set m' \<subseteq> set m \<Longrightarrow> keysApart m'"
  unfolding keysApart_def by (rule inj_on_subset) auto

lemma draw_same:
  assumes "sameNodes m m'" "keysApart m"
  shows "SelectRandomKey m r = SelectRandomKey m' r"
proof (rule SelectRandomKey_perm[OF assms(1)])
  show "inj_on keyN (NodeId ` {n \<in> snd ` set m. IsRunning n})"
    using assms(2) unfolding keysApart_def by (rule inj_on_subset) auto
qed

lemma membersOf_same: "sameNodes m m' \<Longrightarrow> mset (membersOf m i) = mset (membersOf m' i)"
  by (simp add: membersOf_def sameNodes_def)

lemma domainNodes_same:
  "sameNodes m m' \<Longrightarrow> mset ks = mset ks' \<Longrightarrow> sameNodes (domainNodes m ks) (domainNodes m' ks')"
  using mset_eq_setD[of ks ks'] by (simp add: sameNodes_def domainNodes_def)

lemma pointer_same: "sameNodes m m' \<Longrightarrow> pointer m k = pointer m' k"
  using sameNodes_set[of m m'] by (simp add: pointer_def map_of_eq_None_iff)

lemma buildDomain_same:
  assumes "sameNodes m m'" "keysApart m" "\<not> (enableSpy S \<and> spyIsMainNode S)"
    and "buildDomain L S m rnd i = Some d" "buildDomain L S m' rnd i = Some d'"
  shows "sameDomain d d'"
proof -
  note ms = membersOf_same[OF assms(1), of i]
  have e: "membersOf m i = [] \<longleftrightarrow> membersOf m' i = []" using ms by (metis mset_zero_iff)
  let ?d = "domainNodes m (membersOf m i)" and ?d' = "domainNodes m' (membersOf m' i)"
  have sd: "sameNodes ?d ?d'" by (rule domainNodes_same[OF assms(1) ms])
  have ka: "keysApart ?d" by (rule keysApart_sub[OF assms(2)]) (auto simp: domainNodes_def)
  have sel: "ShardSelectMain L S i ?d rnd = ShardSelectMain L S i ?d' rnd"
    using assms(3) unfolding ShardSelectMain_def draw_same[OF sd ka] pointer_same[OF sd]
    by (cases "enableSpy S"; cases "spyIsMainNode S") simp_all
  show ?thesis
  proof (cases "membersOf m i = []")
    case True
    then show ?thesis using assms(4,5) e by (auto simp: buildDomain_def sameDomain_def)
  next
    case False
    then obtain x where "ShardSelectMain L S i ?d' rnd = Some x" "d = \<lparr>dSid = i, dMap = membersOf m i, dMain = x\<rparr>"
      "d' = \<lparr>dSid = i, dMap = membersOf m' i, dMain = x\<rparr>"
      using assms(4,5) e sel by (auto simp: buildDomain_def bind_eq_Some_conv)
    then show ?thesis using ms by (simp add: sameDomain_def)
  qed
qed

lemma RDomain_same:
  assumes "RDomain L S conf self idc = Some (ds, loc, out)" "RDomain L S conf self' idc' = Some (ds', loc', out')"
    and "sameNodes (NodeMap idc) (NodeMap idc')" "randNum idc = randNum idc'" "keysApart (NodeMap idc)"
    and "\<not> (enableSpy S \<and> spyIsMainNode S)"
  shows "list_all2 sameDomain ds ds' \<and> sameNodes (NodeMap out) (NodeMap out')"
proof -
  obtain m m' where m: "mapM (assignNode S (sha L) conf (randNum idc)) (NodeMap idc) = Some m"
    "mapM (assignNode S (sha L) conf (randNum idc)) (NodeMap idc') = Some m'"
    "mapM (buildDomain L S m (randNum idc)) [0..<ShardAmount conf] = Some ds"
    "mapM (buildDomain L S m' (randNum idc)) [0..<ShardAmount conf] = Some ds'"
    "out = idc\<lparr>NodeMap := m\<rparr>" "out' = idc'\<lparr>NodeMap := m'\<rparr>"
    using assms(1,2,4) by (auto simp: RDomain_def bind_eq_Some_conv)
  have s: "sameNodes m m'"
    using assign_all[OF m(1)] assign_all[OF m(2)] sameNodes_mapNodes[OF assms(3)] by simp
  have k: "keysApart m" using assign_all[OF m(1)] assms(5) by simp
  have "list_all2 sameDomain ds ds'"
    using m(3,4) buildDomain_same[OF s k assms(6)] by (auto simp: mapM_eq_Some list_all2_conv_all_nth)
  then show ?thesis using s m(5,6) by simp
qed

subsection \<open>An example\<close>

definition shardConf :: Conf where
  "shardConf = \<lparr>ShardAmount = 2, MaxBlockSize = 4, txTest = True, pyrConf = shipped, fideConf = InitFideConfig UniRelay 2,
     monoConf = InitMonoxideConfig UniRelay 2\<rparr>"

definition noSpy :: Settings where
  "noSpy = \<lparr>realRand = False, mainPort = ''10'', enableSpy = False, spyAtShard = 0, spyIsMainNode = False\<rparr>"

definition portNode :: "nat \<Rightarrow> bytes \<Rightarrow> Node" where
  "portNode k port = \<lparr>NodeId = \<lparr>keyN = k, keyE = 3\<rparr>, ShardID = 0, IpAddr = ''h:'' @ port, Activating = True,
     Sleeping = False, Silence = 0\<rparr>"

definition shardIdc :: "((bytes \<times> bytes) \<times> bytes) list IdChain" where
  "shardIdc = demoIdc\<lparr>NodeMap := [(''a'', portNode 97 ''10''), (''b'', portNode 98 ''20''), (''c'', portNode 99 ''30'')],
     randNum := 5\<rparr>"

lemma shardIdc_ok: "viewOk demoLib (viewOf shardIdc)"
proof -
  have a: "distinct (mkeys (NodeMap shardIdc))" by code_simp
  have b: "\<forall>x\<in>set (NodeMap shardIdc). fst x = encodePub demoLib (NodeId (snd x))" by code_simp
  have v: "vMap (viewOf shardIdc) = NodeMap shardIdc" by (simp add: viewOf_def)
  show ?thesis unfolding viewOk_def v by (rule keyed_ok[OF a b])
qed

theorem RDomain_partition_witness:
  "\<exists>ds idc'. RDomain demoLib noSpy shardConf ''a'' shardIdc = Some (ds, 1, idc') \<and>
     ''a'' \<in> set (dMap (ds ! 1)) \<and> ''b'' \<in> set (dMap (ds ! 0)) \<and> dMain (ds ! 0) = Some ''b''"
proof -
  have c: "(case RDomain demoLib noSpy shardConf ''a'' shardIdc of None \<Rightarrow> False | Some (ds, loc, idc') \<Rightarrow>
      loc = 1 \<and> dMap (ds ! 0) = [''b''])" by code_simp
  then obtain ds idc' where r: "RDomain demoLib noSpy shardConf ''a'' shardIdc = Some (ds, 1, idc')" "dMap (ds ! 0) = [''b'']"
    by (auto split: option.splits)
  note p = RDomain_partition[OF r(1) shardIdc_ok]
  have "0 < length ds" using p by (simp add: shardConf_def)
  then have "dMain (ds ! 0) = Some ''b''" using p r(2) by fastforce
  then show ?thesis using p r by auto
qed

end
