(* ===== verification/Pow.thy ===== *)
theory Pow
  imports Proposals Content Blocks
begin

text \<open>
  Proof of work: \<^verbatim>\<open>src/consensus_shard/pow/ConPoW.go\<close> (the identity chain under \<open>PoW\<close>),
  \<^verbatim>\<open>src/consensus_shard/pow/EasyPoW.go\<close> (Monoxide and Monosulfide, where mining is a random delay) and the
  broadcast \<^verbatim>\<open>src/Comm/PoWBroadcast.go\<close>.

  A consensus instance works on the state \<open>'a\<close> of the application through the deployed operations, the table
  \<open>Ops\<close>; an operation that is not deployed panics.  What is sent is appended to \<open>pwOut\<close>.  A difficulty is a
  \<open>*big.Int\<close>, times are nanoseconds.
\<close>

record 'a Ops =
  opPrepare :: "bytes \<Rightarrow> bytes list \<Rightarrow> 'a \<Rightarrow> (bool \<times> bytes list \<times> 'a) option"
  opVerify :: "bytes \<Rightarrow> bytes list \<Rightarrow> 'a \<Rightarrow> (bool \<times> 'a) option"
  opExecute :: "bytes \<Rightarrow> 'a \<Rightarrow> 'a option"

record PowMsg =
  pmType :: bytes
  pmContent :: bytes
  pmDest :: bytes

record 'a Pow =
  pwLock :: bool   \<comment> \<open>\<open>proposeLock\<close> is held\<close>
  pwBuffer :: ProposalBuffer
  pwApp :: 'a
  pwOut :: "PowMsg list"

definition NewPoWConsensus :: "'a \<Rightarrow> 'a Pow" where
  "NewPoWConsensus a = \<lparr>pwLock = True, pwBuffer = NewProposalBuffer, pwApp = a, pwOut = []\<rparr>"

definition powEnable :: "'a Pow \<Rightarrow> 'a Pow option" where
  \<comment> \<open>unlocking a mutex that is not locked ends the program\<close>
  "powEnable st = (if pwLock st then Some (st\<lparr>pwLock := False\<rparr>) else None)"

definition EasyPoWBroadcast :: bytes where "EasyPoWBroadcast = ''EasyPoWBroadcast''"
definition PoWBroadcastREQ :: bytes where "PoWBroadcastREQ = ''PoWBroadcast'' @ ''REQ''"

definition powContent :: "bytes \<Rightarrow> bytes list \<Rightarrow> bytes" where
  "powContent proType proVars = AppendByteContent (NewStrContent [proType]) proVars"

definition powSelect :: "'a Ops \<Rightarrow> 'a Pow \<Rightarrow> ((bytes \<times> bytes list) option \<times> 'a Pow) option" where
  \<comment> \<open>the common part of both \<open>Propose\<close>: the lock is taken, the most urgent proposal popped and prepared; \<open>None\<close>
     where \<open>Propose\<close> gives up\<close>
  "powSelect P st =
     do { (pro, buf) \<leftarrow> Pop (pwBuffer st);
          let st1 = st\<lparr>pwLock := True, pwBuffer := buf\<rparr>
          in case pro of
               None \<Rightarrow> Some (None, st1)
             | Some p \<Rightarrow>
                 do { (ok, vars, a) \<leftarrow> opPrepare P (ReqType p) (Vars p) (pwApp st1);
                      Some (if ok then Some (ReqType p, vars) else None, st1\<lparr>pwApp := a\<rparr>) } }"

definition EasyPropose :: "'a Ops \<Rightarrow> bytes \<Rightarrow> 'a Pow \<Rightarrow> 'a Pow option" where
  \<comment> \<open>\<open>EasyPoW.Propose\<close>, run when the lock is free, for the address of the domain; \<open>Enable\<close> is deferred\<close>
  "EasyPropose P dst st =
     do { (r, st1) \<leftarrow> powSelect P st;
          powEnable (case r of None \<Rightarrow> st1
            | Some (t, vars) \<Rightarrow> st1\<lparr>pwOut := pwOut st1 @
                [\<lparr>pmType = EasyPoWBroadcast, pmContent = powContent t vars, pmDest = dst\<rparr>]\<rparr>) }"

definition PoWBroadcastRequest :: "bytes list \<Rightarrow> bytes \<Rightarrow> 'a Pow \<Rightarrow> 'a Pow" where
  \<comment> \<open>to the addresses of the nodes of the domain\<close>
  "PoWBroadcastRequest addrs content st =
     st\<lparr>pwOut := pwOut st @ map (\<lambda>a. \<lparr>pmType = PoWBroadcastREQ, pmContent = content, pmDest = a\<rparr>) addrs\<rparr>"

definition PoWPropose :: "'a Ops \<Rightarrow> bytes list \<Rightarrow> 'a Pow \<Rightarrow> 'a Pow option" where
  \<comment> \<open>\<open>NakamotoPoW.Propose\<close>\<close>
  "PoWPropose P addrs st =
     do { (r, st1) \<leftarrow> powSelect P st;
          powEnable (case r of None \<Rightarrow> st1 | Some (t, vars) \<Rightarrow> PoWBroadcastRequest addrs (powContent t vars) st1) }"

definition verifyExecute :: "'a Ops \<Rightarrow> bytes \<Rightarrow> 'a \<Rightarrow> (bool \<times> 'a) option" where
  \<comment> \<open>\<open>PoWBroadcastCom.HandleRequest\<close> for the content of the message\<close>
  "verifyExecute P content a =
     (let contents = ParseContent content
      in do { t \<leftarrow> slot contents 0;
              (ok, a1) \<leftarrow> opVerify P t (drop 1 contents) a;
              if ok then do { a2 \<leftarrow> opExecute P t a1; Some (True, a2) } else Some (False, a1) })"

definition EasyHandleMsg :: "'a Ops \<Rightarrow> PowMsg \<Rightarrow> 'a Pow \<Rightarrow> (bool \<times> 'a Pow) option" where
  \<comment> \<open>\<open>EasyPoW.HandleMsg\<close>, which answers whether the type was its own\<close>
  "EasyHandleMsg P m st =
     (if pmType m = EasyPoWBroadcast
      then do { (_, a) \<leftarrow> verifyExecute P (pmContent m) (pwApp st); Some (True, st\<lparr>pwApp := a\<rparr>) }
      else Some (False, st))"

subsection \<open>The difficulty\<close>

definition UpdateDifficulty :: "int \<Rightarrow> StdHead \<Rightarrow> int \<times> int \<Rightarrow> (int \<times> int) option" where
  \<comment> \<open>on the difficulty and the time of the last update; the test of the period has an empty body.
     \<open>Time.Sub\<close> saturates, \<open>Int.Div\<close> rounds down for a positive divisor and panics for 0\<close>
  "UpdateDifficulty expTime head = (\<lambda>(difficulty, lastUpdateTime).
     (let bTime = Timestamp head;
          elapsed = clampInt64 (bTime - lastUpdateTime)
      in if expTime = 0 then None
         else Some ((difficulty * elapsed) div expTime, bTime)))"

definition validPoW :: "Lib \<Rightarrow> int \<Rightarrow> StdBlock \<Rightarrow> bool" where
  \<comment> \<open>\<open>crypt.IsValidBlock\<close> on the coded head; no hash is below a target that is not positive\<close>
  "validPoW L difficulty b = IsValidBlock (sha L) (EncodeH L (sH b)) (nat difficulty)"

lemma no_valid_block: "difficulty \<le> 0 \<Longrightarrow> \<not> validPoW L difficulty b"
  by (simp add: validPoW_def IsValidBlock_def)

lemma stale_difficulty:
  assumes "UpdateDifficulty expTime head (d, lst) = Some (d', lst')" "0 < expTime" "0 \<le> d" "Timestamp head \<le> lst"
  shows "d' \<le> 0"
proof -
  have "clampInt64 (Timestamp head - lst) \<le> 0" using assms(4) by (simp add: clampInt64_def minInt64_def)
  then have "d * clampInt64 (Timestamp head - lst) \<le> 0" using assms(3) by (simp add: mult_nonneg_nonpos)
  then show ?thesis
    using assms(1,2) by (auto simp: UpdateDifficulty_def Let_def div_nonpos_pos_le0)
qed

subsection \<open>What is proposed is executed\<close>

lemma verifyExecute_powContent:
  "verifyExecute P (powContent t vars) a =
     do { (ok, a1) \<leftarrow> opVerify P t vars a;
          if ok then do { a2 \<leftarrow> opExecute P t a1; Some (True, a2) } else Some (False, a1) }"
proof -
  have "ParseContent (powContent t vars) = t # vars"
    unfolding powContent_def NewStrContent_eq by (simp only: AppendByteContent_New ParseContent_New not_Cons_self2 append_Cons append_Nil list.distinct simp_thms)
  then show ?thesis by (simp add: verifyExecute_def)
qed

lemma powSelect_cases:
  assumes "powSelect P st = Some (r, st1)"
  shows "pwLock st1 \<and> pwOut st1 = pwOut st \<and>
    (\<forall>t vars. r = Some (t, vars) \<longrightarrow> (\<exists>p. Pop (pwBuffer st) = Some (Some p, pwBuffer st1) \<and> t = ReqType p \<and>
       opPrepare P t (Vars p) (pwApp st) = Some (True, vars, pwApp st1)))"
proof -
  obtain pro buf where p: "Pop (pwBuffer st) = Some (pro, buf)" using assms by (auto simp: powSelect_def bind_eq_Some_conv)
  show ?thesis
  proof (cases pro)
    case None
    then show ?thesis using assms p by (auto simp: powSelect_def)
  next
    case (Some q)
    then obtain ok vars a where "opPrepare P (ReqType q) (Vars q) (pwApp st) = Some (ok, vars, a)"
      "r = (if ok then Some (ReqType q, vars) else None)" "st1 = st\<lparr>pwLock := True, pwBuffer := buf, pwApp := a\<rparr>"
      using assms p by (auto simp: powSelect_def Let_def bind_eq_Some_conv)
    then show ?thesis using p Some by auto
  qed
qed

text \<open>Mining executes what was prepared: when a miner sends a message, it has popped the most urgent proposal and prepared it,
  its lock is free again, and any node that receives the message verifies and executes that operation on exactly the prepared
  parameters, whatever bytes these hold.\<close>
theorem EasyPropose_delivers:
  assumes "EasyPropose P dst st = Some st'" "pwOut st' = pwOut st @ [m]"
  shows "\<not> pwLock st' \<and> pmDest m = dst \<and> (\<exists>p vars. Pop (pwBuffer st) = Some (Some p, pwBuffer st') \<and>
    opPrepare P (ReqType p) (Vars p) (pwApp st) = Some (True, vars, pwApp st') \<and>
    (\<forall>R n. EasyHandleMsg R m n = do { (ok, a1) \<leftarrow> opVerify R (ReqType p) vars (pwApp n);
       a2 \<leftarrow> (if ok then opExecute R (ReqType p) a1 else Some a1); Some (True, n\<lparr>pwApp := a2\<rparr>) }))"
proof -
  obtain r st1 where s: "powSelect P st = Some (r, st1)" using assms(1) by (auto simp: EasyPropose_def bind_eq_Some_conv)
  note c = powSelect_cases[OF s]
  obtain t vars where r: "r = Some (t, vars)"
  proof (cases r)
    case None
    then have "pwOut st' = pwOut st" using assms(1) s c by (auto simp: EasyPropose_def powEnable_def)
    then show ?thesis using assms(2) by simp
  qed (use that in fastforce)
  have m: "m = \<lparr>pmType = EasyPoWBroadcast, pmContent = powContent t vars, pmDest = dst\<rparr>" and
    st': "\<not> pwLock st'" "pwBuffer st' = pwBuffer st1" "pwApp st' = pwApp st1"
    using assms s c r by (auto simp: EasyPropose_def powEnable_def)
  obtain p where p: "Pop (pwBuffer st) = Some (Some p, pwBuffer st1)" "t = ReqType p"
    "opPrepare P t (Vars p) (pwApp st) = Some (True, vars, pwApp st1)" using c r by blast
  have "EasyHandleMsg R m n = do { (ok, a1) \<leftarrow> opVerify R t vars (pwApp n);
       a2 \<leftarrow> (if ok then opExecute R t a1 else Some a1); Some (True, n\<lparr>pwApp := a2\<rparr>) }" for R n
    unfolding EasyHandleMsg_def m by (auto simp: verifyExecute_powContent split: Option.bind_split)
  then show ?thesis using p st' m by auto
qed

definition demoOpTable :: "nat Ops" where
  "demoOpTable = \<lparr>opPrepare = (\<lambda>t vs a. if t = ''FideTx'' then Some (True, [''block'', [CHR 0x09]], a + 1) else None),
     opVerify = (\<lambda>t vs a. if t = ''FideTx'' then Some (vs = [''block'', [CHR 0x09]], a) else None),
     opExecute = (\<lambda>t a. Some (a + 10))\<rparr>"

definition demoPow :: "nat Pow" where
  "demoPow = (NewPoWConsensus 0)\<lparr>pwLock := False,
     pwBuffer := NewProposalBuffer\<lparr>pros := [None, Some \<lparr>ReqType = ''FideTx'', Vars = []\<rparr>]\<rparr>\<rparr>"

theorem EasyPropose_delivers_witness:
  "\<exists>st' m. EasyPropose demoOpTable ''all'' demoPow = Some st' \<and> pwOut st' = [m] \<and>
     EasyHandleMsg demoOpTable m demoPow = Some (True, demoPow\<lparr>pwApp := 10\<rparr>)"
proof -
  have "(case EasyPropose demoOpTable ''all'' demoPow of None \<Rightarrow> False | Some st' \<Rightarrow> length (pwOut st') = 1)" by code_simp
  then obtain st' m where e: "EasyPropose demoOpTable ''all'' demoPow = Some st'" "pwOut st' = [m]"
    by (auto split: option.splits simp: length_Suc_conv)
  have o: "pwOut st' = pwOut demoPow @ [m]" using e(2) by (simp add: demoPow_def NewPoWConsensus_def)
  obtain p vars where p: "Pop (pwBuffer demoPow) = Some (Some p, pwBuffer st')"
    "opPrepare demoOpTable (ReqType p) (Vars p) (pwApp demoPow) = Some (True, vars, pwApp st')"
    "EasyHandleMsg demoOpTable m demoPow = do { (ok, a1) \<leftarrow> opVerify demoOpTable (ReqType p) vars (pwApp demoPow);
       a2 \<leftarrow> (if ok then opExecute demoOpTable (ReqType p) a1 else Some a1); Some (True, demoPow\<lparr>pwApp := a2\<rparr>) }"
    using EasyPropose_delivers[OF e(1) o] by blast
  have "ReqType p = ''FideTx''" "vars = [''block'', [CHR 0x09]]"
    using p(2) by (auto simp: demoOpTable_def split: if_splits)
  then have "EasyHandleMsg demoOpTable m demoPow = Some (True, demoPow\<lparr>pwApp := 10\<rparr>)"
    using p(3) by (simp add: demoOpTable_def demoPow_def NewPoWConsensus_def)
  then show ?thesis using e by blast
qed

end
