(* ===== verification/Epoch.thy ===== *)
theory Epoch
  imports Shards Pow Pyramid Monosulfide Monoxide
begin

text \<open>
  The epochs of the identity chain, \<^verbatim>\<open>src/Opts/Op_EpochReset.go\<close>: the operation \<open>EpochResetOpt\<close>, which agrees on
  a block of registrations, and \<open>EpochInit\<close>, which then builds the shards anew; \<^verbatim>\<open>src/Opts/Op_RemoveNode.go\<close> and
  \<^verbatim>\<open>src/Opts/Op_Empty.go\<close>.

  The operation keeps the block between \<open>Verify\<close> and \<open>Execute\<close> (\<open>op.block\<close>, \<open>None\<close> for \<open>nil\<close>).  The running node is
  the entry of \<open>NodeMap\<close> under the key \<open>self\<close>.  \<open>rand.Uint64\<close>, the clock and the orders of iteration are arguments.
  Mining (\<open>for !crypt.IsValidBlock ...\<close>) has fuel, and it has no bound in the code.
\<close>

datatype 'd ShardChain =
    PyramidChain "'d PyrChain" "nat list" "nat list"   \<comment> \<open>with \<open>RelatedIShard\<close> and \<open>RelatedBShard\<close>\<close>
  | FideShardChain "'d FideChain"
  | RelayShardChain "'d RelayChain"

definition resetShard ::
  "nat \<Rightarrow> Lib \<Rightarrow> Conf \<Rightarrow> hash \<Rightarrow> (nat \<Rightarrow> nat) \<Rightarrow> (nat \<Rightarrow> 'd) \<Rightarrow> nat \<Rightarrow> 'd ShardChain option" where
  \<comment> \<open>\<open>Reset\<close> of the shard \<open>i\<close> under \<open>config.CrossShardConsensus\<close>; without one of the three the shard is \<open>nil\<close>\<close>
  "resetShard csc L conf idTop a db i =
     (if csc = Config.Pyramid
      then do { b \<leftarrow> relatedB conf i; r \<leftarrow> relatedI conf i; c \<leftarrow> NewPyrChain conf i (db i); Some (PyramidChain c r b) }
      else if csc = UniRelay then map_option FideShardChain (NewFideChain L conf idTop i (a i) (db i))
      else if csc = ClassicRelay then map_option RelayShardChain (NewRelayChain L conf idTop i (a i) (db i))
      else None)"

record 'd Epoch =
  epCon :: nat                        \<comment> \<open>the id of the consensus whose domain is the local shard\<close>
  epChains :: "'d ShardChain list"
  epDomains :: "Domain list"          \<comment> \<open>\<open>GlobalShards\<close>\<close>
  epLocal :: nat                      \<comment> \<open>the index of \<open>LocalShard\<close>\<close>
  epStartsTxs :: bool                 \<comment> \<open>whether the node starts to package transactions\<close>

definition conIdOf :: "nat \<Rightarrow> nat option" where
  \<comment> \<open>\<open>conId\<close>; \<open>Con[-1]\<close> is \<open>nil\<close>\<close>
  "conIdOf csc = (if csc = Config.Pyramid then Some PyrMod else if csc = UniRelay then Some FideMod
     else if csc = ClassicRelay then Some RelayMod else None)"

definition EpochInit ::
  "nat \<Rightarrow> Lib \<Rightarrow> Settings \<Rightarrow> Conf \<Rightarrow> (nat \<Rightarrow> nat) \<Rightarrow> (nat \<Rightarrow> 'd) \<Rightarrow> bytes \<Rightarrow> 'd IdChain \<Rightarrow> ('d Epoch \<times> 'd IdChain) option" where
  "EpochInit csc L S conf a db self idc =
     do { chains \<leftarrow> mapM (resetShard csc L conf (hashAt (TopBlockHash (IdBlocks idc)) 0) a db) [0..<ShardAmount conf];
          (ds, loc, idc1) \<leftarrow> RDomain L S conf self idc;
          con \<leftarrow> conIdOf csc;
          mainNode idc1;
          Some (\<lparr>epCon = con, epChains = chains, epDomains = ds, epLocal = loc,
                 epStartsTxs = IsIdMainNode self idc1\<rparr>, idc1) }"

subsection \<open>The operation\<close>

record PowState =
  difficulty :: int
  lastUpdateTime :: int

definition verifyTx :: "Lib \<Rightarrow> Transaction \<Rightarrow> 'd IdChain \<Rightarrow> 'd IdChain option" where
  \<comment> \<open>the loop body of \<open>Verify\<close>: whatever the type of the transaction, its sender is registered\<close>
  "verifyTx L tx idc = do { key \<leftarrow> decodePub L (Sender tx); Some (AppendNode L (Recipient tx) key idc) }"

definition EpochVerify ::
  "Lib \<Rightarrow> bool \<Rightarrow> int \<Rightarrow> bytes \<Rightarrow> bytes list \<Rightarrow> StdBlock option \<times> 'd IdChain \<Rightarrow> (bool \<times> StdBlock option \<times> 'd IdChain) option" where
  "EpochVerify L usingPoW diff self vars = (\<lambda>(opBlock, idc).
     do { v \<leftarrow> slot vars 0;
          block \<leftarrow> StdDecode L (Some v);
          me \<leftarrow> mget (NodeMap idc) self;
          if IsPreparing me then Some (True, Some block, idc)
          else if \<not> usingPoW \<or> validPoW L diff block
          then do { idc1 \<leftarrow> foldM (verifyTx L) (Transactions (sB block)) idc;
                    Some (True, Some block, ActivateAll idc1) }
          else Some (False, opBlock, idc) })"

fun mine :: "nat \<Rightarrow> (StdBlock \<Rightarrow> bool) \<Rightarrow> (nat \<Rightarrow> StdBlock option) \<Rightarrow> nat \<Rightarrow> StdBlock option" where
  \<comment> \<open>blocks are generated until one is valid; \<open>gen k\<close> is the result of the \<open>k\<close>-th generation\<close>
  "mine 0 ok gen k = None"
| "mine (Suc n) ok gen k = do { b \<leftarrow> gen k; if ok b then Some b else mine n ok gen (Suc k) }"

definition EpochPrepare ::
  "nat \<Rightarrow> Lib \<Rightarrow> Conf \<Rightarrow> (nat \<Rightarrow> mapOrder) \<Rightarrow> (nat \<Rightarrow> int) \<Rightarrow> bool \<Rightarrow> int \<Rightarrow> bytes \<Rightarrow> 64 word \<Rightarrow>
   StdBlock option \<times> 'd IdChain \<Rightarrow> (bool \<times> bytes list \<times> StdBlock option \<times> 'd IdChain) option" where
  \<comment> \<open>the result of the node's own \<open>Verify\<close> is not looked at\<close>
  "EpochPrepare fuel L conf ord now usingPoW diff self random = (\<lambda>(opBlock, idc).
     let idc1 = ActivateAll idc;
         gen = (\<lambda>k. GenerateIdBlock L conf (ord (2 * k)) (ord (2 * k + 1)) usingPoW (nat \<bar>diff\<bar>) (now k)
                      (UintToBytes random) (IdBlocks idc1))
     in do { newBlock \<leftarrow> mine fuel (\<lambda>b. \<not> usingPoW \<or> validPoW L diff b) gen 0;
             let byteBlock = encStd L newBlock
             in do { (_, op1, idc2) \<leftarrow> EpochVerify L usingPoW diff self [byteBlock] (opBlock, idc1);
                     Some (True, [byteBlock], op1, idc2) } })"

definition EpochExecute ::
  "nat \<Rightarrow> Lib \<Rightarrow> Settings \<Rightarrow> Conf \<Rightarrow> 'd KV \<Rightarrow> int \<Rightarrow> bool \<Rightarrow> (nat \<Rightarrow> nat) \<Rightarrow> (nat \<Rightarrow> 'd) \<Rightarrow> bytes \<Rightarrow>
   StdBlock option \<times> PowState \<times> 'd IdChain \<Rightarrow> ('d Epoch \<times> PowState \<times> 'd IdChain) option" where
  "EpochExecute csc L S conf kv expTime usingPoW a db self = (\<lambda>(opBlock, pw, idc).
     do { b \<leftarrow> opBlock;
          idc1 \<leftarrow> IdChain.Append L conf kv b idc;
          (d, t) \<leftarrow> (if usingPoW then UpdateDifficulty expTime (sH b) (difficulty pw, lastUpdateTime pw)
                     else Some (difficulty pw, lastUpdateTime pw));
          (ep, idc2) \<leftarrow> EpochInit csc L S conf a db self idc1;
          Some (ep, \<lparr>difficulty = d, lastUpdateTime = t\<rparr>, idc2) })"

subsection \<open>Views that agree\<close>

definition sameView :: "View \<Rightarrow> View \<Rightarrow> bool" where
  \<comment> \<open>up to the order of the node map\<close>
  "sameView v v' \<longleftrightarrow> sameNodes (vMap v) (vMap v') \<and> vRound v = vRound v' \<and> vView v = vView v' \<and> vRand v = vRand v' \<and> vMain v = vMain v'"

lemma mput_fresh: "mget m k = None \<Longrightarrow> mput k v m = m @ [(k, v)]"
  by (induction m) auto

lemma registerNode_same:
  assumes "registerNode L tx m = Some n" "registerNode L tx m' = Some n'" "sameNodes m m'" "mwf m"
  shows "sameNodes n n' \<and> mwf n"
proof -
  have g: "mget m' = mget m" using sameNodes_mget[OF assms(3,4)] by blast
  have app: "sameNodes (mput k v m) (mput k v m')" if "mget m k = None" for k v
    using assms(3) mput_fresh[OF that] mput_fresh[of m' k v] that g by (simp add: sameNodes_def)
  show ?thesis
  proof (cases "TxType tx \<noteq> RegisterTx \<or> mget m (Sender tx) \<noteq> None")
    case True
    then show ?thesis using assms g by (auto simp: registerNode_def)
  next
    case False
    then obtain key where key: "decodePub L (Sender tx) = Some key" using assms(1) by (auto simp: registerNode_def bind_eq_Some_conv)
    show ?thesis
    proof (cases "mget m (encodePub L key)")
      case None
      let ?v = "\<lparr>NodeId = key, ShardID = 0, IpAddr = Recipient tx, Activating = False, Sleeping = True, Silence = 0\<rparr>"
      have "n = mput (encodePub L key) ?v m" "n' = mput (encodePub L key) ?v m'"
        using assms(1,2) False None key g by (simp_all add: registerNode_def)
      then show ?thesis using app[OF None] assms(4) by simp
    next
      case (Some x)
      then show ?thesis using assms False key g by (simp add: registerNode_def)
    qed
  qed
qed

lemma registerNodes_same:
  "foldM (registerNode L) txs m = Some n \<Longrightarrow> foldM (registerNode L) txs m' = Some n' \<Longrightarrow> sameNodes m m' \<Longrightarrow> mwf m \<Longrightarrow>
   sameNodes n n' \<and> mwf n"
proof (induction txs arbitrary: m m')
  case (Cons tx txs)
  obtain m1 m1' where "registerNode L tx m = Some m1" "foldM (registerNode L) txs m1 = Some n"
    "registerNode L tx m' = Some m1'" "foldM (registerNode L) txs m1' = Some n'"
    using Cons.prems(1,2) by (auto simp: bind_eq_Some_conv)
  then show ?case using registerNode_same[of L tx m m1 m' m1'] Cons.IH[of m1 m1'] Cons.prems(3,4) by blast
qed auto

lemma applyBlock_same:
  assumes "applyBlock L b v = Some w" "applyBlock L b v' = Some w'" "sameView v v'" "mwf (vMap v)" "keysApart (vMap w)"
  shows "sameView w w'"
proof -
  obtain m m' where m: "foldM (registerNode L) (Transactions (sB b)) (vMap v) = Some m"
    "foldM (registerNode L) (Transactions (sB b)) (vMap v') = Some m'"
    using assms(1,2) by (auto simp: applyBlock_def bind_eq_Some_conv)
  let ?f = "mapNodes (confirm \<circ> activate)"
  have s: "sameNodes (?f m) (?f m')"
    using registerNodes_same[OF m] assms(3,4) sameNodes_mapNodes by (auto simp: sameView_def)
  have len: "length (?f m) = length (?f m')" using s unfolding sameNodes_def by (rule mset_eq_length)
  show ?thesis
  proof (cases "length (?f m) = 1")
    case True
    then obtain x y where "?f m = [x]" "?f m' = [y]" using len by (metis One_nat_def length_0_conv length_Suc_conv)
    then have "hd (?f m) = hd (?f m')" using s by (simp add: sameNodes_def)
    moreover have "w = v\<lparr>vMap := ?f m, vRound := vRound v + 1, vView := 0, vMain := Some (fst (hd (?f m)))\<rparr>"
      using assms(1) m True by (simp add: applyBlock_def Let_def)
    moreover have "w' = v'\<lparr>vMap := ?f m', vRound := vRound v' + 1, vView := 0, vMain := Some (fst (hd (?f m')))\<rparr>"
      using assms(2) m True len by (simp add: applyBlock_def Let_def)
    ultimately show ?thesis using assms(3) s by (simp add: sameView_def)
  next
    case False
    have vm: "vMap w = ?f m" using assms(1) m False by (auto simp: applyBlock_def Let_def bind_eq_Some_conv)
    then have "SelectRandomKey (?f m) r = SelectRandomKey (?f m') r" for r using draw_same[OF s] assms(5) by simp
    then show ?thesis
      using assms(1-3) m s False len pointer_same[OF s] by (auto simp: applyBlock_def sameView_def Let_def bind_eq_Some_conv)
  qed
qed

text \<open>C27: The nodes agree on every epoch. Two nodes with the same view of the identity chain, in whatever order their maps are read,
  that execute the same epoch block come out with the same view and build the same shards: the same nodes in each, with the same main
  node; provided no two nodes share a modulus and the spy does not choose the main node.\<close>
theorem epoch_views_agree:
  assumes "EpochExecute csc L S conf kv expTime usingPoW a db self (Some b, pw, idc) = Some (ep, pw1, out)"
    and "EpochExecute csc L S conf kv' expTime usingPoW a' db' self' (Some b, pw', idc') = Some (ep', pw1', out')"
    and "sameView (viewOf idc) (viewOf idc')" "viewOk L (viewOf idc)" "keysApart (NodeMap out)"
    and "\<not> (enableSpy S \<and> spyIsMainNode S)"
  shows "sameView (viewOf out) (viewOf out') \<and> list_all2 sameDomain (epDomains ep) (epDomains ep')"
proof -
  obtain idc1 ds loc where 1: "IdChain.Append L conf kv b idc = Some idc1" "RDomain L S conf self idc1 = Some (ds, loc, out)"
    "epDomains ep = ds"
    using assms(1) by (auto simp: EpochExecute_def EpochInit_def bind_eq_Some_conv)
  obtain idc1' ds' loc' where 2: "IdChain.Append L conf kv' b idc' = Some idc1'" "RDomain L S conf self' idc1' = Some (ds', loc', out')"
    "epDomains ep' = ds'"
    using assms(2) by (auto simp: EpochExecute_def EpochInit_def bind_eq_Some_conv)
  have o: "\<exists>m. out = idc1\<lparr>NodeMap := m\<rparr> \<and> keysApart m = keysApart (NodeMap idc1)" "\<exists>m. out' = idc1'\<lparr>NodeMap := m\<rparr>"
    using 1(2) 2(2) by (auto simp: RDomain_def bind_eq_Some_conv dest!: assign_all)
  then have ka: "keysApart (NodeMap idc1)" using assms(5) by auto
  have sv: "sameView (viewOf idc1) (viewOf idc1')"
    using applyBlock_same[OF applyBlock_Append[OF 1(1)] applyBlock_Append[OF 2(1)] assms(3)] assms(4) ka
    by (simp add: viewOk_def viewOf_def)
  then have "list_all2 sameDomain ds ds' \<and> sameNodes (NodeMap out) (NodeMap out')"
    by (intro RDomain_same[OF 1(2) 2(2) _ _ ka assms(6)]) (simp_all add: sameView_def viewOf_def)
  then show ?thesis using sv o 1(3) 2(3) by (auto simp: sameView_def viewOf_def)
qed

subsection \<open>Verifying registers\<close>

lemma verifyTx_node:
  "verifyTx L tx idc = Some idc' \<Longrightarrow> \<exists>key. decodePub L (Sender tx) = Some key \<and>
     (mget (NodeMap idc) k \<noteq> None \<longrightarrow> mget (NodeMap idc') k = mget (NodeMap idc) k) \<and>
     (mget (NodeMap idc) k = None \<longrightarrow> mget (NodeMap idc') k = (if k = encodePub L key
        then Some \<lparr>NodeId = key, ShardID = 0, IpAddr = Recipient tx, Activating = False, Sleeping = True, Silence = 0\<rparr>
        else None))"
  by (auto simp: verifyTx_def AppendNode_def Let_def bind_eq_Some_conv)

lemma verifyTxs_keep:
  "foldM (verifyTx L) txs idc = Some idc' \<Longrightarrow> mget (NodeMap idc) k = Some n \<Longrightarrow> mget (NodeMap idc') k = Some n"
proof (induction txs arbitrary: idc)
  case (Cons tx txs)
  then obtain idc1 where 1: "verifyTx L tx idc = Some idc1" "foldM (verifyTx L) txs idc1 = Some idc'" by (auto simp: bind_eq_Some_conv)
  then show ?case using Cons.IH[OF 1(2)] Cons.prems(2) verifyTx_node[OF 1(1), of k] by auto
qed simp

lemma verifyTxs_new:
  assumes "foldM (verifyTx L) txs idc = Some idc'" "mget (NodeMap idc) k = None"
    "tx \<in> set txs" "decodePub L (Sender tx) = Some key" "encodePub L key = k"
  shows "\<exists>n. mget (NodeMap idc') k = Some n \<and> Sleeping n \<and> \<not> Activating n"
  using assms
proof (induction txs arbitrary: idc)
  case (Cons t txs)
  then obtain idc1 where 1: "verifyTx L t idc = Some idc1" "foldM (verifyTx L) txs idc1 = Some idc'" by (auto simp: bind_eq_Some_conv)
  note v = verifyTx_node[OF 1(1), of k]
  show ?case
  proof (cases "mget (NodeMap idc1) k")
    case None
    then have "tx \<in> set txs" using v Cons.prems by auto
    then show ?thesis using Cons.IH[OF 1(2) None] Cons.prems(4,5) by blast
  next
    case (Some n)
    then have "Sleeping n \<and> \<not> Activating n" using v Cons.prems(2) by (auto split: if_splits)
    then show ?thesis using verifyTxs_keep[OF 1(2) Some] by blast
  qed
qed simp

lemma registerNode_keep: "registerNode L tx m = Some m' \<Longrightarrow> mget m k = Some n \<Longrightarrow> mget m' k = Some n"
  by (auto simp: registerNode_def bind_eq_Some_conv split: if_splits)

lemma registerNode_absent:
  "registerNode L tx m = Some m' \<Longrightarrow> mget m k = None \<Longrightarrow> (\<And>key. decodePub L (Sender tx) = Some key \<Longrightarrow> encodePub L key \<noteq> k) \<Longrightarrow>
   mget m' k = None"
  by (auto simp: registerNode_def bind_eq_Some_conv split: if_splits)

lemma Append_nodes:
  assumes "IdChain.Append L conf kv b idc = Some idc'"
  obtains m where "foldM (registerNode L) (Transactions (sB b)) (NodeMap idc) = Some m"
    "NodeMap idc' = mapNodes (confirm \<circ> activate) m"
proof -
  have "applyBlock L b (viewOf idc) = Some (viewOf idc')" by (rule applyBlock_Append[OF assms])
  then show ?thesis
    using that by (auto simp: applyBlock_def viewOf_def Let_def bind_eq_Some_conv split: if_splits)
qed

text \<open>Verifying an epoch block already registers its nodes. A node that has verified a proposed block, and then sees another block
  executed in its place, has the nodes of the block that was never executed in its map, as running nodes, while a node that did not
  verify it has not: their views of the identity chain, and with them their thresholds and shards, differ from then on.\<close>
theorem epoch_verify_leaks:
  assumes "EpochVerify L usingPoW diff self vars (opBlock, idc) = Some (True, Some b, idc1)"
    and "mget (NodeMap idc) self = Some me" "\<not> IsPreparing me"
    and "tx \<in> set (Transactions (sB b))" "decodePub L (Sender tx) = Some key" "mget (NodeMap idc) (encodePub L key) = None"
    and "IdChain.Append L conf kv b' idc1 = Some idc1'" "IdChain.Append L conf kv' b' idc = Some idc'"
    and "\<forall>t\<in>set (Transactions (sB b')). \<forall>key'. decodePub L (Sender t) = Some key' \<longrightarrow> encodePub L key' \<noteq> encodePub L key"
  shows "(\<exists>n. mget (NodeMap idc1') (encodePub L key) = Some n \<and> IsRunning n) \<and> mget (NodeMap idc') (encodePub L key) = None"
proof
  let ?k = "encodePub L key"
  obtain i where i: "foldM (verifyTx L) (Transactions (sB b)) idc = Some i" "idc1 = ActivateAll i"
    using assms(1-3) by (auto simp: EpochVerify_def bind_eq_Some_conv split: if_splits)
  obtain n where n: "mget (NodeMap i) ?k = Some n" "Sleeping n" "\<not> Activating n"
    using verifyTxs_new[OF i(1) assms(6,4,5)] by blast
  then have 1: "mget (NodeMap idc1) ?k = Some (activate n)" using i(2) by (simp add: ActivateAll_def)
  obtain m where m: "foldM (registerNode L) (Transactions (sB b')) (NodeMap idc1) = Some m"
    "NodeMap idc1' = mapNodes (confirm \<circ> activate) m" by (rule Append_nodes[OF assms(7)])
  have "mget m ?k = Some (activate n)"
    by (rule foldM_invariant[OF m(1), of "\<lambda>m. mget m ?k = Some (activate n)"]) (use 1 registerNode_keep in blast)+
  then show "\<exists>n. mget (NodeMap idc1') ?k = Some n \<and> IsRunning n"
    using n m(2) by (simp add: activate_def confirm_def IsRunning_def)
  obtain m' where m': "foldM (registerNode L) (Transactions (sB b')) (NodeMap idc) = Some m'"
    "NodeMap idc' = mapNodes (confirm \<circ> activate) m'" by (rule Append_nodes[OF assms(8)])
  have "mget m' ?k = None"
  proof (rule foldM_invariant[OF m'(1), of "\<lambda>m. mget m ?k = None"])
    fix t s s'
    assume "t \<in> set (Transactions (sB b'))" "mget s ?k = None" "registerNode L t s = Some s'"
    then show "mget s' ?k = None" using registerNode_absent[of L t s s' ?k] assms(9) by blast
  qed (use assms(6) in simp)
  then show "mget (NodeMap idc') ?k = None" using m'(2) by simp
qed

subsection \<open>Mining can stop for good\<close>

lemma mine_never: "(\<And>b. \<not> ok b) \<Longrightarrow> mine n ok gen k = None"
  by (induction n arbitrary: k) (auto split: Option.bind_split)

text \<open>C28: An epoch block with a stale time stops the identity chain for good under proof of work. Nothing checks the time in the
  head: once a block is executed whose time is not later than the last update, the difficulty is zero or negative, no block is valid any
  more, no running node accepts another, and a node that prepares an epoch mines forever.\<close>
theorem stale_block_halts_mining:
  assumes "EpochExecute csc L S conf kv expTime True a db self (Some b, pw, idc) = Some (ep, pw', out)"
    and "0 < expTime" "0 \<le> difficulty pw" "Timestamp (sH b) \<le> lastUpdateTime pw"
  shows "difficulty pw' \<le> 0 \<and>
    EpochPrepare fuel L conf' ord now True (difficulty pw') self' random st = None \<and>
    (\<forall>vars op idc2 me r. mget (NodeMap idc2) self' = Some me \<longrightarrow> \<not> IsPreparing me \<longrightarrow>
       EpochVerify L True (difficulty pw') self' vars (op, idc2) = Some r \<longrightarrow> r = (False, op, idc2))"
proof -
  obtain t where "UpdateDifficulty expTime (sH b) (difficulty pw, lastUpdateTime pw) = Some (difficulty pw', t)"
    using assms(1) by (auto simp: EpochExecute_def bind_eq_Some_conv)
  from stale_difficulty[OF this assms(2-4)] have d: "difficulty pw' \<le> 0" .
  note nv = no_valid_block[OF d]
  have "EpochPrepare fuel L conf' ord now True (difficulty pw') self' random st = None"
    by (cases st) (simp add: EpochPrepare_def Let_def mine_never nv)
  moreover have "r = (False, op, idc2)" if "mget (NodeMap idc2) self' = Some me" "\<not> IsPreparing me"
    "EpochVerify L True (difficulty pw') self' vars (op, idc2) = Some r" for vars op idc2 me r
    using that nv by (auto simp: EpochVerify_def bind_eq_Some_conv)
  ultimately show ?thesis using d by blast
qed

subsection \<open>Examples\<close>

definition quietBlock :: StdBlock where
  \<comment> \<open>an epoch block that registers no one\<close>
  "quietBlock = (demoStd ''q'' [(0, ''g'')])\<lparr>sB := \<lparr>Transactions = [], BInterface = None\<rparr>\<rparr>"

definition runEpoch :: "bool \<Rightarrow> bytes \<Rightarrow> ((bytes \<times> bytes) \<times> bytes) list IdChain \<Rightarrow>
    (((bytes \<times> bytes) \<times> bytes) list Epoch \<times> PowState \<times> ((bytes \<times> bytes) \<times> bytes) list IdChain) option" where
  "runEpoch pow self idc = EpochExecute UniRelay demoLib noSpy shardConf demoKV 60 pow (\<lambda>i. i) (\<lambda>i. []) self
     (Some quietBlock, \<lparr>difficulty = 100, lastUpdateTime = 5\<rparr>, idc)"

definition otherIdc :: "((bytes \<times> bytes) \<times> bytes) list IdChain" where
  \<comment> \<open>another node, which meets the nodes in another order\<close>
  "otherIdc = shardIdc\<lparr>NodeMap := rev (NodeMap shardIdc)\<rparr>"

theorem epoch_views_agree_witness:
  "\<exists>ep pw out ep' pw' out'. runEpoch False ''a'' shardIdc = Some (ep, pw, out) \<and> runEpoch False ''b'' otherIdc = Some (ep', pw', out') \<and>
     epLocal ep \<noteq> epLocal ep' \<and> list_all2 sameDomain (epDomains ep) (epDomains ep')"
proof -
  have "(case (runEpoch False ''a'' shardIdc, runEpoch False ''b'' otherIdc) of
      (Some (ep, pw, out), Some (ep', pw', out')) \<Rightarrow> epLocal ep \<noteq> epLocal ep' \<and> map (keyN \<circ> NodeId \<circ> snd) (NodeMap out) = [97, 98, 99]
    | _ \<Rightarrow> False)" by code_simp
  then obtain ep pw out ep' pw' out' where r: "runEpoch False ''a'' shardIdc = Some (ep, pw, out)"
    "runEpoch False ''b'' otherIdc = Some (ep', pw', out')" "epLocal ep \<noteq> epLocal ep'" "map (keyN \<circ> NodeId \<circ> snd) (NodeMap out) = [97, 98, 99]"
    by (auto split: option.splits prod.splits)
  have "distinct (map (keyN \<circ> NodeId \<circ> snd) (NodeMap out))" unfolding r(4) by simp
  then have ka: "keysApart (NodeMap out)"
    by (auto simp: keysApart_def inj_on_def distinct_map)
  have sv: "sameView (viewOf shardIdc) (viewOf otherIdc)"
    by (simp add: sameView_def viewOf_def otherIdc_def sameNodes_def)
  have "\<not> (enableSpy noSpy \<and> spyIsMainNode noSpy)" by (simp add: noSpy_def)
  from epoch_views_agree[OF r(1,2)[unfolded runEpoch_def] sv shardIdc_ok ka this] r show ?thesis by blast
qed

theorem stale_block_halts_mining_witness:
  "\<exists>ep pw out. runEpoch True ''a'' shardIdc = Some (ep, pw, out) \<and> difficulty pw \<le> 0 \<and>
     EpochPrepare 99 demoLib shardConf (\<lambda>k kvs. kvs) int True (difficulty pw) ''a'' 7 (None, out) = None"
proof -
  have "runEpoch True ''a'' shardIdc \<noteq> None" by code_simp
  then obtain ep pw out where r: "runEpoch True ''a'' shardIdc = Some (ep, pw, out)" by auto
  have "0 < (60 :: int)" "0 \<le> difficulty \<lparr>difficulty = 100, lastUpdateTime = 5\<rparr>"
    "Timestamp (sH quietBlock) \<le> lastUpdateTime \<lparr>difficulty = 100, lastUpdateTime = 5\<rparr>"
    by (simp_all add: quietBlock_def demoStd_def)
  from stale_block_halts_mining[OF r[unfolded runEpoch_def] this] r show ?thesis by blast
qed

definition leakLib :: Lib where
  \<comment> \<open>blocks are coded to their root, and the block that registers the node \<open>d\<close> can be decoded\<close>
  "leakLib = demoLib\<lparr>decStd := \<lambda>x. if x = ''d'' then Some (demoStd ''d'' [(0, ''g'')]) else None\<rparr>"

theorem epoch_verify_leaks_witness:
  "\<exists>b idc1 new old. EpochVerify leakLib False 0 ''a'' [''d''] (None, shardIdc) = Some (True, Some b, idc1) \<and>
     IdChain.Append leakLib shardConf demoKV quietBlock idc1 = Some new \<and>
     IdChain.Append leakLib shardConf demoKV quietBlock shardIdc = Some old \<and>
     mget (NodeMap new) ''d'' \<noteq> None \<and> mget (NodeMap old) ''d'' = None"
proof -
  have "(case EpochVerify leakLib False 0 ''a'' [''d''] (None, shardIdc) of Some (True, Some b, idc1) \<Rightarrow>
       Transactions (sB b) = Transactions (sB (demoStd ''d'' [])) \<and>
       IdChain.Append leakLib shardConf demoKV quietBlock idc1 \<noteq> None | _ \<Rightarrow> False)" by code_simp
  then obtain b idc1 new where r: "EpochVerify leakLib False 0 ''a'' [''d''] (None, shardIdc) = Some (True, Some b, idc1)"
    "Transactions (sB b) = Transactions (sB (demoStd ''d'' []))" "IdChain.Append leakLib shardConf demoKV quietBlock idc1 = Some new"
    by (auto split: option.splits bool.splits)
  have "IdChain.Append leakLib shardConf demoKV quietBlock shardIdc \<noteq> None" by code_simp
  then obtain old where old: "IdChain.Append leakLib shardConf demoKV quietBlock shardIdc = Some old" by blast
  have me: "mget (NodeMap shardIdc) ''a'' = Some (portNode 97 ''10'')" "\<not> IsPreparing (portNode 97 ''10'')"
    by (simp_all add: shardIdc_def portNode_def IsPreparing_def)
  let ?tx = "GenerateRegisterTx ''d'' ''10.0.0.1:1'' 0" and ?key = "\<lparr>keyN = 100, keyE = 3\<rparr>"
  have tx: "?tx \<in> set (Transactions (sB b))" by (simp add: r(2) demoStd_def)
  have d: "decodePub leakLib (Sender ?tx) = Some ?key" "encodePub leakLib ?key = ''d''" "mget (NodeMap shardIdc) ''d'' = None"
    by code_simp+
  have q: "\<forall>t\<in>set (Transactions (sB quietBlock)). \<forall>key'. decodePub leakLib (Sender t) = Some key' \<longrightarrow>
      encodePub leakLib key' \<noteq> encodePub leakLib ?key" by (simp add: quietBlock_def)
  have n: "mget (NodeMap shardIdc) (encodePub leakLib ?key) = None" using d by simp
  from epoch_verify_leaks[OF r(1) me tx d(1) n r(3) old q] r old d show ?thesis by auto
qed

subsection \<open>The other operations on the identity chain\<close>

definition RemoveNodeVerify :: "bytes list \<Rightarrow> bool option" where
  \<comment> \<open>both branches answer \<open>false\<close>\<close>
  "RemoveNodeVerify vars = do { slot vars 0; Some False }"

definition EmptyPrepare :: bool where "EmptyPrepare = True"
definition EmptyVerify :: bool where "EmptyVerify = True"

end
