(* ===== verification/Sync.thy ===== *)
theory Sync
  imports Shards Pyramid Monosulfide
begin

text \<open>
  How the blocks of a shard reach the nodes of the others: \<^verbatim>\<open>src/Comm/MonosulfideComm/SyncFideBlock.go\<close>, its copy
  \<^verbatim>\<open>src/Comm/MonoxideComm/SyncRelayBlock.go\<close> and \<^verbatim>\<open>src/Comm/PyramidComm/SyncIBlock.go\<close>.  The main node of the
  shard sends the block, its other nodes send the hash, and a receiver appends the block when it has it and has
  counted \<open>Threshold\<close> messages for its hash.

  The three handlers have the same shape.  \<open>HandleSync\<close> is that shape, and what they do differently with the block and
  the local chain \<open>'c\<close> is the record \<open>SyncRule\<close>; \<open>fideRule\<close> and \<open>iblockRule\<close> are its two instances.
\<close>

record SyncEnv =
  syNodes :: nodeMap
  syShards :: "Domain list"

record ('b, 'c) SyncRule =
  srHash :: "'b \<Rightarrow> hash"
  srDecode :: "bytes \<Rightarrow> 'b option"
  srKnown :: "hash \<Rightarrow> 'c \<Rightarrow> bool"
  srAccepts :: "nat \<Rightarrow> 'b \<Rightarrow> (hash, 'b) gomap \<Rightarrow> 'c \<Rightarrow> bool option"   \<comment> \<open>\<open>None\<close> where the refusal panics\<close>
  srReplica :: "bytes list \<Rightarrow> bool"                             \<comment> \<open>the fields of a replica's message can be read\<close>
  srReady :: "nat \<Rightarrow> 'b \<Rightarrow> bool \<Rightarrow> 'c \<Rightarrow> bool"                   \<comment> \<open>the last test before \<open>Append\<close>, given \<open>finish\<close>\<close>
  srAppend :: "nat \<Rightarrow> 'b \<Rightarrow> 'c \<Rightarrow> 'c option"

record 'b Sync =
  reqCnt :: "(nat, (hash, 64 word) gomap) gomap"
  syBlocks :: "(nat, (hash, 'b) gomap) gomap"
  finish :: "(nat, (hash, bool) gomap) gomap"

definition SyncReset :: "'b Sync" where
  "SyncReset = \<lparr>reqCnt = [], syBlocks = [], finish = []\<rparr>"

definition finished :: "'b Sync \<Rightarrow> nat \<Rightarrow> hash \<Rightarrow> bool" where
  "finished st sid h = getOr (getOr (finish st) sid []) h False"

definition countsOf :: "'b Sync \<Rightarrow> nat \<Rightarrow> (hash, 64 word) gomap" where
  "countsOf st sid = getOr (reqCnt st) sid []"

definition blocksOf :: "'b Sync \<Rightarrow> nat \<Rightarrow> (hash, 'b) gomap" where
  "blocksOf st sid = getOr (syBlocks st) sid []"

definition openShard :: "nat \<Rightarrow> 'b Sync \<Rightarrow> 'b Sync" where
  \<comment> \<open>the maps of a shard are made at its first message\<close>
  "openShard sid st =
     (if mget (reqCnt st) sid = None
      then st\<lparr>syBlocks := mput sid [] (syBlocks st), reqCnt := mput sid [] (reqCnt st), finish := mput sid [] (finish st)\<rparr>
      else st)"

definition keepBlock :: "nat \<Rightarrow> hash \<Rightarrow> 'b \<Rightarrow> 'b Sync \<Rightarrow> 'b Sync" where
  "keepBlock sid h b st = st\<lparr>syBlocks := mput sid (mput h b (blocksOf st sid)) (syBlocks st)\<rparr>"

definition countAck :: "nat \<Rightarrow> hash \<Rightarrow> 'b Sync \<Rightarrow> 'b Sync" where
  "countAck sid h st =
     st\<lparr>reqCnt := mput sid (mput h (getOr (countsOf st sid) h 0 + 1) (countsOf st sid)) (reqCnt st)\<rparr>"

definition doneWith :: "nat \<Rightarrow> hash \<Rightarrow> 'b Sync \<Rightarrow> 'b Sync" where
  "doneWith sid h st =
     st\<lparr>syBlocks := mput sid (mdel h (blocksOf st sid)) (syBlocks st),
        reqCnt := mput sid (mdel h (countsOf st sid)) (reqCnt st),
        finish := mput sid (mput h True (getOr (finish st) sid [])) (finish st)\<rparr>"

type_synonym ackOrder = "(hash \<times> 64 word) list \<Rightarrow> (hash \<times> 64 word) list"

definition toAppend :: "('b, 'c) SyncRule \<Rightarrow> 64 word \<Rightarrow> nat \<Rightarrow> 'b Sync \<Rightarrow> 'c \<Rightarrow> hash \<times> 64 word \<Rightarrow> bool" where
  \<comment> \<open>the entry at which the loop of \<open>CheckBlock\<close> does not go on\<close>
  "toAppend R thr rid st c = (\<lambda>(h, cnt).
     (case mget (blocksOf st rid) h of None \<Rightarrow> False
      | Some b \<Rightarrow> thr \<le> cnt \<and> srReady R rid b (finished st rid h) c))"

fun checkLoop :: "nat \<Rightarrow> ('b, 'c) SyncRule \<Rightarrow> 64 word \<Rightarrow> ackOrder \<Rightarrow> nat \<Rightarrow> 'b Sync \<times> 'c \<Rightarrow> ('b Sync \<times> 'c) option" where
  \<comment> \<open>\<open>CheckBlock\<close> appends one block and calls itself; each call takes one entry out of the counts\<close>
  "checkLoop 0 R thr ord rid s = None"
| "checkLoop (Suc n) R thr ord rid (st, c) =
     (case find (toAppend R thr rid st c) (ord (countsOf st rid)) of
        None \<Rightarrow> Some (st, c)
      | Some (h, cnt) \<Rightarrow>
          do { b \<leftarrow> mget (blocksOf st rid) h;
               c' \<leftarrow> srAppend R rid b c;
               checkLoop n R thr ord rid (doneWith rid h st, c') })"

definition CheckBlock :: "SyncEnv \<Rightarrow> ('b, 'c) SyncRule \<Rightarrow> ackOrder \<Rightarrow> nat \<Rightarrow> 'b Sync \<times> 'c \<Rightarrow> ('b Sync \<times> 'c) option" where
  "CheckBlock E R ord rid s =
     do { d \<leftarrow> slot (syShards E) rid;
          checkLoop (Suc (length (countsOf (fst s) rid))) R (domainThreshold d) ord rid s }"

definition HandleSync ::
  "SyncEnv \<Rightarrow> ('b, 'c) SyncRule \<Rightarrow> ackOrder \<Rightarrow> Message \<Rightarrow> 'b Sync \<times> 'c \<Rightarrow> (bool \<times> 'b Sync \<times> 'c) option" where
  "HandleSync E R ord msg = (\<lambda>(st, c).
     do { remoteNode \<leftarrow> mget (syNodes E) (RemoteInfo msg);
          remoteShard \<leftarrow> slot (syShards E) (ShardID remoteNode);
          let sid = dSid remoteShard; st1 = openShard sid st; contents = ParseContent (MsgContent msg)
          in do { x \<leftarrow> slot contents 0;
                  r \<leftarrow> (if dMain remoteShard = Some (RemoteInfo msg)
                        then do { block \<leftarrow> srDecode R x;
                                  let h = srHash R block
                                  in do { ok \<leftarrow> (if srKnown R h c then Some True
                                                else srAccepts R sid block (blocksOf st1 sid) c);
                                          Some (if ok then Some (h, keepBlock sid h block st1) else None) } }
                        else if srReplica R contents then Some (Some (x, st1)) else None);
                  case r of
                    None \<Rightarrow> Some (False, st1, c)
                  | Some (h, st2) \<Rightarrow>
                      if finished st2 sid h then Some (True, st2, c)
                      else do { s3 \<leftarrow> CheckBlock E R ord sid (countAck sid h st2, c); Some (True, s3) } } })"

subsection \<open>The instances\<close>

definition fideRule ::
  "Lib \<Rightarrow> Conf \<Rightarrow> 'd KV \<Rightarrow> schedule \<Rightarrow> clock \<Rightarrow> clock \<Rightarrow> (bytes \<Rightarrow> nat) \<Rightarrow> (FideBlock, 'd FideChain) SyncRule" where
  \<comment> \<open>the last argument gives the address at which a block is decoded; the log line of a replica's message reads a nonce\<close>
  "fideRule L conf kv sched clock clock' at =
     \<lparr>srHash = FideBHash L, srDecode = (\<lambda>x. decFide L x (at x)), srKnown = (\<lambda>h c. mget (fcBlocks c) h \<noteq> None),
      srAccepts = (\<lambda>sid b blocks c. Some (\<not> (hashAt (fcTop c) sid \<noteq> fideParent b \<and>
        hashAt (fcTop c) sid \<noteq> FideBHash L b \<and> mget blocks (fideParent b) = None))),
      srReplica = (\<lambda>contents. do { f \<leftarrow> slot contents 1; BytesToUint f } \<noteq> None),
      srReady = (\<lambda>sid b fin c. \<not> fin),
      srAppend = (\<lambda>sid b c. Monosulfide.Append L conf kv sched clock clock' b c)\<rparr>"

definition iblockRule ::
  "nat \<Rightarrow> Lib \<Rightarrow> Conf \<Rightarrow> 'd KV \<Rightarrow> hash \<Rightarrow> nat \<Rightarrow> nat list \<Rightarrow> (StdBlock, 'd PyrChain) SyncRule" where
  \<comment> \<open>the log line of a refused block dereferences the block of the local top\<close>
  "iblockRule fuel L conf kv idTop own rel =
     \<lparr>srHash = StdHash L, srDecode = decStd L, srKnown = (\<lambda>h c. mget (pcBlocks c) h \<noteq> None),
      srAccepts = (\<lambda>sid b blocks c.
        if hashAt (pcTop c) sid \<noteq> hashAt (ParentHashes (sH b)) sid \<and>
           \<not> (getOr (TopHashToBeConfirmed c) sid False \<and> hashAt (pcTop c) sid = StdHash L b)
        then (if mget (pcBlocks c) (hashAt (pcTop c) sid) = None then None else Some False) else Some True),
      srReplica = (\<lambda>contents. True),
      srReady = (\<lambda>sid b fin c. mget (pcBlocks c) (hashAt (ParentHashes (sH b)) sid) \<noteq> None),
      srAppend = (\<lambda>sid b c. Pyramid.Append fuel L conf kv idTop own rel b sid c)\<rparr>"

subsection \<open>Sending\<close>

definition lightFor :: "Conf \<Rightarrow> nat \<Rightarrow> nat \<Rightarrow> FideBlock \<Rightarrow> FideBlock option" where
  \<comment> \<open>the block with the body of the shard \<open>sid\<close> only, in a new object\<close>
  "lightFor conf a sid block =
     (if length (SubBlocks block) > shards conf then None
      else do { subs \<leftarrow> mapM (\<lambda>(i, sb). do { b \<leftarrow> sb;
                   Some (Some \<lparr>CHead = CHead b, CBody = (if i = sid then CBody b else None)\<rparr>) })
                   (zip [0..<length (SubBlocks block)] (SubBlocks block));
                Some \<lparr>fH = fH block, SubBlocks = subs @ replicate (shards conf - length subs) None, addr = a\<rparr> })"

definition syncContent :: "Lib \<Rightarrow> bool \<Rightarrow> FideBlock \<Rightarrow> FideBlock \<Rightarrow> bytes option" where
  \<comment> \<open>what is sent of a block and its light form, by the main node or by another; \<open>Encode\<close> runs in any case\<close>
  "syncContent L isMain block temp =
     do { bb \<leftarrow> FideEncode L temp;
          Some (if isMain then NewByteContent [bb]
                else AppendByteContent (NewByteContent [FideBHash L temp]) [UintToBytes (fNonce (fH block))]) }"

definition SyncFideRequest ::
  "Lib \<Rightarrow> Conf \<Rightarrow> SyncEnv \<Rightarrow> nat \<Rightarrow> bytes \<Rightarrow> nat \<Rightarrow> 'd FideChain \<Rightarrow> (bytes \<times> bytes) list option" where
  \<comment> \<open>the messages, with their destinations, for the top block of the local shard \<open>loc\<close>\<close>
  "SyncFideRequest L conf E loc self a c =
     do { block \<leftarrow> mget (fcBlocks c) (hashAt (fcTop c) loc);
          local \<leftarrow> slot (syShards E) loc;
          mss \<leftarrow> mapM (\<lambda>sid. do { temp \<leftarrow> lightFor conf (a + sid) sid block;
                                  content \<leftarrow> syncContent L (dMain local = Some self) block temp;
                                  d \<leftarrow> slot (syShards E) sid;
                                  addrs \<leftarrow> mapM (\<lambda>k. map_option IpAddr (mget (syNodes E) k)) (dMap d);
                                  Some (map (\<lambda>ip. (ip, content)) addrs) })
                   (filter (\<lambda>sid. sid \<noteq> loc) [0..<shards conf]);
          Some (concat mss) }"

definition SyncIRequest ::
  "Lib \<Rightarrow> SyncEnv \<Rightarrow> nat list \<Rightarrow> bool \<Rightarrow> StdBlock \<Rightarrow> (bytes \<times> bytes) list option" where
  \<comment> \<open>an i-shard to its b-shards, for the block that is processed\<close>
  "SyncIRequest L E relB isMain block =
     (let content = (if isMain then NewByteContent [encStd L block]
                     else AppendByteContent (NewByteContent [StdHash L block])
                            [UintToBytes (of_nat (length (Transactions (sB block))))])
      in do { mss \<leftarrow> mapM (\<lambda>i. do { d \<leftarrow> slot (syShards E) i;
                                    addrs \<leftarrow> mapM (\<lambda>k. map_option IpAddr (mget (syNodes E) k)) (dMap d);
                                    Some (map (\<lambda>ip. (ip, content)) addrs) }) relB;
              Some (concat mss) })"

subsection \<open>Each block is appended once, and after enough messages\<close>

lemma unfinished_simps [simp]:
  "countsOf (keepBlock sid h b st) r = countsOf st r"
  "finished (keepBlock sid h b st) r h' = finished st r h'"
  "blocksOf (keepBlock sid h b st) r = (if r = sid then mput h b (blocksOf st sid) else blocksOf st r)"
  "countsOf (countAck sid h st) r = (if r = sid then mput h (getOr (countsOf st sid) h 0 + 1) (countsOf st sid) else countsOf st r)"
  "finished (countAck sid h st) r h' = finished st r h'"
  "blocksOf (countAck sid h st) r = blocksOf st r"
  "countsOf (doneWith sid h st) r = (if r = sid then mdel h (countsOf st sid) else countsOf st r)"
  "finished (doneWith sid h st) r h' = (r = sid \<and> h' = h \<or> finished st r h')"
  "blocksOf (doneWith sid h st) r = (if r = sid then mdel h (blocksOf st sid) else blocksOf st r)"
  by (simp_all add: keepBlock_def countAck_def doneWith_def countsOf_def finished_def blocksOf_def getOr_def)

definition opened :: "'b Sync \<Rightarrow> bool" where
  \<comment> \<open>the three maps are made together\<close>
  "opened st \<longleftrightarrow> (\<forall>r. mget (reqCnt st) r = None \<longrightarrow> mget (syBlocks st) r = None \<and> mget (finish st) r = None)"

lemma opened_simps [simp]:
  "opened SyncReset"
  "opened st \<Longrightarrow> opened (openShard sid st)"
  "opened st \<Longrightarrow> mget (reqCnt st) sid \<noteq> None \<Longrightarrow> opened (keepBlock sid h b st)"
  "opened st \<Longrightarrow> opened (countAck sid h st)"
  "opened st \<Longrightarrow> opened (doneWith sid h st)"
  by (auto simp: opened_def SyncReset_def openShard_def keepBlock_def countAck_def doneWith_def)

lemma openShard_simps [simp]:
  assumes "opened st"
  shows "countsOf (openShard sid st) r = countsOf st r" "finished (openShard sid st) r h = finished st r h"
    "blocksOf (openShard sid st) r = blocksOf st r" "mget (reqCnt (openShard sid st)) sid \<noteq> None"
  using assms by (auto simp: opened_def openShard_def countsOf_def finished_def blocksOf_def getOr_def)

definition syncInv ::
  "('b, 'c) SyncRule \<Rightarrow> (nat \<Rightarrow> 64 word) \<Rightarrow> (nat \<Rightarrow> hash \<Rightarrow> nat) \<Rightarrow> (nat \<times> 'b) list \<Rightarrow> 'c \<Rightarrow> 'b Sync \<Rightarrow> 'c \<Rightarrow> bool" where
  \<comment> \<open>\<open>acks\<close> counts the messages that were accepted, and \<open>log\<close> holds the blocks that were appended to \<open>c0\<close>\<close>
  "syncInv R thr acks log c0 st c \<longleftrightarrow>
     opened st \<and> foldM (\<lambda>(r, b). srAppend R r b) log c0 = Some c \<and> distinct (map (\<lambda>(r, b). (r, srHash R b)) log) \<and>
     (\<forall>r h. finished st r h \<longleftrightarrow> (r, h) \<in> set (map (\<lambda>(r, b). (r, srHash R b)) log)) \<and>
     (\<forall>r h. finished st r h \<longrightarrow> unat (thr r) \<le> acks r h \<and> mget (countsOf st r) h = None) \<and>
     (\<forall>r h. \<not> finished st r h \<longrightarrow> getOr (countsOf st r) h 0 = of_nat (acks r h)) \<and>
     (\<forall>r h b. mget (blocksOf st r) h = Some b \<longrightarrow> srHash R b = h) \<and> (\<forall>r. mwf (countsOf st r))"

lemma syncInvD:
  assumes "syncInv R thr acks log c0 st c"
  shows "opened st" "foldM (\<lambda>(r, b). srAppend R r b) log c0 = Some c" "distinct (map (\<lambda>(r, b). (r, srHash R b)) log)"
    "finished st r h \<longleftrightarrow> (r, h) \<in> set (map (\<lambda>(r, b). (r, srHash R b)) log)"
    "finished st r h \<Longrightarrow> unat (thr r) \<le> acks r h" "finished st r h \<Longrightarrow> mget (countsOf st r) h = None"
    "\<not> finished st r h \<Longrightarrow> getOr (countsOf st r) h 0 = of_nat (acks r h)"
    "mget (blocksOf st r) h = Some b \<Longrightarrow> srHash R b = h" "mwf (countsOf st r)"
  using assms unfolding syncInv_def by blast+

lemma unat_of_nat_le: "unat (of_nat n :: 64 word) \<le> n"
  by (simp add: unat_of_nat take_bit_nat_less_eq_self)

lemma doneWith_inv:
  assumes i: "syncInv R thr acks log c0 st c" and e: "mget (countsOf st rid) h = Some cnt" "thr rid \<le> cnt"
    "mget (blocksOf st rid) h = Some b" and a: "srAppend R rid b c = Some c'"
  shows "syncInv R thr acks (log @ [(rid, b)]) c0 (doneWith rid h st) c'"
proof -
  note D = syncInvD[OF i]
  have nf: "\<not> finished st rid h" using D(6)[of rid h] e(1) by auto
  have hb: "srHash R b = h" using D(8)[OF e(3)] .
  have "cnt = of_nat (acks rid h)" using D(7)[OF nf] e(1) by (simp add: getOr_def)
  then have thr: "unat (thr rid) \<le> acks rid h"
    using e(2) unat_of_nat_le[of "acks rid h"] by (simp add: word_le_nat_alt)
  have new: "(rid, h) \<notin> set (map (\<lambda>(r, b). (r, srHash R b)) log)" using D(4)[of rid h] nf by simp
  have 1: "opened (doneWith rid h st)" using D(1) by simp
  have 2: "foldM (\<lambda>(r, b). srAppend R r b) (log @ [(rid, b)]) c0 = Some c'" using D(2) a by (simp add: foldM_append)
  have 3: "distinct (map (\<lambda>(r, b). (r, srHash R b)) (log @ [(rid, b)]))" using D(3) new hb by simp
  have 4: "finished (doneWith rid h st) r h' \<longleftrightarrow> (r, h') \<in> set (map (\<lambda>(r, b). (r, srHash R b)) (log @ [(rid, b)]))" for r h'
    using D(4)[of r h'] hb by auto
  have 5: "unat (thr r) \<le> acks r h' \<and> mget (countsOf (doneWith rid h st) r) h' = None" if "finished (doneWith rid h st) r h'" for r h'
    using that D(5,6)[of r h'] thr by auto
  have 6: "getOr (countsOf (doneWith rid h st) r) h' 0 = of_nat (acks r h')" if "\<not> finished (doneWith rid h st) r h'" for r h'
    using that D(7)[of r h'] by (auto simp: getOr_def)
  have 7: "srHash R b' = h'" if "mget (blocksOf (doneWith rid h st) r) h' = Some b'" for r h' b'
    using that D(8)[of r h' b'] by (auto split: if_splits)
  have 8: "mwf (countsOf (doneWith rid h st) r)" for r using D(9) by simp
  show ?thesis unfolding syncInv_def using 1 2 3 4 5 6 7 8 by blast
qed

lemma checkLoop_inv:
  assumes "iter_ok ord"
  shows "checkLoop n R (thr rid) ord rid (st, c) = Some (st', c') \<Longrightarrow> syncInv R thr acks log c0 st c \<Longrightarrow>
    (\<exists>log'. syncInv R thr acks log' c0 st' c') \<and>
    (\<forall>r h. finished st r h \<longrightarrow> finished st' r h) \<and>
    (\<forall>r h. finished st' r h \<or> mget (blocksOf st' r) h = mget (blocksOf st r) h) \<and>
    (\<forall>h cnt. mget (countsOf st' rid) h = Some cnt \<longrightarrow> \<not> toAppend R (thr rid) rid st' c' (h, cnt)) \<and>
    (\<forall>r. r \<noteq> rid \<longrightarrow> countsOf st' r = countsOf st r)"
proof (induction n arbitrary: st c log)
  case (Suc n)
  note D = syncInvD[OF Suc.prems(2)]
  show ?case
  proof (cases "find (toAppend R (thr rid) rid st c) (ord (countsOf st rid))")
    case None
    then have s: "st' = st" "c' = c" using Suc.prems(1) by simp_all
    have "\<forall>x\<in>set (countsOf st rid). \<not> toAppend R (thr rid) rid st c x"
      using None iter_ok_set[OF assms, of "countsOf st rid"] unfolding find_None_iff by metis
    moreover have "(h, cnt) \<in> set (countsOf st rid)" if "mget (countsOf st rid) h = Some cnt" for h cnt
      using that by (rule map_of_SomeD)
    ultimately show ?thesis using Suc.prems(2) s by blast
  next
    case (Some x)
    obtain h cnt where x: "x = (h, cnt)" by fastforce
    have "x \<in> set (ord (countsOf st rid))" "toAppend R (thr rid) rid st c x"
      using Some unfolding find_Some_iff by auto
    then have "mget (countsOf st rid) h = Some cnt" and t: "toAppend R (thr rid) rid st c (h, cnt)"
      using iter_ok_set[OF assms, of "countsOf st rid"] set_mwf_iff[OF D(9)] x by auto
    moreover obtain b where b: "mget (blocksOf st rid) h = Some b" "thr rid \<le> cnt"
      using t by (auto simp: toAppend_def split: option.splits)
    moreover obtain c1 where c1: "srAppend R rid b c = Some c1" "checkLoop n R (thr rid) ord rid (doneWith rid h st, c1) = Some (st', c')"
      using Suc.prems(1) Some x b by (auto simp: bind_eq_Some_conv)
    ultimately have i: "syncInv R thr acks (log @ [(rid, b)]) c0 (doneWith rid h st) c1"
      by (intro doneWith_inv[OF Suc.prems(2)])
    note ih = Suc.IH[OF c1(2) i]
    have f: "finished st' rid h" using ih by simp
    have "finished st' r h' \<or> mget (blocksOf st' r) h' = mget (blocksOf st r) h'" for r h'
    proof (cases "r = rid \<and> h' = h")
      case True
      then show ?thesis using f by simp
    next
      case False
      then have "mget (blocksOf (doneWith rid h st) r) h' = mget (blocksOf st r) h'" by auto
      then show ?thesis using ih by metis
    qed
    moreover have "finished st' r h'" if "finished st r h'" for r h' using ih that by simp
    moreover have "countsOf st' r = countsOf st r" if "r \<noteq> rid" for r using ih that by simp
    ultimately show ?thesis using ih by blast
  qed
qed simp

definition thrOf :: "SyncEnv \<Rightarrow> nat \<Rightarrow> 64 word" where
  "thrOf E r = (case slot (syShards E) r of Some d \<Rightarrow> domainThreshold d | None \<Rightarrow> 0)"

definition shardIds :: "SyncEnv \<Rightarrow> bool" where
  "shardIds E \<longleftrightarrow> map dSid (syShards E) = [0..<length (syShards E)]"

definition claimOf :: "SyncEnv \<Rightarrow> ('b, 'c) SyncRule \<Rightarrow> Message \<Rightarrow> (nat \<times> hash) option" where
  \<comment> \<open>the shard and the hash a message is about\<close>
  "claimOf E R msg =
     do { n \<leftarrow> mget (syNodes E) (RemoteInfo msg);
          d \<leftarrow> slot (syShards E) (ShardID n);
          x \<leftarrow> slot (ParseContent (MsgContent msg)) 0;
          if dMain d = Some (RemoteInfo msg) then map_option (\<lambda>b. (dSid d, srHash R b)) (srDecode R x) else Some (dSid d, x) }"

definition fromMain :: "SyncEnv \<Rightarrow> Message \<Rightarrow> bool" where
  "fromMain E msg =
     (case do { n \<leftarrow> mget (syNodes E) (RemoteInfo msg); slot (syShards E) (ShardID n) } of
        Some d \<Rightarrow> dMain d = Some (RemoteInfo msg) | None \<Rightarrow> False)"

lemma slot_shardIds: "shardIds E \<Longrightarrow> slot (syShards E) i = Some d \<Longrightarrow> dSid d = i"
  unfolding shardIds_def slot_eq_Some by (metis add_0 nth_map nth_upt)

lemma HandleSync_cases:
  assumes "HandleSync E R ord m (st, c) = Some (ok, st', c')" "shardIds E"
  obtains (refused) sid where "\<not> ok" "st' = openShard sid st" "c' = c"
  | (old) sid h st2 where "ok" "claimOf E R m = Some (sid, h)" "st' = st2" "c' = c" "finished st2 sid h"
      "st2 = openShard sid st \<or> (\<exists>b. srHash R b = h \<and> st2 = keepBlock sid h b (openShard sid st))"
      "fromMain E m \<longrightarrow> mget (blocksOf st2 sid) h \<noteq> None"
  | (counted) sid h st2 where "ok" "claimOf E R m = Some (sid, h)" "\<not> finished st2 sid h"
      "st2 = openShard sid st \<or> (\<exists>b. srHash R b = h \<and> st2 = keepBlock sid h b (openShard sid st))"
      "fromMain E m \<longrightarrow> mget (blocksOf st2 sid) h \<noteq> None"
      "checkLoop (Suc (length (countsOf (countAck sid h st2) sid))) R (thrOf E sid) ord sid (countAck sid h st2, c) = Some (st', c')"
proof -
  obtain n d x where n: "mget (syNodes E) (RemoteInfo m) = Some n" "slot (syShards E) (ShardID n) = Some d"
    "slot (ParseContent (MsgContent m)) 0 = Some x"
    using assms(1) by (auto simp: HandleSync_def Let_def bind_eq_Some_conv)
  let ?s1 = "openShard (dSid d) st"
  have d: "slot (syShards E) (dSid d) = Some d" using slot_shardIds[OF assms(2) n(2)] n(2) by simp
  have tail: thesis
    if f: "(if finished st2 (dSid d) h then Some (True, st2, c)
        else do { s3 \<leftarrow> CheckBlock E R ord (dSid d) (countAck (dSid d) h st2, c); Some (True, s3) }) = Some (ok, st', c')"
      and cl: "claimOf E R m = Some (dSid d, h)"
      and s2: "st2 = ?s1 \<or> (\<exists>b. srHash R b = h \<and> st2 = keepBlock (dSid d) h b ?s1)"
      and fm: "fromMain E m \<longrightarrow> mget (blocksOf st2 (dSid d)) h \<noteq> None" for st2 h
  proof (cases "finished st2 (dSid d) h")
    case True
    then show ?thesis using f by (intro old[OF _ cl _ _ True s2 fm]) auto
  next
    case False
    then have "ok" "CheckBlock E R ord (dSid d) (countAck (dSid d) h st2, c) = Some (st', c')"
      using f by (auto simp: bind_eq_Some_conv)
    then show ?thesis using d by (intro counted[OF _ cl False s2 fm]) (simp_all add: CheckBlock_def thrOf_def)
  qed
  show ?thesis
  proof (cases "dMain d = Some (RemoteInfo m)")
    case True
    obtain b acc where b: "srDecode R x = Some b"
      "(if srKnown R (srHash R b) c then Some True else srAccepts R (dSid d) b (blocksOf ?s1 (dSid d)) c) = Some acc"
      using assms(1) n True by (auto simp: HandleSync_def Let_def bind_eq_Some_conv)
    show ?thesis
    proof (cases acc)
      case False
      then show ?thesis using assms(1) n True b by (intro refused) (auto simp: HandleSync_def Let_def)
    next
      case acc: True
      let ?h = "srHash R b"
      show ?thesis
      proof (rule tail)
        show "(if finished (keepBlock (dSid d) ?h b ?s1) (dSid d) ?h then Some (True, keepBlock (dSid d) ?h b ?s1, c)
           else do { s3 \<leftarrow> CheckBlock E R ord (dSid d) (countAck (dSid d) ?h (keepBlock (dSid d) ?h b ?s1), c); Some (True, s3) }) =
           Some (ok, st', c')"
          using assms(1) n True b acc by (simp add: HandleSync_def Let_def)
      qed (use n True b in \<open>auto simp: claimOf_def\<close>)
    qed
  next
    case False
    then have "srReplica R (ParseContent (MsgContent m))"
      using assms(1) n by (auto simp: HandleSync_def Let_def bind_eq_Some_conv split: if_splits)
    then show ?thesis
      using assms(1) n False by (intro tail[of ?s1 x]) (auto simp: HandleSync_def Let_def claimOf_def fromMain_def)
  qed
qed

definition moreAcks :: "bool \<Rightarrow> (nat \<times> hash) option \<Rightarrow> (nat \<Rightarrow> hash \<Rightarrow> nat) \<Rightarrow> nat \<Rightarrow> hash \<Rightarrow> nat" where
  "moreAcks ok cl acks r h = acks r h + (if ok \<and> cl = Some (r, h) then 1 else 0)"

lemma syncInv_open: "syncInv R thr acks log c0 st c \<Longrightarrow> syncInv R thr acks log c0 (openShard sid st) c"
  unfolding syncInv_def by simp

lemma syncInv_keep:
  "syncInv R thr acks log c0 (openShard sid st) c \<Longrightarrow> opened st \<Longrightarrow> syncInv R thr acks log c0 (keepBlock sid (srHash R b) b (openShard sid st)) c"
  unfolding syncInv_def by (auto split: if_splits)

lemma syncInv_late:
  assumes "syncInv R thr acks log c0 st c" "finished st sid h"
  shows "syncInv R thr (moreAcks ok (Some (sid, h)) acks) log c0 st c"
proof -
  note D = syncInvD[OF assms(1)]
  have "unat (thr r) \<le> moreAcks ok (Some (sid, h)) acks r h' \<and> mget (countsOf st r) h' = None" if "finished st r h'" for r h'
    using D(5,6)[OF that] by (simp add: moreAcks_def)
  moreover have "getOr (countsOf st r) h' 0 = of_nat (moreAcks ok (Some (sid, h)) acks r h')" if "\<not> finished st r h'" for r h'
    using D(7)[OF that] that assms(2) by (auto simp: moreAcks_def)
  ultimately show ?thesis using D(1-4,8,9) unfolding syncInv_def by blast
qed

lemma HandleSync_inv:
  assumes "iter_ok ord" "shardIds E" "HandleSync E R ord m (st, c) = Some (ok, st', c')" "syncInv R (thrOf E) acks log c0 st c"
  shows "\<exists>log'. syncInv R (thrOf E) (moreAcks ok (claimOf E R m) acks) log' c0 st' c'"
proof -
  note o = syncInvD(1)[OF assms(4)]
  have base: "syncInv R (thrOf E) acks log c0 st2 c"
    if "st2 = openShard sid st \<or> (\<exists>b. srHash R b = h \<and> st2 = keepBlock sid h b (openShard sid st))" for st2 sid h
    using that syncInv_open[OF assms(4)] syncInv_keep[OF syncInv_open[OF assms(4)] o] by blast
  from assms(3,2) show ?thesis
  proof (cases rule: HandleSync_cases)
    case (refused sid)
    then have "moreAcks ok (claimOf E R m) acks = acks" by (simp add: fun_eq_iff moreAcks_def)
    then show ?thesis using refused syncInv_open[OF assms(4)] by metis
  next
    case (old sid h st2)
    note i = base[OF old(6)]
    have "syncInv R (thrOf E) (moreAcks ok (claimOf E R m) acks) log c0 st2 c"
      unfolding old(2) by (rule syncInv_late[OF i old(5)])
    then show ?thesis using old(3,4) by blast
  next
    case (counted sid h st2)
    note i = base[OF counted(4)]
    have "syncInv R (thrOf E) (moreAcks ok (claimOf E R m) acks) log c0 (countAck sid h st2) c"
      using i counted(1,3) unfolding syncInv_def moreAcks_def counted(2) by (auto simp: getOr_def intro: trans_le_add1)
    from checkLoop_inv[OF assms(1) counted(6) this] show ?thesis by blast
  qed
qed

fun syncRun ::
  "SyncEnv \<Rightarrow> ('b, 'c) SyncRule \<Rightarrow> ackOrder \<Rightarrow> Message list \<Rightarrow> 'b Sync \<times> 'c \<Rightarrow> (bool list \<times> 'b Sync \<times> 'c) option" where
  \<comment> \<open>a sequence of messages, with the results of the handler\<close>
  "syncRun E R ord [] s = Some ([], s)"
| "syncRun E R ord (m # ms) s =
     do { (ok, s1) \<leftarrow> HandleSync E R ord m s; (oks, s2) \<leftarrow> syncRun E R ord ms s1; Some (ok # oks, s2) }"

definition acksFor :: "SyncEnv \<Rightarrow> ('b, 'c) SyncRule \<Rightarrow> Message list \<Rightarrow> bool list \<Rightarrow> nat \<Rightarrow> hash \<Rightarrow> nat" where
  \<comment> \<open>how many accepted messages are about the hash\<close>
  "acksFor E R ms oks r h = length (filter (\<lambda>(ok, m). ok \<and> claimOf E R m = Some (r, h)) (zip oks ms))"

lemma syncRun_inv:
  assumes "iter_ok ord" "shardIds E"
  shows "syncRun E R ord ms (st, c) = Some (oks, st', c') \<Longrightarrow> syncInv R (thrOf E) acks log c0 st c \<Longrightarrow>
    \<exists>log'. syncInv R (thrOf E) (\<lambda>r h. acks r h + acksFor E R ms oks r h) log' c0 st' c'"
proof (induction ms arbitrary: st c oks acks log)
  case Nil
  then show ?case by (auto simp: acksFor_def)
next
  case (Cons m ms)
  obtain ok s1 c1 oks1 where h: "HandleSync E R ord m (st, c) = Some (ok, s1, c1)"
    "syncRun E R ord ms (s1, c1) = Some (oks1, st', c')" "oks = ok # oks1"
    using Cons.prems(1) by (auto simp: bind_eq_Some_conv)
  obtain log1 where "syncInv R (thrOf E) (moreAcks ok (claimOf E R m) acks) log1 c0 s1 c1"
    using HandleSync_inv[OF assms h(1) Cons.prems(2)] by blast
  from Cons.IH[OF h(2) this] obtain log' where
    "syncInv R (thrOf E) (\<lambda>r h. moreAcks ok (claimOf E R m) acks r h + acksFor E R ms oks1 r h) log' c0 st' c'" by blast
  moreover have "(\<lambda>r h. moreAcks ok (claimOf E R m) acks r h + acksFor E R ms oks1 r h) = (\<lambda>r h. acks r h + acksFor E R (m # ms) oks r h)"
    by (simp add: fun_eq_iff moreAcks_def acksFor_def h(3))
  ultimately show ?case by metis
qed

lemma syncInv_start: "syncInv R thr (\<lambda>_ _. 0) [] c SyncReset c"
  by (simp add: syncInv_def) (simp add: SyncReset_def finished_def countsOf_def blocksOf_def getOr_def)

text \<open>C21: Blocks of other shards are appended at most once each, and never before \<open>Threshold\<close> accepted messages for their hash: whatever
  messages arrive in whatever order, the local chain is the result of appending a sequence of blocks in which no block of a shard occurs
  twice and for each of which the receiver had counted enough messages.\<close>
theorem sync_safe:
  assumes "iter_ok ord" "shardIds E" "syncRun E R ord ms (SyncReset, c0) = Some (oks, st, c)"
  shows "\<exists>log. foldM (\<lambda>(r, b). srAppend R r b) log c0 = Some c \<and> distinct (map (\<lambda>(r, b). (r, srHash R b)) log) \<and>
    (\<forall>(r, b)\<in>set log. unat (thrOf E r) \<le> acksFor E R ms oks r (srHash R b))"
proof -
  obtain log where i: "syncInv R (thrOf E) (\<lambda>r h. 0 + acksFor E R ms oks r h) log c0 st c"
    using syncRun_inv[OF assms syncInv_start] by blast
  note D = syncInvD[OF i]
  have "unat (thrOf E r) \<le> acksFor E R ms oks r (srHash R b)" if "(r, b) \<in> set log" for r b
  proof -
    have "(r, srHash R b) \<in> set (map (\<lambda>(r, b). (r, srHash R b)) log)" using that by force
    then have "finished st r (srHash R b)" using D(4) by blast
    then show ?thesis using D(5) by simp
  qed
  then show ?thesis using D(2,3) by blast
qed

subsection \<open>Delivery\<close>

locale eager_sync =
  fixes R :: "('b, 'c) SyncRule"
  assumes ready: "srReady R r b fin c \<longleftrightarrow> \<not> fin"
begin

definition settled :: "(nat \<Rightarrow> 64 word) \<Rightarrow> (nat \<times> hash) set \<Rightarrow> 'b Sync \<Rightarrow> bool" where
  \<comment> \<open>the delivered blocks are kept until they are appended, and none of them has enough messages\<close>
  "settled thr D st \<longleftrightarrow> (\<forall>(r, h)\<in>D. finished st r h \<or> mget (blocksOf st r) h \<noteq> None) \<and>
     (\<forall>r h cnt. mget (countsOf st r) h = Some cnt \<longrightarrow> mget (blocksOf st r) h \<noteq> None \<longrightarrow> \<not> thr r \<le> cnt)"

lemma HandleSync_settled:
  assumes "iter_ok ord" "shardIds E" "HandleSync E R ord m (st, c) = Some (ok, st', c')"
    "syncInv R (thrOf E) acks log c0 st c" "settled (thrOf E) D st"
  shows "settled (thrOf E) (D \<union> (if ok \<and> fromMain E m then set_option (claimOf E R m) else {})) st'"
proof -
  note o = syncInvD(1)[OF assms(4)]
  have base: "syncInv R (thrOf E) acks log c0 st2 c" "\<And>r h. finished st2 r h = finished st r h" "\<And>r. countsOf st2 r = countsOf st r"
    "\<And>r h'. (r, h') \<noteq> (sid, h) \<Longrightarrow> mget (blocksOf st2 r) h' = mget (blocksOf st r) h'"
    "\<And>r h'. mget (blocksOf st r) h' \<noteq> None \<Longrightarrow> mget (blocksOf st2 r) h' \<noteq> None"
    if "st2 = openShard sid st \<or> (\<exists>b. srHash R b = h \<and> st2 = keepBlock sid h b (openShard sid st))" for st2 sid h
    using that o syncInv_open[OF assms(4)] syncInv_keep[OF syncInv_open[OF assms(4)] o] by auto
  have d: "finished st r h \<or> mget (blocksOf st r) h \<noteq> None" if "(r, h) \<in> D" for r h
    using assms(5) that unfolding settled_def by blast
  have q: "\<not> thrOf E r \<le> cnt" if "mget (countsOf st r) h = Some cnt" "mget (blocksOf st r) h \<noteq> None" for r h cnt
    using assms(5) that unfolding settled_def by blast
  from assms(3,2) show ?thesis
  proof (cases rule: HandleSync_cases)
    case (refused sid)
    then show ?thesis using assms(5) o by (simp add: settled_def)
  next
    case (old sid h st2)
    note b = base[OF old(6)]
    have none: "mget (countsOf st sid) h = None" using syncInvD(6)[OF b(1) old(5)] b(3) by simp
    have "finished st2 r h' \<or> mget (blocksOf st2 r) h' \<noteq> None"
      if "(r, h') \<in> D \<union> (if ok \<and> fromMain E m then set_option (claimOf E R m) else {})" for r h'
    proof (cases "(r, h') \<in> D")
      case True
      then show ?thesis using d[OF True] b(2)[of r h'] b(5)[of r h'] by blast
    next
      case False
      then have "(r, h') = (sid, h)" using that old(2) by (auto split: if_splits)
      then show ?thesis using old(5) by simp
    qed
    moreover have "\<not> thrOf E r \<le> cnt" if "mget (countsOf st2 r) h' = Some cnt" "mget (blocksOf st2 r) h' \<noteq> None" for r h' cnt
      using that q[of r h' cnt] b(3) b(4)[of r h'] none by (cases "(r, h') = (sid, h)") auto
    ultimately show ?thesis using old(3) unfolding settled_def by blast
  next
    case (counted sid h st2)
    note b = base[OF counted(4)]
    have i: "syncInv R (thrOf E) (moreAcks ok (claimOf E R m) acks) log c0 (countAck sid h st2) c"
      using b(1) counted(1,3) unfolding syncInv_def moreAcks_def counted(2) by (auto simp: getOr_def intro: trans_le_add1)
    from checkLoop_inv[OF assms(1) counted(6) i] obtain log' where
      i': "syncInv R (thrOf E) (moreAcks ok (claimOf E R m) acks) log' c0 st' c'" and
      f: "\<And>r h'. finished st2 r h' \<Longrightarrow> finished st' r h'"
        "\<And>r h'. finished st' r h' \<or> mget (blocksOf st' r) h' = mget (blocksOf st2 r) h'"
        "\<And>h' cnt. mget (countsOf st' sid) h' = Some cnt \<Longrightarrow> \<not> toAppend R (thrOf E sid) sid st' c' (h', cnt)"
        "\<And>r. r \<noteq> sid \<Longrightarrow> countsOf st' r = countsOf st2 r" by auto
    have "finished st' r h' \<or> mget (blocksOf st' r) h' \<noteq> None"
      if "(r, h') \<in> D \<union> (if ok \<and> fromMain E m then set_option (claimOf E R m) else {})" for r h'
    proof -
      have "finished st2 r h' \<or> mget (blocksOf st2 r) h' \<noteq> None"
      proof (cases "(r, h') \<in> D")
        case True
        then show ?thesis using d[OF True] b(2)[of r h'] b(5)[of r h'] by blast
      next
        case False
        then have "(r, h') = (sid, h)" "fromMain E m" using that counted(2) by (auto split: if_splits)
        then show ?thesis using counted(5) by simp
      qed
      then show ?thesis using f(1,2)[of r h'] by auto
    qed
    moreover have "\<not> thrOf E r \<le> cnt" if c: "mget (countsOf st' r) h' = Some cnt" "mget (blocksOf st' r) h' \<noteq> None" for r h' cnt
    proof -
      have nf: "\<not> finished st' r h'" using syncInvD(6)[OF i'] c(1) by fastforce
      show ?thesis
      proof (cases "r = sid")
        case True
        then have "\<not> toAppend R (thrOf E sid) sid st' c' (h', cnt)" using f(3) c(1) by blast
        then show ?thesis using c(2) nf True by (auto simp: toAppend_def ready)
      next
        case False
        then have "mget (countsOf st r) h' = Some cnt" "mget (blocksOf st r) h' \<noteq> None"
          using c f(2)[of r h'] f(4)[of r] b(3) b(4)[of r h'] nf by auto
        then show ?thesis by (rule q)
      qed
    qed
    ultimately show ?thesis unfolding settled_def by blast
  qed
qed

lemma syncRun_settled:
  assumes "iter_ok ord" "shardIds E"
  shows "syncRun E R ord ms (st, c) = Some (oks, st', c') \<Longrightarrow> syncInv R (thrOf E) acks log c0 st c \<Longrightarrow> settled (thrOf E) D st \<Longrightarrow>
    settled (thrOf E) (D \<union> {x. \<exists>(ok, m)\<in>set (zip oks ms). ok \<and> fromMain E m \<and> claimOf E R m = Some x}) st'"
proof (induction ms arbitrary: st c oks acks log D)
  case (Cons m ms)
  obtain ok s1 c1 oks1 where h: "HandleSync E R ord m (st, c) = Some (ok, s1, c1)"
    "syncRun E R ord ms (s1, c1) = Some (oks1, st', c')" "oks = ok # oks1"
    using Cons.prems(1) by (auto simp: bind_eq_Some_conv)
  obtain log1 where i: "syncInv R (thrOf E) (moreAcks ok (claimOf E R m) acks) log1 c0 s1 c1"
    using HandleSync_inv[OF assms h(1) Cons.prems(2)] by blast
  have eq: "D \<union> (if ok \<and> fromMain E m then set_option (claimOf E R m) else {}) \<union>
      {x. \<exists>(ok, m)\<in>set (zip oks1 ms). ok \<and> fromMain E m \<and> claimOf E R m = Some x} =
      D \<union> {x. \<exists>(ok, m)\<in>set (zip oks (m # ms)). ok \<and> fromMain E m \<and> claimOf E R m = Some x}"
    by (cases "claimOf E R m") (auto simp: h(3))
  show ?case
    using Cons.IH[OF h(2) i HandleSync_settled[OF assms h(1) Cons.prems(2,3)]] unfolding eq .
qed simp

lemma delivered:
  assumes "iter_ok ord" "shardIds E" "syncRun E R ord ms (SyncReset, c0) = Some (oks, st, c)" "length ms < 2 ^ 64"
    and "(True, m) \<in> set (zip oks ms)" "fromMain E m" "claimOf E R m = Some (r, h)"
    and "unat (thrOf E r) \<le> acksFor E R ms oks r h"
  shows "\<exists>log. foldM (\<lambda>(r, b). srAppend R r b) log c0 = Some c \<and> (\<exists>b. (r, b) \<in> set log \<and> srHash R b = h)"
proof -
  obtain log where i: "syncInv R (thrOf E) (\<lambda>r h. 0 + acksFor E R ms oks r h) log c0 st c"
    using syncRun_inv[OF assms(1-3) syncInv_start] by blast
  note D = syncInvD[OF i]
  have "settled (thrOf E) {} SyncReset"
    by (simp add: settled_def SyncReset_def finished_def countsOf_def blocksOf_def getOr_def)
  from syncRun_settled[OF assms(1-3) syncInv_start this] assms(5-7)
  have s: "finished st r h \<or> mget (blocksOf st r) h \<noteq> None"
    and q: "\<And>cnt. mget (countsOf st r) h = Some cnt \<Longrightarrow> mget (blocksOf st r) h \<noteq> None \<Longrightarrow> \<not> thrOf E r \<le> cnt"
    unfolding settled_def by blast+
  let ?a = "acksFor E R ms oks r h"
  have "?a \<le> length (zip oks ms)" by (simp only: acksFor_def length_filter_le)
  then have lt: "?a < 2 ^ 64" using assms(4) by simp
  have "(True, m) \<in> set (filter (\<lambda>(ok, m). ok \<and> claimOf E R m = Some (r, h)) (zip oks ms))" using assms(5,7) by simp
  then have pos: "0 < ?a" unfolding acksFor_def by (rule length_pos_if_in_set)
  have u: "unat (of_nat ?a :: 64 word) = ?a" using lt by (simp add: unat_of_nat take_bit_nat_eq_self)
  have "finished st r h"
  proof (rule ccontr)
    assume nf: "\<not> finished st r h"
    then have g: "getOr (countsOf st r) h 0 = of_nat ?a" using D(7) by simp
    have "mget (countsOf st r) h = Some (of_nat ?a)"
    proof (cases "mget (countsOf st r) h")
      case None
      then have "(of_nat ?a :: 64 word) = 0" using g by (simp add: getOr_def)
      then show ?thesis using u pos by simp
    qed (use g in \<open>simp add: getOr_def\<close>)
    then have "\<not> thrOf E r \<le> of_nat ?a" using q s nf by blast
    then show False using assms(8) u by (simp add: word_le_nat_alt)
  qed
  then have "(r, h) \<in> set (map (\<lambda>(r, b). (r, srHash R b)) log)" using D(4) by blast
  then show ?thesis using D(2) by force
qed

end

interpretation fide_sync: eager_sync "fideRule L conf kv sched clock clock' at" for L conf kv sched clock clock' at
  by unfold_locales (simp add: fideRule_def)

text \<open>C23: Blocks get through: as soon as a receiver has accepted the block from the main node of its shard and \<open>Threshold\<close> messages
  for its hash, in whatever order they came and whatever else arrived, the Monosulfide chain is the result of appending a sequence of
  blocks with this one among them; nothing is left behind.\<close>
theorem fide_sync_delivers:
  assumes R: "R = fideRule L conf kv sched clock clock' at"
    and "iter_ok ord" "shardIds E" "syncRun E R ord ms (SyncReset, c0) = Some (oks, st, c)" "length ms < 2 ^ 64"
    and "(True, m) \<in> set (zip oks ms)" "fromMain E m" "claimOf E R m = Some (r, h)" "unat (thrOf E r) \<le> acksFor E R ms oks r h"
  shows "\<exists>log. foldM (\<lambda>(r, b). srAppend R r b) log c0 = Some c \<and> (\<exists>b. (r, b) \<in> set log \<and> FideBHash L b = h)"
  using fide_sync.delivered[OF assms(2-4)[unfolded R] assms(5-9)[unfolded R]] unfolding R by (simp add: fideRule_def)

lemma acks_replicate:
  "length oks = n \<Longrightarrow> \<forall>ok\<in>set oks. ok \<Longrightarrow> claimOf E R m = Some (r, h) \<Longrightarrow> acksFor E R (replicate n m) oks r h = n"
  by (induction n arbitrary: oks) (auto simp: acksFor_def length_Suc_conv)

lemma replica_accepted:
  assumes "HandleSync E R ord m (st, c) = Some (ok, st', c')" "\<not> fromMain E m"
  shows ok
proof -
  obtain n d where "mget (syNodes E) (RemoteInfo m) = Some n" "slot (syShards E) (ShardID n) = Some d"
    using assms(1) by (auto simp: HandleSync_def Let_def bind_eq_Some_conv)
  then show ?thesis
    using assms by (auto simp: HandleSync_def fromMain_def Let_def bind_eq_Some_conv split: if_splits)
qed

lemma replicas_accepted:
  "syncRun E R ord (replicate n m) s = Some (oks, s') \<Longrightarrow> \<not> fromMain E m \<Longrightarrow> length oks = n \<and> (\<forall>ok\<in>set oks. ok)"
proof (induction n arbitrary: s oks)
  case (Suc n)
  obtain ok st c oks1 where h: "HandleSync E R ord m s = Some (ok, st, c)" "syncRun E R ord (replicate n m) (st, c) = Some (oks1, s')" "oks = ok # oks1"
    using Suc.prems(1) by (auto simp: bind_eq_Some_conv)
  obtain st0 c0 where "s = (st0, c0)" by fastforce
  then show ?case using replica_accepted[of E R ord m st0 c0 ok st c] h Suc.IH[OF h(2)] Suc.prems(2) by auto
qed simp

text \<open>C22: The messages are counted, not their senders: the block of a main node and the same message of a single other node,
  repeated often enough, are a quorum of any size, so that two nodes of a shard make all others append a block that the shard has not
  agreed on.\<close>
theorem sync_counts_messages:
  assumes R: "R = fideRule L conf kv sched clock clock' at"
    and "iter_ok ord" "shardIds E" "syncRun E R ord (m0 # replicate n m1) (SyncReset, c0) = Some (True # oks, st, c)"
    and "fromMain E m0" "\<not> fromMain E m1" "claimOf E R m0 = Some (r, h)" "claimOf E R m1 = Some (r, h)"
    and "unat (thrOf E r) \<le> Suc n" "Suc n < 2 ^ 64"
  shows "\<exists>log. foldM (\<lambda>(r, b). srAppend R r b) log c0 = Some c \<and> (\<exists>b. (r, b) \<in> set log \<and> FideBHash L b = h) \<and>
    RemoteInfo ` set (m0 # replicate n m1) \<subseteq> {RemoteInfo m0, RemoteInfo m1}"
proof -
  obtain s1 where s1: "syncRun E R ord (replicate n m1) s1 = Some (oks, st, c)"
    using assms(4) by (auto simp: bind_eq_Some_conv)
  note acc = replicas_accepted[OF s1 assms(6)]
  have "acksFor E R (m0 # replicate n m1) (True # oks) r h = Suc (acksFor E R (replicate n m1) oks r h)"
    using assms(7) by (simp add: acksFor_def)
  then have a: "unat (thrOf E r) \<le> acksFor E R (m0 # replicate n m1) (True # oks) r h"
    using acks_replicate[OF conjunct1[OF acc] conjunct2[OF acc] assms(8)] assms(9) by simp
  have len: "length (m0 # replicate n m1) < 2 ^ 64" using assms(10) by simp
  have mem: "(True, m0) \<in> set (zip (True # oks) (m0 # replicate n m1))" by simp
  from fide_sync.delivered[OF assms(2-4)[unfolded R] len mem assms(5) assms(7)[unfolded R] a[unfolded R]]
  show ?thesis unfolding R by (auto simp: fideRule_def)
qed

subsection \<open>An example\<close>

definition syncLib :: Lib where
  "syncLib = fideLib\<lparr>decFide := \<lambda>x a. Some (if x = ''X'' then demoFide ''X'' 1 ''b'' ''b'' ''b'' a else emptyFideBlock 0 a)\<rparr>"

definition syncEnv :: SyncEnv where
  \<comment> \<open>the node \<open>l\<close> in shard 0, and shard 1 with four nodes\<close>
  "syncEnv = \<lparr>syNodes = [(''l'', portNode 1 ''1''), (''m'', (portNode 2 ''2'')\<lparr>ShardID := 1\<rparr>), (''x'', (portNode 3 ''3'')\<lparr>ShardID := 1\<rparr>),
      (''y'', (portNode 4 ''4'')\<lparr>ShardID := 1\<rparr>), (''z'', (portNode 5 ''5'')\<lparr>ShardID := 1\<rparr>)],
     syShards = [\<lparr>dSid = 0, dMap = [''l''], dMain = Some ''l''\<rparr>, \<lparr>dSid = 1, dMap = [''m'', ''x'', ''y'', ''z''], dMain = Some ''m''\<rparr>]\<rparr>"

definition blockMsg :: Message where
  "blockMsg = \<lparr>MsgType = ''SyncFideBlockREQ'', MsgContent = NewByteContent [''X''], RemoteInfo = ''m''\<rparr>"

definition hashMsg :: "bytes \<Rightarrow> Message" where
  "hashMsg k = \<lparr>MsgType = ''SyncFideBlockREQ'', MsgContent = NewByteContent [''bX'', UintToBytes 1], RemoteInfo = k\<rparr>"

abbreviation "demoRule \<equiv> fideRule syncLib forkConf demoKV keyOrder ticks ticks (\<lambda>_. 9)"

lemma demo_sync:
  "shardIds syncEnv" "thrOf syncEnv 1 = 3" "fromMain syncEnv blockMsg" "\<not> fromMain syncEnv (hashMsg ''x'')"
  "claimOf syncEnv demoRule blockMsg = Some (1, ''bX'')" "claimOf syncEnv demoRule (hashMsg ''x'') = Some (1, ''bX'')"
  "claimOf syncEnv demoRule (hashMsg ''y'') = Some (1, ''bX'')"
  by code_simp+

theorem sync_counts_messages_witness:
  "\<exists>oks st c. syncRun syncEnv demoRule (\<lambda>xs. xs) (blockMsg # replicate 2 (hashMsg ''x'')) (SyncReset, forkStart) = Some (True # oks, st, c) \<and>
     (\<exists>log b. foldM (\<lambda>(r, b). srAppend demoRule r b) log forkStart = Some c \<and> (1, b) \<in> set log \<and> FideBHash syncLib b = ''bX'')"
proof -
  have e: "\<exists>st c. x = Some (True # oks, st, c)" if "map_option fst x = Some (True # oks)" for x :: "(bool list \<times> 'a \<times> 'b) option" and oks
    using that by (cases x) auto
  have "map_option fst (syncRun syncEnv demoRule (\<lambda>xs. xs) (blockMsg # replicate 2 (hashMsg ''x'')) (SyncReset, forkStart)) =
      Some [True, True, True]" by code_simp
  from e[OF this] obtain st c where r: "syncRun syncEnv demoRule (\<lambda>xs. xs) (blockMsg # replicate 2 (hashMsg ''x'')) (SyncReset, forkStart) =
      Some (True # [True, True], st, c)" by blast
  have "unat (thrOf syncEnv 1) \<le> Suc 2" unfolding demo_sync(2) by simp
  moreover have "Suc 2 < (2 :: nat) ^ 64" by simp
  ultimately have this: "unat (thrOf syncEnv 1) \<le> Suc 2" "Suc 2 < (2 :: nat) ^ 64" by blast+
  from sync_counts_messages[OF refl iter_ok_id demo_sync(1) r demo_sync(3-6) this] r show ?thesis by blast
qed

lemma demo_sync_run:
  "\<exists>st c. syncRun syncEnv demoRule rev [hashMsg ''y'', blockMsg, hashMsg ''x''] (SyncReset, forkStart) = Some ([True, True, True], st, c)"
proof -
  have "(case syncRun syncEnv demoRule rev [hashMsg ''y'', blockMsg, hashMsg ''x''] (SyncReset, forkStart) of
      Some (oks, st, c) \<Rightarrow> oks = [True, True, True] | _ \<Rightarrow> False)" by code_simp
  then show ?thesis by (auto split: option.splits)
qed

theorem sync_safe_witness:
  "\<exists>st c log. syncRun syncEnv demoRule rev [hashMsg ''y'', blockMsg, hashMsg ''x''] (SyncReset, forkStart) = Some ([True, True, True], st, c) \<and>
     foldM (\<lambda>(r, b). srAppend demoRule r b) log forkStart = Some c \<and> distinct (map (\<lambda>(r, b). (r, FideBHash syncLib b)) log)"
proof -
  obtain st c where r: "syncRun syncEnv demoRule rev [hashMsg ''y'', blockMsg, hashMsg ''x''] (SyncReset, forkStart) = Some ([True, True, True], st, c)"
    using demo_sync_run by blast
  have "srHash demoRule = FideBHash syncLib" by (simp add: fideRule_def)
  with sync_safe[OF iter_ok_rev demo_sync(1) r] r show ?thesis by auto
qed

theorem fide_sync_delivers_witness:
  "\<exists>st c log b. syncRun syncEnv demoRule rev [hashMsg ''y'', blockMsg, hashMsg ''x''] (SyncReset, forkStart) = Some ([True, True, True], st, c) \<and>
     foldM (\<lambda>(r, b). srAppend demoRule r b) log forkStart = Some c \<and> (1, b) \<in> set log \<and> FideBHash syncLib b = ''bX''"
proof -
  obtain st c where r: "syncRun syncEnv demoRule rev [hashMsg ''y'', blockMsg, hashMsg ''x''] (SyncReset, forkStart) = Some ([True, True, True], st, c)"
    using demo_sync_run by blast
  have l: "length [hashMsg ''y'', blockMsg, hashMsg ''x''] < 2 ^ 64" by simp
  have m: "(True, blockMsg) \<in> set (zip [True, True, True] [hashMsg ''y'', blockMsg, hashMsg ''x''])" by simp
  have a: "unat (thrOf syncEnv 1) \<le> acksFor syncEnv demoRule [hashMsg ''y'', blockMsg, hashMsg ''x''] [True, True, True] 1 ''bX''"
    by code_simp
  from fide_sync_delivers[OF refl iter_ok_rev demo_sync(1) r l m demo_sync(3,5) a] r show ?thesis by blast
qed

subsection \<open>The copy for Monoxide\<close>

text \<open>\<^verbatim>\<open>SyncRelayBlock.go\<close> is \<^verbatim>\<open>SyncFideBlock.go\<close> with the shard amount of Monoxide and another message type.  It still works on
  \<^verbatim>\<open>Monosulfide.GlobalShards\<close> and \<^verbatim>\<open>Monosulfide.LocalShard\<close>, the arguments \<open>gs\<close> and \<open>loc\<close> here.\<close>

definition SyncSBlockHandle ::
  "Lib \<Rightarrow> Conf \<Rightarrow> 'd KV \<Rightarrow> schedule \<Rightarrow> clock \<Rightarrow> clock \<Rightarrow> (bytes \<Rightarrow> nat) \<Rightarrow> nodeMap \<Rightarrow> Domain list \<Rightarrow> ackOrder \<Rightarrow> Message \<Rightarrow>
    FideBlock Sync \<times> 'd FideChain \<Rightarrow> (bool \<times> FideBlock Sync \<times> 'd FideChain) option" where
  "SyncSBlockHandle L conf kv sched clock clock' at nodes gs ord =
     HandleSync \<lparr>syNodes = nodes, syShards = gs\<rparr> (fideRule L conf kv sched clock clock' at) ord"

definition SyncSBlockRequest ::
  "Lib \<Rightarrow> Conf \<Rightarrow> nodeMap \<Rightarrow> Domain list \<Rightarrow> (nat \<times> 'd FideChain) option \<Rightarrow> bytes \<Rightarrow> nat \<Rightarrow> (bytes \<times> bytes) list option" where
  "SyncSBlockRequest L conf nodes gs loc self a =
     do { (sid, c) \<leftarrow> loc; SyncFideRequest L conf \<lparr>syNodes = nodes, syShards = gs\<rparr> sid self a c }"

text \<open>In a Monoxide network neither is ever set, so that sending and every message received panic.\<close>
lemma SyncSBlock_panics:
  "SyncSBlockHandle L conf kv sched clock clock' at nodes [] ord m s = None"
  "SyncSBlockRequest L conf nodes gs None self a = None"
  by (cases s; cases "mget nodes (RemoteInfo m)") (simp_all add: SyncSBlockHandle_def HandleSync_def SyncSBlockRequest_def slot_def)

end
