(* ===== verification/Manage.thy ===== *)
theory Manage
  imports IdChain Proposals
begin

text \<open>
  Managing a domain: proposals and delayed communications (\<^verbatim>\<open>src/Interfaces/Operations.go\<close>, \<^verbatim>\<open>Communication.go\<close>), the
  migration of the proposal buffer to a new main node (\<^verbatim>\<open>src/Comm/IdChainComm/Com_ProposalBufferMigrate.go\<close>), the view
  change, which deposes a silent main node (\<^verbatim>\<open>src/Comm/ViewChange.go\<close>), and the synchronised start of the
  shards (\<^verbatim>\<open>src/Comm/MainBegin.go\<close>).
\<close>

subsection \<open>Proposals and delayed communications\<close>

type_synonym ComBuffer = "(bytes, (bool, bytes list list) gomap) gomap"   \<comment> \<open>type, whether a request, the calls\<close>

definition AppendDelayedCom :: "bytes \<Rightarrow> bool \<Rightarrow> bytes list \<Rightarrow> ComBuffer \<Rightarrow> ComBuffer" where
  "AppendDelayedCom comType isRequest vars buf =
     (let mp = getOr buf comType []
      in mput comType (mput isRequest (getOr mp isRequest [] @ [vars]) mp) buf)"

definition delayedCalls :: "ComBuffer \<Rightarrow> (bytes \<times> bool \<times> bytes list) list" where
  \<comment> \<open>the calls of \<open>ClearComBuffer\<close>; the maps are iterated in the order of the lists\<close>
  "delayedCalls buf =
     concat (map (\<lambda>(t, mp). concat (map (\<lambda>(r, cs). map (\<lambda>vars. (t, r, vars)) cs) mp)) buf)"

definition ClearComBuffer :: "(bytes \<times> bool \<times> bytes list \<Rightarrow> 's \<Rightarrow> 's option) \<Rightarrow> ComBuffer \<Rightarrow> 's \<Rightarrow> ('s \<times> ComBuffer) option" where
  "ClearComBuffer call buf s = map_option (\<lambda>s'. (s', [])) (foldM call (delayedCalls buf) s)"

definition interfacePropose ::
  "(bytes \<times> bool \<times> bytes list \<Rightarrow> 's \<Rightarrow> 's option) \<Rightarrow> bytes \<Rightarrow> bytes list \<Rightarrow> ProposalBuffer \<times> ComBuffer \<times> 's \<Rightarrow>
    (ProposalBuffer \<times> ComBuffer \<times> 's) option" where
  \<comment> \<open>\<open>Interfaces.Propose\<close>; the call of the consensus it starts in the background is an event of its own\<close>
  "interfacePropose call reqType vars = (\<lambda>(pq, buf, s).
     do { pq' \<leftarrow> Push pq \<lparr>ReqType = reqType, Vars = vars\<rparr>;
          (s', buf') \<leftarrow> ClearComBuffer call buf s;
          Some (pq', buf', s') })"

subsection \<open>Migration of the proposals\<close>

definition codeProposal :: "bytes \<Rightarrow> Proposal \<Rightarrow> bytes" where
  \<comment> \<open>the loop body of \<open>_generateMsg\<close>\<close>
  "codeProposal content pro =
     AppendByteContent (AppendByteContent (AppendStrContent content [ReqType pro])
       [UintToBytes (of_nat (length (Vars pro)))]) (Vars pro)"

definition generateMsg :: "64 word \<Rightarrow> ProposalBuffer \<Rightarrow> (bytes \<times> ProposalBuffer) option" where
  \<comment> \<open>the content; each round of the loop takes a proposal out of the buffer, so the fuel is enough\<close>
  "generateMsg num pq =
     do { (ps, pq') \<leftarrow> popAll Pop (proLen pq) pq;
          Some (foldl codeProposal (NewByteContent [UintToBytes num]) ps, pq') }"

definition MigrateRequest :: "bytes \<Rightarrow> ProposalBuffer \<times> 'd IdChain \<Rightarrow> (bool \<times> (bytes \<times> bytes) option \<times> ProposalBuffer) option" where
  \<comment> \<open>the answer, the address and content sent, and the buffer; \<open>self\<close> is the running node\<close>
  "MigrateRequest self = (\<lambda>(pq, idc).
     (if IsIdMainNode self idc then Some (False, None, pq)
      else do { (content, pq') \<leftarrow> generateMsg (of_int (Amount pq)) pq;
                k \<leftarrow> mainNode idc;
                n \<leftarrow> mget (NodeMap idc) k;
                Some (True, Some (IpAddr n, content), pq') }))"

fun takeVars :: "bytes list \<Rightarrow> nat \<Rightarrow> nat \<Rightarrow> (bytes list \<times> nat) option" where
  \<comment> \<open>the inner loop of \<open>_parseMsg\<close>: \<open>n\<close> fields from \<open>cnt\<close> on\<close>
  "takeVars fs cnt 0 = Some ([], cnt)"
| "takeVars fs cnt (Suc n) =
     do { x \<leftarrow> slot fs cnt; (xs, c) \<leftarrow> takeVars fs (Suc cnt) n; Some (x # xs, c) }"

fun parseProposals :: "bytes list \<Rightarrow> nat \<Rightarrow> nat \<Rightarrow> Proposal list option" where
  \<comment> \<open>the outer loop of \<open>_parseMsg\<close>\<close>
  "parseProposals fs cnt 0 = Some []"
| "parseProposals fs cnt (Suc n) =
     do { t \<leftarrow> slot fs cnt;
          f \<leftarrow> slot fs (cnt + 1);
          paramAmount \<leftarrow> BytesToUint f;
          (vars, cnt') \<leftarrow> takeVars fs (cnt + 2) (unat paramAmount);
          ps \<leftarrow> parseProposals fs cnt' n;
          Some (\<lparr>ReqType = t, Vars = vars\<rparr> # ps) }"

definition parseMsg :: "bytes \<Rightarrow> Proposal list option" where
  "parseMsg content =
     (let fs = ParseContent content
      in do { x \<leftarrow> slot fs 0; amount \<leftarrow> BytesToUint x; parseProposals fs 1 (unat amount) })"

definition MigrateHandleRequest ::
  "(bytes \<times> bool \<times> bytes list \<Rightarrow> 's \<Rightarrow> 's option) \<Rightarrow> bytes \<Rightarrow> bytes \<Rightarrow> 'd IdChain \<Rightarrow> ProposalBuffer \<times> ComBuffer \<times> 's \<Rightarrow>
    (bool \<times> bytes option \<times> ProposalBuffer \<times> ComBuffer \<times> 's) option" where
  \<comment> \<open>the answer, the address the message is passed on to, and the state\<close>
  "MigrateHandleRequest call self content idc st =
     (if IsIdMainNode self idc
      then do { pros \<leftarrow> parseMsg content;
                st' \<leftarrow> foldM (\<lambda>p. interfacePropose call (ReqType p) (Vars p)) pros st;
                Some (True, None, st') }
      else do { k \<leftarrow> mainNode idc; n \<leftarrow> mget (NodeMap idc) k; Some (False, Some (IpAddr n), st) })"

subsection \<open>The proposals of a buffer move to the new main node\<close>

definition proFields :: "Proposal \<Rightarrow> bytes list" where
  "proFields p = ReqType p # UintToBytes (of_nat (length (Vars p))) # Vars p"

lemma AppendStr_Byte: "AppendStrContent = AppendByteContent"
  by (simp add: fun_eq_iff AppendStrContent_def AppendByteContent_def)

lemma foldl_codeProposal:
  "fs \<noteq> [] \<Longrightarrow> foldl codeProposal (NewByteContent fs) ps = NewByteContent (fs @ concat (map proFields ps))"
proof (induction ps arbitrary: fs)
  case (Cons p ps)
  have "codeProposal (NewByteContent fs) p = NewByteContent (fs @ proFields p)"
    using Cons.prems
    by (cases "Vars p = []")
       (simp_all add: codeProposal_def proFields_def AppendStr_Byte AppendByteContent_New AppendByteContent_def[of _ "[]"])
  then show ?case using Cons.IH[of "fs @ proFields p"] Cons.prems by simp
qed simp

lemma slot_append: "slot (pre @ x # post) (length pre) = Some x"
  by (simp add: slot_def)

lemma takeVars_fields: "takeVars (pre @ xs @ post) (length pre) (length xs) = Some (xs, length pre + length xs)"
proof (induction xs arbitrary: pre)
  case (Cons x xs)
  from Cons.IH[of "pre @ [x]"] show ?case by (simp add: slot_append)
qed simp

lemma parseProposals_fields:
  "\<forall>p\<in>set ps. length (Vars p) < 2 ^ 64 \<Longrightarrow>
    parseProposals (pre @ concat (map proFields ps)) (length pre) (length ps) = Some ps \<and>
    parseProposals (pre @ concat (map proFields ps)) (length pre) (length ps + Suc k) = None"
proof (induction ps arbitrary: pre)
  case Nil
  then show ?case by (simp add: slot_def)
next
  case (Cons p ps)
  let ?rest = "concat (map proFields ps)"
  let ?f = "UintToBytes (of_nat (length (Vars p)) :: 64 word)"
  have n: "unat (of_nat (length (Vars p)) :: 64 word) = length (Vars p)"
    using Cons.prems by (simp add: unat_of_nat take_bit_nat_eq_self)
  have tv: "takeVars (pre @ ReqType p # ?f # Vars p @ ?rest) (Suc (Suc (length pre))) (length (Vars p)) =
      Some (Vars p, length pre + 2 + length (Vars p))"
    using takeVars_fields[of "pre @ [ReqType p, ?f]" "Vars p" ?rest] by simp
  have s1: "slot (pre @ ReqType p # ?f # Vars p @ ?rest) (Suc (length pre)) = Some ?f"
    using slot_append[of "pre @ [ReqType p]" ?f] by simp
  have step: "parseProposals (pre @ concat (map proFields (p # ps))) (length pre) (Suc m) =
      map_option ((#) p) (parseProposals ((pre @ proFields p) @ ?rest) (length (pre @ proFields p)) m)" for m
  proof -
    have "parseProposals (pre @ ReqType p # ?f # Vars p @ ?rest) (length pre) (Suc m) =
        map_option ((#) p) (parseProposals (pre @ ReqType p # ?f # Vars p @ ?rest) (length pre + 2 + length (Vars p)) m)"
      using tv s1 n by (simp add: slot_append map_option_case split: option.split)
    then show ?thesis by (simp add: proFields_def)
  qed
  have "parseProposals ((pre @ proFields p) @ ?rest) (length (pre @ proFields p)) (length ps) = Some ps \<and>
      parseProposals ((pre @ proFields p) @ ?rest) (length (pre @ proFields p)) (length ps + Suc k) = None"
    by (rule Cons.IH) (use Cons.prems in simp)
  then show ?case using step[of "length ps"] step[of "length ps + Suc k"] by simp
qed

lemma generateMsg_pops:
  assumes "heapInv pq"
  shows "\<exists>ps pq'. generateMsg n pq = Some (NewByteContent (UintToBytes n # concat (map proFields ps)), pq') \<and>
    sorted (map (prioOf pq) ps) \<and> mset ps = filter_mset (\<lambda>p. prioOf pq p \<le> priorThreshold pq) (contents pq) \<and>
    contents pq' = filter_mset (\<lambda>p. priorThreshold pq < prioOf pq p) (contents pq) \<and> heapInv pq'"
proof -
  have "size (contents pq) < proLen pq" using assms size_contents[of pq] by (simp add: heapInv_def bufWf_def Amount_def proLen_def)
  from pb.popAll_law[OF assms this] show ?thesis by (auto simp: generateMsg_def foldl_codeProposal)
qed

lemma foldM_propose:
  "heapInv pq \<Longrightarrow> foldM call (delayedCalls buf) s = Some s1 \<Longrightarrow>
    \<exists>pq' buf' s'. foldM (\<lambda>p. interfacePropose call (ReqType p) (Vars p)) ps (pq, buf, s) = Some (pq', buf', s') \<and>
      heapInv pq' \<and> contents pq' = contents pq + mset ps"
proof (induction ps arbitrary: pq buf s s1)
  case (Cons p ps)
  obtain pq1 where q: "Push pq p = Some pq1" "heapInv pq1" "contents pq1 = add_mset p (contents pq)"
    using pb.push_law[OF Cons.prems(1)] by blast
  have p: "\<lparr>ReqType = ReqType p, Vars = Vars p\<rparr> = p" by simp
  have step: "interfacePropose call (ReqType p) (Vars p) (pq, buf, s) = Some (pq1, [], s1)"
    using q(1) Cons.prems(2) by (simp add: interfacePropose_def ClearComBuffer_def p)
  have "foldM call (delayedCalls []) s1 = Some s1" by (simp add: delayedCalls_def)
  from Cons.IH[OF q(2) this] show ?case
    using q(3) step by simp
qed simp

text \<open>C26: A node that has lost the main role sends its proposals, and the new main node then holds its own and all of these, each with
  its parameters, and the old one holds none.  If the threshold of the old buffer had kept proposals back, the announced amount would
  be too large and the new main node would panic.\<close>
theorem migrate_moves_all:
  assumes "heapInv pq" "heapInv pq2" "size (contents pq) < 2 ^ 64" "\<forall>p\<in>#contents pq. length (Vars p) < 2 ^ 64"
    and req: "MigrateRequest self (pq, idc) = Some (True, Some (ip, content), pq')"
    and "IsIdMainNode self2 idc2" "foldM call (delayedCalls buf) s = Some s1"
  shows "if \<forall>p\<in>#contents pq. prioOf pq p \<le> priorThreshold pq
    then contents pq' = {#} \<and> (\<exists>pq2' buf' s'. MigrateHandleRequest call self2 content idc2 (pq2, buf, s) = Some (True, None, pq2', buf', s') \<and>
      heapInv pq2' \<and> contents pq2' = contents pq2 + contents pq)
    else MigrateHandleRequest call self2 content idc2 (pq2, buf, s) = None"
proof -
  let ?n = "of_int (Amount pq) :: 64 word"
  obtain ps pq1 where g: "generateMsg ?n pq = Some (NewByteContent (UintToBytes ?n # concat (map proFields ps)), pq1)"
    "mset ps = filter_mset (\<lambda>p. prioOf pq p \<le> priorThreshold pq) (contents pq)"
    "contents pq1 = filter_mset (\<lambda>p. priorThreshold pq < prioOf pq p) (contents pq)"
    using generateMsg_pops[OF assms(1)] by blast
  have c: "content = NewByteContent (UintToBytes ?n # concat (map proFields ps))" "pq' = pq1"
    using req g(1) by (auto simp: MigrateRequest_def bind_eq_Some_conv split: if_splits)
  have n: "unat ?n = size (contents pq)"
  proof -
    have "Amount pq = int (size (contents pq))" using assms(1) by (simp add: heapInv_def size_contents)
    then show ?thesis using assms(3) by (simp add: unat_of_nat take_bit_nat_eq_self)
  qed
  have vars: "\<forall>p\<in>set ps. length (Vars p) < 2 ^ 64"
  proof
    fix p assume "p \<in> set ps"
    then have "p \<in># mset ps" by simp
    then show "length (Vars p) < 2 ^ 64" using g(2) assms(4) by simp
  qed
  have parse: "parseMsg content = parseProposals (UintToBytes ?n # concat (map proFields ps)) 1 (size (contents pq))"
    using n by (simp add: parseMsg_def c ParseContent_New slot_def)
  note inv = parseProposals_fields[OF vars, of "[UintToBytes ?n]"]
  show ?thesis
  proof (cases "\<forall>p\<in>#contents pq. prioOf pq p \<le> priorThreshold pq")
    case True
    then have all: "mset ps = contents pq" "contents pq1 = {#}"
      unfolding g(2,3) by (auto simp: filter_mset_eq_conv not_less)
    then have "size (contents pq) = length ps" by (metis size_mset)
    then have "parseMsg content = Some ps" using parse inv by simp
    then show ?thesis
      using True foldM_propose[OF assms(2,7), of ps] all assms(6) by (auto simp: MigrateHandleRequest_def c(2))
  next
    case False
    then have "size (mset ps) < size (contents pq)" unfolding g(2)
      by (metis (mono_tags, lifting) filter_mset_eq_conv multiset_filter_subset size_mset_mono mset_subset_size subset_mset.le_neq_trans)
    then obtain k where "size (contents pq) = length ps + Suc k" by (metis less_iff_Suc_add size_mset add_Suc_right)
    then have "parseMsg content = None" using parse inv by simp
    then show ?thesis using False assms(6) by (auto simp: MigrateHandleRequest_def)
  qed
qed

definition demoDomain :: "bytes \<Rightarrow> ((bytes \<times> bytes) \<times> bytes) list IdChain" where
  \<comment> \<open>four running nodes and a main node\<close>
  "demoDomain m = demoIdc\<lparr>NodeMap := demoMap, mainNode := Some m\<rparr>"

theorem migrate_moves_all_witness:
  "\<exists>content pq' pq2'. MigrateRequest ''a'' (SetThreshold demoBuffer LowestPriority, demoDomain ''b'') = Some (True, Some (''10.0.0.1:1'', content), pq') \<and>
     MigrateHandleRequest (\<lambda>_ s. Some s) ''b'' content (demoDomain ''b'') (NewProposalBuffer, [], ()) = Some (True, None, pq2', [], ()) \<and>
     size (contents pq2') = 3"
proof -
  let ?pq = "SetThreshold demoBuffer LowestPriority"
  have h: "heapInv ?pq" "contents ?pq = contents demoBuffer" using heapInv_SetThreshold[OF heapInv_demo(1)] by blast+
  have e: "set_mset (contents ?pq) \<subseteq> {demoPro ''EpochReset'', demoPro ''InternalTx''}"
    unfolding h(2) by (auto simp: contents_def demoBuffer_def)
  have v: "\<forall>p\<in>#contents ?pq. length (Vars p) < 2 ^ 64" using e by (auto simp: demoPro_def)
  have low: "\<forall>p\<in>#contents ?pq. prioOf ?pq p \<le> priorThreshold ?pq"
    using e by (auto simp: demoPro_def prioOf_def SetThreshold_def LowestPriority_def demoBuffer_def Now_def NormalPriority_def)
  have main: "mainNode (demoDomain ''b'') = Some ''b''" "mget (NodeMap (demoDomain ''b'')) ''b'' = Some (demoNode 2)"
    by (simp_all add: demoDomain_def demoMap_def)
  obtain c pq' where r: "MigrateRequest ''a'' (?pq, demoDomain ''b'') = Some (True, Some (''10.0.0.1:1'', c), pq')"
    using generateMsg_pops[OF h(1), of "of_int (Amount ?pq)"] main
    by (auto simp: MigrateRequest_def IsIdMainNode_def demoNode_def)
  have small: "size (contents ?pq) < 2 ^ 64" using heapInv_demo(2) h(2) by simp
  have b: "IsIdMainNode ''b'' (demoDomain ''b'')" using main by (simp add: IsIdMainNode_def)
  have d: "foldM (\<lambda>_ s. Some s) (delayedCalls []) () = Some ()" by (simp add: delayedCalls_def)
  from migrate_moves_all[OF h(1) heapInv_New(1) small v r b d] low
  obtain pq2' buf' s' where m: "MigrateHandleRequest (\<lambda>_ s. Some s) ''b'' c (demoDomain ''b'') (NewProposalBuffer, [], ()) = Some (True, None, pq2', buf', s')"
    "contents pq2' = contents NewProposalBuffer + contents ?pq" by auto
  have "buf' = []"
  proof -
    have i: "(\<lambda>(pq, buf, s :: unit). buf = ([] :: ComBuffer)) (pq', buf', s')"
      if "foldM (\<lambda>p. interfacePropose (\<lambda>_ s. Some s) (ReqType p) (Vars p)) ps (NewProposalBuffer, [], ()) = Some (pq', buf', s')" for ps pq'
      by (rule foldM_invariant[OF that, of "\<lambda>(pq, buf, s). buf = []"]) (auto simp: interfacePropose_def ClearComBuffer_def bind_eq_Some_conv)
    show ?thesis using m(1) i by (auto simp: MigrateHandleRequest_def bind_eq_Some_conv b)
  qed
  then show ?thesis using r m heapInv_New(2) heapInv_demo(2) h(2) by auto
qed

subsection \<open>The view change\<close>

datatype vcState = standBy | collecting

record ViewChange =
  vcCount :: "(64 word, (bytes, bool) gomap) gomap"
  vcMode :: vcState                                   \<comment> \<open>the field \<open>state\<close>\<close>
  responseBuffer :: "(64 word, bytes) gomap"

datatype vcOut = ViewSend bytes bytes | ViewEnable | ViewTic   \<comment> \<open>type and content, to \<open>BroadAddr\<close>; \<open>con.Enable\<close>; \<open>con.Tic\<close>\<close>

definition ViewReset :: ViewChange where
  "ViewReset = \<lparr>vcCount = [], vcMode = standBy, responseBuffer = []\<rparr>"

definition ViewRequest :: "'d IdChain \<Rightarrow> vcOut list" where
  "ViewRequest idc = [ViewSend ''ViewChangeREQ'' (NewByteContent [UintToBytes (viewId idc + 1)])]"

definition changeView :: "64 word \<Rightarrow> 'd IdChain \<Rightarrow> 'd IdChain" where
  "changeView vid idc = idc\<lparr>viewId := vid\<rparr>"

definition recordVote :: "64 word \<Rightarrow> bytes \<Rightarrow> ViewChange \<Rightarrow> ViewChange" where
  "recordVote vid sender vc = vc\<lparr>vcCount := mput vid (mput sender True (getOr (vcCount vc) vid [])) (vcCount vc)\<rparr>"

definition deposeMain :: "'d IdChain \<Rightarrow> 'd IdChain option" where
  "deposeMain idc =
     do { k \<leftarrow> mainNode idc;
          n \<leftarrow> mget (NodeMap idc) k;
          Some (idc\<lparr>NodeMap := mput k (n\<lparr>Activating := False, Sleeping := False\<rparr>) (NodeMap idc)\<rparr>) }"

definition replaceMain :: "Lib \<Rightarrow> bytes \<Rightarrow> 64 word \<Rightarrow> ViewChange \<Rightarrow> 'd IdChain \<Rightarrow> (vcOut list \<times> ViewChange \<times> 'd IdChain) option" where
  \<comment> \<open>the block of \<open>HandleRequest\<close> for enough requests; \<open>self\<close> is the running node\<close>
  "replaceMain L self vid vc idc =
     do { idc1 \<leftarrow> deposeMain idc;
          idc2 \<leftarrow> SelectMain L idc1;
          k \<leftarrow> mainNode idc2;
          n \<leftarrow> mget (NodeMap idc2) k;
          Some (if IsIdMainNode self idc2
                then ([ViewSend ''ViewChangeRES'' (NewByteContent [UintToBytes vid]), ViewTic, ViewEnable], vc, changeView vid idc2)
                else if getOr (responseBuffer vc) vid '''' = StrKey L n
                then ([ViewTic], vc, changeView vid idc2)
                else ([], vc\<lparr>vcMode := collecting\<rparr>, idc2)) }"

definition ViewHandleRequest ::
  "Lib \<Rightarrow> bytes \<Rightarrow> Message \<Rightarrow> ViewChange \<times> 'd IdChain \<Rightarrow> (bool \<times> vcOut list \<times> ViewChange \<times> 'd IdChain) option" where
  "ViewHandleRequest L self msg = (\<lambda>(vc, idc).
     do { x \<leftarrow> slot (ParseContent (MsgContent msg)) 0;
          vid \<leftarrow> BytesToUint x;
          if vid \<le> viewId idc then Some (False, [], vc, idc)
          else if mget (NodeMap idc) (RemoteInfo msg) = None then Some (True, [], vc, idc)
          else let vc1 = recordVote vid (RemoteInfo msg) vc
               in if sint (Threshold (NodeMap idc)) \<le> int (length (getOr (vcCount vc1) vid [])) \<and> vcMode vc1 = standBy
                  then do { (out, s) \<leftarrow> replaceMain L self vid vc1 idc; Some (True, out, s) }
                  else Some (True, [], vc1, idc) })"

definition ViewHandleResponse :: "Message \<Rightarrow> ViewChange \<times> 'd IdChain \<Rightarrow> (vcOut list \<times> ViewChange \<times> 'd IdChain) option" where
  "ViewHandleResponse msg = (\<lambda>(vc, idc).
     do { x \<leftarrow> slot (ParseContent (MsgContent msg)) 0;
          vid \<leftarrow> BytesToUint x;
          Some (case vcMode vc of
              standBy \<Rightarrow> ([], vc\<lparr>responseBuffer := mput vid (RemoteInfo msg) (responseBuffer vc)\<rparr>, idc)
            | collecting \<Rightarrow>
                if pointer (NodeMap idc) (RemoteInfo msg) = mainNode idc
                then ([ViewTic], vc, changeView vid idc) else ([], vc, idc)) })"

datatype vcEvent = VReq Message | VRes Message

fun vcStep :: "Lib \<Rightarrow> bytes \<Rightarrow> vcEvent \<Rightarrow> ViewChange \<times> 'd IdChain \<Rightarrow> (ViewChange \<times> 'd IdChain) option" where
  "vcStep L self (VReq m) s = map_option (snd \<circ> snd) (ViewHandleRequest L self m s)"
| "vcStep L self (VRes m) s = map_option snd (ViewHandleResponse m s)"

definition asksFor :: "64 word \<Rightarrow> vcEvent list \<Rightarrow> bytes set" where
  \<comment> \<open>the senders of the requests for a view\<close>
  "asksFor vid es = {RemoteInfo m | m. VReq m \<in> set es \<and>
     (\<exists>x. slot (ParseContent (MsgContent m)) 0 = Some x \<and> BytesToUint x = Some vid)}"

lemma asksFor_mono: "set es \<subseteq> set fs \<Longrightarrow> asksFor vid es \<subseteq> asksFor vid fs"
  by (auto simp: asksFor_def)

definition certifiedChange :: "vcEvent list \<Rightarrow> 'd IdChain \<Rightarrow> bool" where
  \<comment> \<open>\<open>Threshold\<close> registered nodes have asked for one and the same later view\<close>
  "certifiedChange es idc \<longleftrightarrow> (\<exists>vid S. viewId idc < vid \<and> finite S \<and> S \<subseteq> asksFor vid es \<and>
     S \<subseteq> {k. mget (NodeMap idc) k \<noteq> None} \<and> sint (Threshold (NodeMap idc)) \<le> int (card S))"

definition quiet :: "vcEvent list \<Rightarrow> 'd IdChain \<Rightarrow> ViewChange \<times> 'd IdChain \<Rightarrow> bool" where
  \<comment> \<open>nothing has changed, and the votes are those of the requests\<close>
  "quiet es idc0 s \<longleftrightarrow> snd s = idc0 \<and> vcMode (fst s) = standBy \<and>
     (\<forall>vid. mwf (getOr (vcCount (fst s)) vid []) \<and>
        set (map fst (getOr (vcCount (fst s)) vid [])) \<subseteq> asksFor vid es \<inter> {k. mget (NodeMap idc0) k \<noteq> None})"

lemma quiet_step:
  assumes "quiet es idc0 s" "vcStep L self e s = Some s'"
  shows "quiet (es @ [e]) idc0 s' \<or> certifiedChange (es @ [e]) idc0"
proof -
  obtain vc where s: "s = (vc, idc0)" "vcMode vc = standBy" using assms(1) by (cases s) (simp add: quiet_def)
  have votes: "mwf (getOr (vcCount vc) v [])"
    "set (map fst (getOr (vcCount vc) v [])) \<subseteq> asksFor v (es @ [e]) \<inter> {k. mget (NodeMap idc0) k \<noteq> None}" for v
    using assms(1) asksFor_mono[of es "es @ [e]" v] by (auto simp: quiet_def s(1))
  have same: "quiet (es @ [e]) idc0 (vc1, idc0)" if "vcCount vc1 = vcCount vc" "vcMode vc1 = standBy" for vc1
    using votes that by (simp add: quiet_def)
  show ?thesis
  proof (cases e)
    case (VRes m)
    then show ?thesis using assms(2) s same by (auto simp: ViewHandleResponse_def bind_eq_Some_conv)
  next
    case (VReq m)
    obtain x vid where v: "slot (ParseContent (MsgContent m)) 0 = Some x" "BytesToUint x = Some vid"
      using assms(2) VReq s by (auto simp: ViewHandleRequest_def bind_eq_Some_conv)
    have me: "RemoteInfo m \<in> asksFor vid (es @ [e])" using VReq v by (auto simp: asksFor_def)
    show ?thesis
    proof (cases "vid \<le> viewId idc0 \<or> mget (NodeMap idc0) (RemoteInfo m) = None")
      case True
      then show ?thesis using assms(2) VReq v s same by (auto simp: ViewHandleRequest_def split: if_splits)
    next
      case False
      let ?vc = "recordVote vid (RemoteInfo m) vc"
      let ?new = "getOr (vcCount ?vc) vid []"
      have new: "getOr (vcCount ?vc) v [] = (if v = vid then mput (RemoteInfo m) True (getOr (vcCount vc) vid []) else getOr (vcCount vc) v [])" for v
        by (simp add: recordVote_def getOr_def)
      have votes': "mwf (getOr (vcCount ?vc) v [])"
        "set (map fst (getOr (vcCount ?vc) v [])) \<subseteq> asksFor v (es @ [e]) \<inter> {k. mget (NodeMap idc0) k \<noteq> None}" for v
      proof -
        have "fst ` set (mput k True m) = insert k (fst ` set m)" for k and m :: "(bytes, bool) gomap"
          using set_mkeys_mput[of k True m] by simp
        then show "mwf (getOr (vcCount ?vc) v [])"
          "set (map fst (getOr (vcCount ?vc) v [])) \<subseteq> asksFor v (es @ [e]) \<inter> {k. mget (NodeMap idc0) k \<noteq> None}"
          using votes[of v] me False by (cases "v = vid"; simp add: new mwf_mput)+
      qed
      show ?thesis
      proof (cases "sint (Threshold (NodeMap idc0)) \<le> int (length ?new)")
        case True
        have "length ?new = card (set (map fst ?new))"
          using votes'(1)[of vid] by (metis mwf_def distinct_card length_map)
        then have "certifiedChange (es @ [e]) idc0"
          using True False votes'(2)[of vid] unfolding certifiedChange_def by (intro exI[of _ vid] exI[of _ "set (map fst ?new)"]) auto
        then show ?thesis ..
      next
        case False
        then have "s' = (?vc, idc0)"
          using assms(2) VReq v s \<open>\<not> (vid \<le> viewId idc0 \<or> _)\<close> by (auto simp: ViewHandleRequest_def Let_def)
        then show ?thesis using votes' s(2) by (simp add: quiet_def recordVote_def)
      qed
    qed
  qed
qed

text \<open>C24: A node takes part in a view change only when \<open>Threshold\<close> different registered nodes have asked it for one and the same
  later view: unless they did, no sequence of messages changes its main node, its view or its nodes, and it does not begin to collect.\<close>
theorem view_change_certified:
  assumes "foldM (vcStep L self) es (ViewReset, idc) = Some (vc, idc')" "\<not> certifiedChange es idc"
  shows "idc' = idc \<and> vcMode vc = standBy"
proof -
  have "foldM (vcStep L self) es (ViewReset, idc) = Some s \<Longrightarrow> quiet es idc s \<or> certifiedChange es idc" for s
  proof (induction es arbitrary: s rule: rev_induct)
    case Nil
    then show ?case by (auto simp: quiet_def ViewReset_def getOr_def mwf_def)
  next
    case (snoc e es)
    obtain t where t: "foldM (vcStep L self) es (ViewReset, idc) = Some t" "vcStep L self e t = Some s"
      using snoc.prems by (auto simp: foldM_append bind_eq_Some_conv)
    from snoc.IH[OF t(1)] show ?case
    proof
      assume "certifiedChange es idc"
      then obtain vid S where c: "viewId idc < vid" "finite S" "S \<subseteq> asksFor vid es"
        "S \<subseteq> {k. mget (NodeMap idc) k \<noteq> None}" "sint (Threshold (NodeMap idc)) \<le> int (card S)"
        unfolding certifiedChange_def by blast
      then have "S \<subseteq> asksFor vid (es @ [e])" using asksFor_mono[of es "es @ [e]" vid] by auto
      then show ?thesis using c unfolding certifiedChange_def by blast
    qed (rule quiet_step[OF _ t(2)])
  qed
  from this[OF assms(1)] show ?thesis using assms(2) by (simp add: quiet_def)
qed

text \<open>The mode is never set back: a node that waits for the answer of the new main node answers no further request, whoever asks and
  however often.  Its main node and its nodes stay, it sends nothing, and each response of its main node sets its view to the number
  that it names, be it lower than before.\<close>
theorem view_change_stuck:
  assumes "vcMode vc = collecting" "foldM (vcStep L self) es (vc, idc) = Some (vc', idc')"
  shows "vcMode vc' = collecting \<and> mainNode idc' = mainNode idc \<and> NodeMap idc' = NodeMap idc \<and>
    (\<forall>m ok out s. ViewHandleRequest L self m (vc', idc') = Some (ok, out, s) \<longrightarrow> out = []) \<and>
    (\<forall>k t vid. mainNode idc' = Some k \<and> mget (NodeMap idc') k \<noteq> None \<longrightarrow>
      vcStep L self (VRes \<lparr>MsgType = t, MsgContent = NewByteContent [UintToBytes vid], RemoteInfo = k\<rparr>) (vc', idc') =
        Some (vc', idc'\<lparr>viewId := vid\<rparr>))"
proof -
  have step: "vcMode vc' = collecting \<and> mainNode idc' = mainNode idc \<and> NodeMap idc' = NodeMap idc"
    if "vcStep L self e (vc, idc) = Some (vc', idc')" "vcMode vc = collecting" for e vc vc' and idc idc' :: "'a IdChain"
    using that by (cases e) (auto simp: ViewHandleRequest_def ViewHandleResponse_def bind_eq_Some_conv Let_def recordVote_def changeView_def
      split: if_splits)
  have run: "vcMode vc' = collecting \<and> mainNode idc' = mainNode idc \<and> NodeMap idc' = NodeMap idc"
    using assms(2,1)
  proof (induction es arbitrary: vc idc)
    case (Cons e es)
    obtain vc1 idc1 where h: "vcStep L self e (vc, idc) = Some (vc1, idc1)" "foldM (vcStep L self) es (vc1, idc1) = Some (vc', idc')"
      using Cons.prems(1) by (auto simp: bind_eq_Some_conv)
    from step[OF h(1) Cons.prems(2)] Cons.IH[OF h(2)] show ?case by simp
  qed simp
  moreover have "out = []" if "ViewHandleRequest L self m (vc', idc') = Some (ok, out, s)" for m ok out s
    using that run by (auto simp: ViewHandleRequest_def Let_def bind_eq_Some_conv recordVote_def split: if_splits)
  moreover have "vcStep L self (VRes \<lparr>MsgType = t, MsgContent = NewByteContent [UintToBytes vid], RemoteInfo = k\<rparr>) (vc', idc') =
        Some (vc', idc'\<lparr>viewId := vid\<rparr>)" if "mainNode idc' = Some k \<and> mget (NodeMap idc') k \<noteq> None" for k t vid
    using conjunct1[OF run] that by (auto simp add: ViewHandleResponse_def ParseContent_New slot_def pointer_def changeView_def)
  ultimately show ?thesis by blast
qed

lemma mput_mset:
  assumes "mwf m" "mget m k = Some v"
  shows "mset (mput k w m) = mset m - {#(k, v)#} + {#(k, w)#}"
  using assms
proof (induction m)
  case (Cons a m)
  obtain k' v' where a: "a = (k', v')" by fastforce
  show ?case
  proof (cases "k' = k")
    case True
    then show ?thesis using Cons.prems a by simp
  next
    case False
    then have "mget m k = Some v" "mwf m" using Cons.prems a by (auto simp: mwf_def)
    then have "(k, v) \<in># mset m" using set_mwf_iff by fastforce
    then show ?thesis using Cons.IH \<open>mwf m\<close> \<open>mget m k = Some v\<close> False a by simp
  qed
qed simp

lemma replaceMain_parts:
  assumes "replaceMain L self vid vc idc = Some (out, vc', idc')" "viewOk L (viewOf idc)"
  obtains k n key where "mainNode idc = Some k" "mget (NodeMap idc) k = Some n"
    "NodeMap idc' = mput k (n\<lparr>Activating := False, Sleeping := False\<rparr>) (NodeMap idc)"
    "SelectRandomKey (NodeMap idc') (randNum idc) = Some key" "mainNode idc' = Some (encodePub L key)"
    "encodePub L key \<in> runningKeys (NodeMap idc')"
proof -
  obtain k n key n' where h: "mainNode idc = Some k" "mget (NodeMap idc) k = Some n"
    "NodeMap idc' = mput k (n\<lparr>Activating := False, Sleeping := False\<rparr>) (NodeMap idc)"
    "SelectRandomKey (NodeMap idc') (randNum idc) = Some key" "mainNode idc' = pointer (NodeMap idc') (encodePub L key)"
    "mainNode idc' \<noteq> None"
    using assms(1)
    by (auto simp: replaceMain_def deposeMain_def SelectMain_def changeView_def bind_eq_Some_conv split: if_splits)
  have p: "mainNode idc' = Some (encodePub L key)" using h(5,6) by (auto simp: pointer_def split: if_splits)
  have ok: "mwf (NodeMap idc')" "\<And>k m. mget (NodeMap idc') k = Some m \<Longrightarrow> k = encodePub L (NodeId m)"
    using assms(2) h(2,3) by (auto simp: viewOk_def viewOf_def split: if_splits)
  have "slot (sortKeys (map NodeId (filter IsRunning (map snd (NodeMap idc'))))) j = Some key \<Longrightarrow>
      key \<in> set (map NodeId (filter IsRunning (map snd (NodeMap idc'))))" for j
    by (metis slot_eq_Some nth_mem sortKeys_def set_sort)
  then have "key \<in> set (map NodeId (filter IsRunning (map snd (NodeMap idc'))))"
    using h(4) by (auto simp only: SelectRandomKey_def GetSortedKeySlice_def bind_eq_Some_conv option.inject split: if_splits)
  then obtain k' m where "(k', m) \<in> set (NodeMap idc')" "IsRunning m" "NodeId m = key" by auto
  then have "mget (NodeMap idc') (encodePub L key) = Some m" "IsRunning m"
    using ok set_mwf_iff[of "NodeMap idc'"] by auto
  then have "encodePub L key \<in> runningKeys (NodeMap idc')" by (auto simp: runningKeys_def)
  then show ?thesis using that h p by blast
qed

text \<open>C25: Nodes with the same view that replace the main node, at the requests of whatever nodes, agree on the new main node: a running
  node of their map and not the old main node, which has left the running nodes.\<close>
theorem view_change_agrees:
  assumes "replaceMain L self vid vc idc = Some (out, vc', idc')" "replaceMain L self2 vid2 vc2 idc2 = Some (out2, vc2', idc2')"
    and "viewOk L (viewOf idc)" "viewOk L (viewOf idc2)" "sameNodes (NodeMap idc) (NodeMap idc2)" "mainNode idc2 = mainNode idc"
    "randNum idc2 = randNum idc" "inj_on keyN (NodeId ` snd ` set (NodeMap idc))"
  shows "mainNode idc2' = mainNode idc' \<and> mainNode idc' \<noteq> mainNode idc \<and> sameNodes (NodeMap idc') (NodeMap idc2') \<and>
    (\<exists>old new. mainNode idc = Some old \<and> mainNode idc' = Some new \<and> new \<in> runningKeys (NodeMap idc') \<and>
      runningKeys (NodeMap idc') = runningKeys (NodeMap idc) - {old})"
proof -
  from replaceMain_parts[OF assms(1,3)] obtain k n key where a: "mainNode idc = Some k" "mget (NodeMap idc) k = Some n"
    "NodeMap idc' = mput k (n\<lparr>Activating := False, Sleeping := False\<rparr>) (NodeMap idc)"
    "SelectRandomKey (NodeMap idc') (randNum idc) = Some key" "mainNode idc' = Some (encodePub L key)"
    "encodePub L key \<in> runningKeys (NodeMap idc')" by blast
  from replaceMain_parts[OF assms(2,4)] obtain k2 n2 key2 where b: "mainNode idc2 = Some k2" "mget (NodeMap idc2) k2 = Some n2"
    "NodeMap idc2' = mput k2 (n2\<lparr>Activating := False, Sleeping := False\<rparr>) (NodeMap idc2)"
    "SelectRandomKey (NodeMap idc2') (randNum idc2) = Some key2" "mainNode idc2' = Some (encodePub L key2)" by blast
  have wf: "mwf (NodeMap idc)" "mwf (NodeMap idc2)" using assms(3,4) by (simp_all add: viewOk_def viewOf_def)
  have ms: "mset (NodeMap idc) = mset (NodeMap idc2)" using assms(5) by (simp add: sameNodes_def)
  have k: "k2 = k" using a(1) b(1) assms(6) by simp
  have n: "n2 = n"
  proof -
    have "(k, n) \<in> set (NodeMap idc2)" using a(2) wf(1) ms set_mwf_iff by (metis set_mset_mset)
    then show ?thesis using b(2) wf(2) k set_mwf_iff by fastforce
  qed
  have same: "sameNodes (NodeMap idc') (NodeMap idc2')"
    unfolding sameNodes_def a(3) b(3) k n using mput_mset[OF wf(1) a(2)] mput_mset[OF wf(2) b(2)[unfolded k n]] ms by simp
  have "NodeId ` snd ` set (NodeMap idc') \<subseteq> NodeId ` snd ` set (NodeMap idc)"
  proof
    fix x assume "x \<in> NodeId ` snd ` set (NodeMap idc')"
    then obtain j m where m: "(j, m) \<in># mset (NodeMap idc')" "x = NodeId m" by auto
    have kn: "(k, n) \<in> set (NodeMap idc)" using a(2) wf(1) set_mwf_iff by fastforce
    have "(j, m) = (k, n\<lparr>Activating := False, Sleeping := False\<rparr>) \<or> (j, m) \<in> set (NodeMap idc)"
      using m(1) unfolding a(3) mput_mset[OF wf(1) a(2)] by (auto dest: in_diffD)
    then show "x \<in> NodeId ` snd ` set (NodeMap idc)" using m(2) kn by force
  qed
  moreover have "NodeId ` {n \<in> snd ` set (NodeMap idc'). IsRunning n} \<subseteq> NodeId ` snd ` set (NodeMap idc')" by blast
  ultimately have "inj_on keyN (NodeId ` {n \<in> snd ` set (NodeMap idc'). IsRunning n})"
    by (intro inj_on_subset[OF assms(8)]) (rule order_trans)
  from SelectRandomKey_perm[OF same this] have "key2 = key" using a(4) b(4) assms(7) by simp
  moreover have run: "runningKeys (NodeMap idc') = runningKeys (NodeMap idc) - {k}"
    unfolding a(3) by (auto simp: runningKeys_def IsRunning_def split: if_splits)
  moreover have "encodePub L key \<noteq> k" using a(6) unfolding run by blast
  ultimately show ?thesis using a b same by simp
qed

subsection \<open>A view change among four nodes\<close>

definition viewMap :: nodeMap where
  "viewMap = [(''a'', demoNode 97), (''b'', demoNode 98), (''c'', demoNode 99), (''d'', demoNode 100)]"

definition viewDomain :: "nodeMap \<Rightarrow> ((bytes \<times> bytes) \<times> bytes) list IdChain" where
  "viewDomain m = demoIdc\<lparr>NodeMap := m, mainNode := Some ''a''\<rparr>"

definition askView :: "bytes \<Rightarrow> 64 word \<Rightarrow> Message" where
  "askView k vid = \<lparr>MsgType = ''ViewChangeREQ'', MsgContent = NewByteContent [UintToBytes vid], RemoteInfo = k\<rparr>"

lemma askView_fields: "slot (ParseContent (MsgContent (askView k vid))) 0 = Some (UintToBytes vid)" "RemoteInfo (askView k vid) = k"
  by (simp_all add: askView_def ParseContent_New slot_def)

lemma viewDomain_facts:
  "NodeMap (viewDomain m) = m" "viewId (viewDomain m) = 0" "mainNode (viewDomain m) = Some ''a''" "randNum (viewDomain m) = 0"
  "Threshold viewMap = 3"
  by (simp_all add: viewDomain_def demoIdc_def Threshold_def RunningNodeAmount_def viewMap_def demoNode_def IsRunning_def quorumOf_def)

lemma viewDomain_ok:
  "viewOk demoLib (viewOf (viewDomain viewMap))" "viewOk demoLib (viewOf (viewDomain (rev viewMap)))"
proof -
  have ok: "viewOk demoLib (viewOf (viewDomain m))"
    if "distinct (mkeys m)" "\<forall>x\<in>set m. fst x = encodePub demoLib (NodeId (snd x))" for m
    using keyed_ok[OF that] by (simp add: viewOk_def viewOf_def viewDomain_facts)
  have a: "distinct (mkeys viewMap)" by code_simp
  have b: "\<forall>x\<in>set viewMap. fst x = encodePub demoLib (NodeId (snd x))" by code_simp
  show "viewOk demoLib (viewOf (viewDomain viewMap))" by (rule ok[OF a b])
  show "viewOk demoLib (viewOf (viewDomain (rev viewMap)))" by (rule ok) (use a b in \<open>simp_all add: rev_map[symmetric]\<close>)
qed

theorem view_change_certified_witness:
  "\<exists>vc. foldM (vcStep demoLib ''b'') [VReq (askView ''b'' 1), VReq (askView ''c'' 2), VReq (askView ''d'' 1)] (ViewReset, viewDomain viewMap) =
     Some (vc, viewDomain viewMap)"
proof -
  let ?es = "[VReq (askView ''b'' 1), VReq (askView ''c'' 2), VReq (askView ''d'' 1)]"
  have "asksFor vid ?es \<subseteq> (if vid = 2 then {''c''} else {''b'', ''d''})" for vid
    by (auto simp: asksFor_def askView_fields)
  then have two: "card S \<le> 2" if "S \<subseteq> asksFor vid ?es" for vid S
  proof -
    have "S \<subseteq> (if vid = 2 then {''c''} else {''b'', ''d''})" using that \<open>asksFor vid ?es \<subseteq> _\<close> by (rule order_trans)
    then have "card S \<le> card (if vid = 2 then {''c''} else {''b'', ''d''})" by (intro card_mono) simp_all
    also have "\<dots> \<le> 2" by simp
    finally show ?thesis .
  qed
  have thr: "sint (Threshold viewMap) = 3" by (simp add: viewDomain_facts)
  have no: "\<not> certifiedChange ?es (viewDomain viewMap)"
  proof
    assume "certifiedChange ?es (viewDomain viewMap)"
    then obtain vid S where S: "S \<subseteq> asksFor vid ?es" "sint (Threshold (NodeMap (viewDomain viewMap))) \<le> int (card S)"
      unfolding certifiedChange_def by (elim exE conjE) (rule that)
    from two[OF S(1)] S(2)[unfolded viewDomain_facts(1) thr] show False by linarith
  qed
  have "foldM (vcStep demoLib ''b'') ?es (ViewReset, viewDomain viewMap) \<noteq> None" by code_simp
  then obtain vc idc' where "foldM (vcStep demoLib ''b'') ?es (ViewReset, viewDomain viewMap) = Some (vc, idc')" by auto
  with view_change_certified[OF this no] show ?thesis by auto
qed

lemma view_demo_collects:
  "\<exists>vc idc. foldM (vcStep demoLib ''b'') [VReq (askView ''b'' 1), VReq (askView ''c'' 1), VReq (askView ''d'' 1)] (ViewReset, viewDomain viewMap) =
     Some (vc, idc) \<and> vcMode vc = collecting \<and> mainNode idc = Some ''d'' \<and> mget (NodeMap idc) ''d'' \<noteq> None"
proof -
  have "(case foldM (vcStep demoLib ''b'') [VReq (askView ''b'' 1), VReq (askView ''c'' 1), VReq (askView ''d'' 1)] (ViewReset, viewDomain viewMap) of
     Some (vc, idc) \<Rightarrow> vcMode vc = collecting \<and> mainNode idc = Some ''d'' \<and> mget (NodeMap idc) ''d'' \<noteq> None | None \<Rightarrow> False)" by code_simp
  then show ?thesis by (auto split: option.splits)
qed

theorem view_change_stuck_witness:
  "\<exists>vc idc vc' idc'. foldM (vcStep demoLib ''b'') [VReq (askView ''b'' 1), VReq (askView ''c'' 1), VReq (askView ''d'' 1)]
       (ViewReset, viewDomain viewMap) = Some (vc, idc) \<and>
     foldM (vcStep demoLib ''b'') [VReq (askView ''a'' 9), VReq (askView ''b'' 9), VReq (askView ''c'' 9)] (vc, idc) = Some (vc', idc') \<and>
     mainNode idc' = Some ''d'' \<and> vcStep demoLib ''b'' (VRes (askView ''d'' 0)) (vc', idc') = Some (vc', idc'\<lparr>viewId := 0\<rparr>)"
proof -
  obtain vc idc where h: "foldM (vcStep demoLib ''b'') [VReq (askView ''b'' 1), VReq (askView ''c'' 1), VReq (askView ''d'' 1)]
      (ViewReset, viewDomain viewMap) = Some (vc, idc)"
    "vcMode vc = collecting" "mainNode idc = Some ''d''" "mget (NodeMap idc) ''d'' \<noteq> None" using view_demo_collects by blast
  have some: "vcStep demoLib ''b'' (VReq (askView k 9)) (vc, idc) \<noteq> None" if "vcMode vc = collecting" for k vc and idc :: "((bytes \<times> bytes) \<times> bytes) list IdChain"
    using that by (auto simp add: ViewHandleRequest_def askView_fields recordVote_def Let_def)
  have mode: "vcMode vc' = collecting" if "vcStep demoLib ''b'' e (vc, idc) = Some (vc', idc')" "vcMode vc = collecting" for e vc vc' and idc idc' :: "((bytes \<times> bytes) \<times> bytes) list IdChain"
    using that by (cases e) (auto simp: ViewHandleRequest_def ViewHandleResponse_def bind_eq_Some_conv Let_def recordVote_def split: if_splits)
  have "\<exists>s. foldM (vcStep demoLib ''b'') (map (\<lambda>k. VReq (askView k 9)) ks) (vc, idc) = Some s" for ks
    using h(2)
  proof (induction ks arbitrary: vc idc)
    case (Cons k ks)
    obtain vc1 idc1 where e: "vcStep demoLib ''b'' (VReq (askView k 9)) (vc, idc) = Some (vc1, idc1)"
      using some[OF Cons.prems, of k idc] by auto
    show ?case using Cons.IH[OF mode[OF e Cons.prems], of idc1] e by (simp del: vcStep.simps)
  qed simp
  from this[of "[''a'', ''b'', ''c'']"] obtain vc' idc' where
    r: "foldM (vcStep demoLib ''b'') [VReq (askView ''a'' 9), VReq (askView ''b'' 9), VReq (askView ''c'' 9)] (vc, idc) = Some (vc', idc')" by auto
  from view_change_stuck[OF h(2) r] h r show ?thesis by (auto simp: askView_def)
qed

theorem view_change_agrees_witness:
  "\<exists>out vc idc out2 vc2 idc2. replaceMain demoLib ''b'' 1 ViewReset (viewDomain viewMap) = Some (out, vc, idc) \<and>
     replaceMain demoLib ''d'' 4 ViewReset (viewDomain (rev viewMap)) = Some (out2, vc2, idc2) \<and> mainNode idc2 = mainNode idc"
proof -
  have "replaceMain demoLib ''b'' 1 ViewReset (viewDomain viewMap) \<noteq> None" by code_simp
  moreover have "replaceMain demoLib ''d'' 4 ViewReset (viewDomain (rev viewMap)) \<noteq> None" by code_simp
  ultimately obtain out vc idc out2 vc2 idc2 where r: "replaceMain demoLib ''b'' 1 ViewReset (viewDomain viewMap) = Some (out, vc, idc)"
    "replaceMain demoLib ''d'' 4 ViewReset (viewDomain (rev viewMap)) = Some (out2, vc2, idc2)" by auto
  have "inj_on keyN (NodeId ` snd ` set (NodeMap (viewDomain viewMap)))" by (simp add: viewDomain_facts viewMap_def demoNode_def)
  moreover have "sameNodes (NodeMap (viewDomain viewMap)) (NodeMap (viewDomain (rev viewMap)))"
    by (simp add: viewDomain_facts sameNodes_def)
  ultimately show ?thesis using view_change_agrees[OF r viewDomain_ok] r by (simp add: viewDomain_facts)
qed

end
