(* ===== verification/CrossLock.thy ===== *)
theory CrossLock
  imports IdChain Proposals
begin

text \<open>
  The lock that a b-shard of Pyramid takes on its i-shards before a cross block, \<^verbatim>\<open>src/Comm/PyramidComm/CrossLock.go\<close>.
  The running sequence is, in the words of the source: b-request, i-handleReq, i-request, b-handleRequest, b-response,
  i-handleResponse, i-response, b-handleResponse.

  \<open>Request\<close> of a b-shard waits twice on a condition variable.  It is cut at these points, and \<open>lkPc\<close> says where it is:
  \<open>Sent\<close> and \<open>SentOk\<close> before it waits, \<open>WaitAcks\<close> and \<open>WaitTops\<close> while it waits, \<open>GotAcks\<close> and \<open>GotTops\<close> when it has been
  woken.  A signal to a goroutine that does not wait yet is lost, as it is with \<open>sync.Cond\<close>.  A node pointer is the key of
  the node, \<open>None\<close> for \<open>nil\<close>.
\<close>

datatype lockPc = NoRequest | Sent | WaitAcks | GotAcks | SentOk | WaitTops | GotTops

record CrossLock =
  lkAcks :: "(nat, bool) gomap"
  BMainNode :: "bytes option"
  activating :: bool
  success :: bool
  sleepT :: int
  innerBlocked :: bool                    \<comment> \<open>the package variable\<close>
  lkThreshold :: int                      \<comment> \<open>the threshold of the proposal buffer\<close>
  lkPc :: lockPc
  delayedResponses :: nat                 \<comment> \<open>the calls of \<open>AppendDelayedCom(CrossLock, false)\<close> that wait\<close>
  lkTop :: "(nat, hash) gomap"            \<comment> \<open>\<open>TopBlockHash\<close> of the local chain\<close>
  lkConfirm :: "(nat, bool) gomap"        \<comment> \<open>\<open>TopHashToBeConfirmed\<close> of the local chain\<close>

datatype lockOut = ToRelateI bytes bytes | ToNode bytes bytes bytes   \<comment> \<open>type and content; to the address of the node\<close>

definition LockReset :: "CrossLock \<Rightarrow> CrossLock" where
  "LockReset st = st\<lparr>activating := False, lkAcks := [], sleepT := SleepMin\<rparr>"

definition BlockInner :: "CrossLock \<Rightarrow> CrossLock" where
  "BlockInner st = st\<lparr>lkThreshold := CrossPriority, innerBlocked := True\<rparr>"

definition UnblockInner :: "CrossLock \<Rightarrow> CrossLock" where
  "UnblockInner st = st\<lparr>lkThreshold := LowestPriority, innerBlocked := False\<rparr>"

definition LockREQ :: bytes where "LockREQ = ''CrossLockREQ''"
definition LockRES :: bytes where "LockRES = ''CrossLockRES''"

definition awake :: "CrossLock \<Rightarrow> CrossLock" where
  "awake st = st\<lparr>lkPc := (case lkPc st of WaitAcks \<Rightarrow> GotAcks | WaitTops \<Rightarrow> GotTops | pc \<Rightarrow> pc)\<rparr>"

definition enterWait :: "CrossLock \<Rightarrow> CrossLock option" where
  "enterWait st = (case lkPc st of Sent \<Rightarrow> Some (st\<lparr>lkPc := WaitAcks\<rparr>) | SentOk \<Rightarrow> Some (st\<lparr>lkPc := WaitTops\<rparr>) | _ \<Rightarrow> None)"

subsection \<open>The b-shard\<close>

definition BRequest :: "CrossLock \<Rightarrow> lockOut list \<times> CrossLock" where
  "BRequest st =
     ([ToRelateI LockREQ (NewByteContent [])], st\<lparr>lkAcks := [], activating := True, success := True, lkPc := Sent\<rparr>)"

definition BResponse :: "bytes \<Rightarrow> lockOut list option" where
  "BResponse v = (if v = FailByte then Some [ToRelateI LockRES (NewByteContent [FailByte])]
     else if v = SuccessByte then Some [ToRelateI LockRES (NewByteContent [SuccessByte])] else None)"

datatype lockNext = Again | ScheduleCrossPrePre | Continue   \<comment> \<open>what \<open>Request\<close> starts: itself, the operation, nothing yet\<close>

definition resumeRequest :: "CrossLock \<Rightarrow> (lockNext \<times> lockOut list \<times> CrossLock) option" where
  \<comment> \<open>\<open>Request\<close> goes on after it was woken, to where it starts another goroutine; \<open>endRequest\<close> is the rest\<close>
  "resumeRequest st = (case lkPc st of
       GotAcks \<Rightarrow>
         if success st then do { out \<leftarrow> BResponse SuccessByte; Some (Continue, out, (BlockInner st)\<lparr>lkPc := SentOk\<rparr>) }
         else do { out \<leftarrow> BResponse FailByte;
                   Some (Again, out, st\<lparr>sleepT := min (sleepT st * 2) (SleepMin * 128), lkPc := NoRequest\<rparr>) }
     | GotTops \<Rightarrow> Some (ScheduleCrossPrePre, [], st\<lparr>lkPc := NoRequest\<rparr>)
     | _ \<Rightarrow> None)"

definition endRequest :: "CrossLock \<Rightarrow> CrossLock" where
  \<comment> \<open>the last statement of \<open>Request\<close>, which may come after the first of the call it has started with \<open>go\<close>\<close>
  "endRequest st = st\<lparr>activating := False\<rparr>"

definition BHandleRequest :: "nodeMap \<Rightarrow> nat list \<Rightarrow> Message \<Rightarrow> CrossLock \<Rightarrow> (bool \<times> lockOut list \<times> CrossLock) option" where
  "BHandleRequest nodes relI msg st =
     do { n \<leftarrow> mget nodes (RemoteInfo msg);
          if \<not> activating st then Some (False, [], st)
          else do { x \<leftarrow> slot (ParseContent (MsgContent msg)) 0;
                    let st1 = (if x = FailByte then st\<lparr>success := False\<rparr> else st);
                        st2 = st1\<lparr>lkAcks := mput (ShardID n) (success st1) (lkAcks st1)\<rparr>
                    in Some (True, [], if length (lkAcks st2) = length relI then awake (st2\<lparr>lkAcks := []\<rparr>) else st2) } }"

definition BHandleResponse :: "nodeMap \<Rightarrow> nat list \<Rightarrow> Message \<Rightarrow> CrossLock \<Rightarrow> CrossLock option" where
  "BHandleResponse nodes relI msg st =
     do { n \<leftarrow> mget nodes (RemoteInfo msg);
          x \<leftarrow> slot (ParseContent (MsgContent msg)) 0;
          let st1 = st\<lparr>lkTop := mput (ShardID n) x (lkTop st), lkConfirm := mput (ShardID n) True (lkConfirm st),
                       lkAcks := mput (ShardID n) True (lkAcks st)\<rparr>
          in Some (if length (lkAcks st1) = length relI then awake (st1\<lparr>lkAcks := []\<rparr>) else st1) }"

subsection \<open>The i-shard\<close>

definition IRequest :: "bytes \<Rightarrow> CrossLock \<Rightarrow> lockOut list option" where
  "IRequest v st = do { k \<leftarrow> BMainNode st; Some [ToNode k LockREQ (NewByteContent [v])] }"

definition IHandleRequest :: "nodeMap \<Rightarrow> Message \<Rightarrow> CrossLock \<Rightarrow> (bool \<times> lockOut list \<times> CrossLock) option" where
  "IHandleRequest nodes msg st =
     do { n \<leftarrow> mget nodes (RemoteInfo msg);
          if BMainNode st = None \<and> \<not> innerBlocked st
          then let st1 = BlockInner (st\<lparr>BMainNode := Some (RemoteInfo msg)\<rparr>)
               in do { out \<leftarrow> IRequest SuccessByte st1; Some (True, out, st1) }
          else Some (False, [ToNode (RemoteInfo msg) LockREQ (NewByteContent [FailByte])], st) }"

definition IResponse :: "nat \<Rightarrow> CrossLock \<Rightarrow> (lockOut list \<times> CrossLock) option" where
  \<comment> \<open>run by \<open>ClearComBuffer\<close> for a delayed call; \<open>own\<close> is the local shard\<close>
  "IResponse own st =
     do { k \<leftarrow> BMainNode st;
          Some ([ToNode k LockRES (NewByteContent [hashAt (lkTop st) own])], st\<lparr>BMainNode := None\<rparr>) }"

definition IHandleResponse :: "nodeMap \<Rightarrow> Message \<Rightarrow> CrossLock \<Rightarrow> CrossLock option" where
  "IHandleResponse nodes msg st =
     do { n \<leftarrow> mget nodes (RemoteInfo msg);
          if innerBlocked st \<and> BMainNode st \<noteq> Some (RemoteInfo msg) \<or> BMainNode st = None then Some st
          else do { x \<leftarrow> slot (ParseContent (MsgContent msg)) 0;
                    if x = SuccessByte then Some (st\<lparr>delayedResponses := delayedResponses st + 1\<rparr>)
                    else if x = FailByte then Some ((UnblockInner st)\<lparr>BMainNode := None\<rparr>)
                    else None } }"

subsection \<open>The handlers\<close>

definition LockHandleRequest ::
  "nodeMap \<Rightarrow> nat list \<Rightarrow> Message \<Rightarrow> CrossLock \<Rightarrow> (bool \<times> lockOut list \<times> CrossLock) option" where
  "LockHandleRequest nodes relI msg st =
     (if relI \<noteq> [] then BHandleRequest nodes relI msg st else IHandleRequest nodes msg st)"

definition LockHandleResponse :: "nodeMap \<Rightarrow> bytes \<Rightarrow> nat list \<Rightarrow> Message \<Rightarrow> CrossLock \<Rightarrow> CrossLock option" where
  \<comment> \<open>\<open>self\<close> is the running node, whose own call ends the lock\<close>
  "LockHandleResponse nodes self relI msg st =
     (if RemoteInfo msg = self
      then do { x \<leftarrow> slot (ParseContent (MsgContent msg)) 0;
                if x \<noteq> FailByte then None else Some ((UnblockInner st)\<lparr>BMainNode := None\<rparr>) }
      else if relI \<noteq> [] then BHandleResponse nodes relI msg st else IHandleResponse nodes msg st)"

definition endLock :: "nodeMap \<Rightarrow> bytes \<Rightarrow> nat list \<Rightarrow> CrossLock \<Rightarrow> CrossLock option" where
  \<comment> \<open>the call at the end of \<open>CrossCommitOpt.Execute\<close> and \<open>AppendCBlockOpt.Execute\<close>\<close>
  "endLock nodes self relI = LockHandleResponse nodes self relI \<lparr>MsgType = '''', MsgContent = NewByteContent [FailByte], RemoteInfo = self\<rparr>"

subsection \<open>The network of the main nodes\<close>

text \<open>
  The main nodes of the shards and the lock messages between them.  \<^verbatim>\<open>launch/msgReceive.go\<close> starts a goroutine for each message that has
  come over a connection, so that messages of one node to another can be handled in any order: \<open>EDeliver s d k\<close> is the handling of any
  message that is on the way.  \<open>inOrder\<close> says that an event takes the first one.

  What lies between the lock and its end is cut into two kinds of events.  When its i-shards are locked, the b-shard runs its cross block
  to the commit (\<open>ECommit\<close>, \<open>CrossCommitOpt.Execute\<close>), which ends its own lock and sends the replies.  From then on \<open>replied\<close> holds for the
  b-shard and each of its i-shards, until \<open>AppendCBlockOpt.Execute\<close> runs at the i-shard (\<open>EAppend\<close>): at any later time, after Threshold
  replies and a round of consensus, which are not modelled here.

  \<open>EResume\<close> takes \<open>Request\<close> from a wait to the point where it has started a goroutine; what is left of it (\<open>EEnd\<close>) may come at any later
  time, also after the start of the next \<open>Request\<close>.  \<open>ending\<close> counts the calls that are at this point.  \<open>EFlush\<close> is the next \<open>Propose\<close>
  of an i-shard, which clears the delayed calls.
\<close>

definition CrossReplyREQ :: bytes where "CrossReplyREQ = ''CrossReplyREQ''"

record LockWorld =
  lkOf :: "nat \<Rightarrow> CrossLock"
  net :: "nat \<Rightarrow> nat \<Rightarrow> Message list"    \<comment> \<open>from, to\<close>
  todo :: "nat \<Rightarrow> bool"                  \<comment> \<open>a call of \<open>Request\<close> has been started\<close>
  running :: "nat \<Rightarrow> bool"               \<comment> \<open>\<open>CrossPrePre\<close> has been scheduled and \<open>CrossCommit\<close> not yet executed\<close>
  replied :: "nat \<Rightarrow> nat \<Rightarrow> bool"        \<comment> \<open>\<open>CrossCommit\<close> has been executed and \<open>AppendCBlock\<close> not yet\<close>
  ending :: "nat \<Rightarrow> nat"

record LockNet =
  relI :: "nat \<Rightarrow> nat list"
  mainKey :: "nat \<Rightarrow> bytes"
  lockNodes :: nodeMap

datatype lockEvent = EStart nat | EWait nat | EResume nat | EEnd nat | EDeliver nat nat nat | ECommit nat | EAppend nat nat | EFlush nat

definition sendTo :: "bytes \<Rightarrow> nat \<Rightarrow> bytes \<Rightarrow> bytes \<Rightarrow> nat \<Rightarrow> (nat \<Rightarrow> nat \<Rightarrow> Message list) \<Rightarrow> nat \<Rightarrow> nat \<Rightarrow> Message list" where
  "sendTo key s t c d nt = nt(s := (nt s)(d := nt s d @ [\<lparr>MsgType = t, MsgContent = c, RemoteInfo = key\<rparr>]))"

fun transmit :: "LockNet \<Rightarrow> nat \<Rightarrow> lockOut \<Rightarrow> (nat \<Rightarrow> nat \<Rightarrow> Message list) \<Rightarrow> (nat \<Rightarrow> nat \<Rightarrow> Message list) option" where
  "transmit N s (ToRelateI t c) nt = Some (fold (sendTo (mainKey N s) s t c) (relI N s) nt)"
| "transmit N s (ToNode k t c) nt = do { n \<leftarrow> mget (lockNodes N) k; Some (sendTo (mainKey N s) s t c (ShardID n) nt) }"

definition setLock :: "nat \<Rightarrow> CrossLock \<Rightarrow> LockWorld \<Rightarrow> LockWorld" where
  "setLock s st w = w\<lparr>lkOf := (lkOf w)(s := st)\<rparr>"

definition emitAll :: "LockNet \<Rightarrow> nat \<Rightarrow> lockOut list \<Rightarrow> LockWorld \<Rightarrow> LockWorld option" where
  "emitAll N s outs w = do { nt \<leftarrow> foldM (transmit N s) outs (net w); Some (w\<lparr>net := nt\<rparr>) }"

definition receive :: "LockNet \<Rightarrow> nat \<Rightarrow> Message \<Rightarrow> LockWorld \<Rightarrow> LockWorld option" where
  \<comment> \<open>the dispatch of a message at the main node of a shard\<close>
  "receive N d m w =
     (let st = lkOf w d; self = mainKey N d
      in if MsgType m = LockREQ
         then do { (ok, out, st') \<leftarrow> LockHandleRequest (lockNodes N) (relI N d) m st; emitAll N d out (setLock d st' w) }
         else if MsgType m = LockRES
         then do { st' \<leftarrow> LockHandleResponse (lockNodes N) self (relI N d) m st; Some (setLock d st' w) }
         else None)"

fun lockStep :: "LockNet \<Rightarrow> lockEvent \<Rightarrow> LockWorld \<Rightarrow> LockWorld option" where
  \<comment> \<open>\<open>None\<close> when the event cannot happen, or panics\<close>
  "lockStep N (EStart b) w =
     (if relI N b \<noteq> [] \<and> todo w b \<and> lkPc (lkOf w b) = NoRequest
      then let (out, st) = BRequest (lkOf w b) in emitAll N b out (setLock b st (w\<lparr>todo := (todo w)(b := False)\<rparr>))
      else None)"
| "lockStep N (EWait b) w = map_option (\<lambda>st. setLock b st w) (enterWait (lkOf w b))"
| "lockStep N (EResume b) w =
     do { (next, out, st) \<leftarrow> resumeRequest (lkOf w b);
          w1 \<leftarrow> emitAll N b out (setLock b st w);
          Some (case next of Again \<Rightarrow> w1\<lparr>todo := (todo w1)(b := True), ending := (ending w1)(b := ending w1 b + 1)\<rparr>
                | ScheduleCrossPrePre \<Rightarrow> w1\<lparr>running := (running w1)(b := True), ending := (ending w1)(b := ending w1 b + 1)\<rparr>
                | Continue \<Rightarrow> w1) }"
| "lockStep N (EEnd b) w =
     (if ending w b = 0 then None
      else Some ((setLock b (endRequest (lkOf w b)) w)\<lparr>ending := (ending w)(b := ending w b - 1)\<rparr>))"
| "lockStep N (EDeliver s d k) w =
     (let q = net w s d
      in if k < length q then receive N d (q ! k) (w\<lparr>net := (net w)(s := (net w s)(d := take k q @ drop (Suc k) q))\<rparr>) else None)"
| "lockStep N (ECommit b) w =
     (if running w b
      then do { st \<leftarrow> endLock (lockNodes N) (mainKey N b) (relI N b) (lkOf w b);
                Some ((setLock b st w)\<lparr>running := (running w)(b := False), todo := (todo w)(b := True),
                  replied := (replied w)(b := (\<lambda>i. i \<in> set (relI N b) \<or> replied w b i))\<rparr>) }
      else None)"
| "lockStep N (EAppend b i) w =
     (if replied w b i
      then do { st \<leftarrow> endLock (lockNodes N) (mainKey N i) (relI N i) (lkOf w i);
                Some ((setLock i st w)\<lparr>replied := (replied w)(b := (replied w b)(i := False))\<rparr>) }
      else None)"
| "lockStep N (EFlush i) w =
     (let st = lkOf w i
      in if delayedResponses st = 0 then None
         else do { (out, st') \<leftarrow> IResponse i st;
                   emitAll N i out (setLock i (st'\<lparr>delayedResponses := delayedResponses st - 1\<rparr>) w) })"

definition lockIdle :: CrossLock where
  "lockIdle = \<lparr>lkAcks = [], BMainNode = None, activating = False, success = False, sleepT = SleepMin, innerBlocked = False,
     lkThreshold = LowestPriority, lkPc = NoRequest, delayedResponses = 0, lkTop = [], lkConfirm = []\<rparr>"

definition lockStart :: "LockNet \<Rightarrow> LockWorld" where
  "lockStart N = \<lparr>lkOf = (\<lambda>_. lockIdle), net = (\<lambda>_ _. []), todo = (\<lambda>b. relI N b \<noteq> []), running = (\<lambda>_. False),
     replied = (\<lambda>_ _. False), ending = (\<lambda>_. 0)\<rparr>"


subsection \<open>The invariant\<close>

definition lockNetOk :: "LockNet \<Rightarrow> bool" where
  \<comment> \<open>an i-shard of a b-shard is no b-shard, and the shards have main nodes\<close>
  "lockNetOk N \<longleftrightarrow> (\<forall>b i. i \<in> set (relI N b) \<longrightarrow> relI N i = [] \<and>
      (\<exists>n. mget (lockNodes N) (mainKey N b) = Some n \<and> ShardID n = b) \<and>
      (\<exists>n. mget (lockNodes N) (mainKey N i) = Some n \<and> ShardID n = i)) \<and> (\<forall>b. distinct (relI N b))"

abbreviation "reqM k \<equiv> \<lparr>MsgType = LockREQ, MsgContent = NewByteContent [], RemoteInfo = k\<rparr>"
abbreviation "okM k \<equiv> \<lparr>MsgType = LockRES, MsgContent = NewByteContent [SuccessByte], RemoteInfo = k\<rparr>"
abbreviation "failM k \<equiv> \<lparr>MsgType = LockRES, MsgContent = NewByteContent [FailByte], RemoteInfo = k\<rparr>"
abbreviation "yesM k \<equiv> \<lparr>MsgType = LockREQ, MsgContent = NewByteContent [SuccessByte], RemoteInfo = k\<rparr>"
abbreviation "noM k \<equiv> \<lparr>MsgType = LockREQ, MsgContent = NewByteContent [FailByte], RemoteInfo = k\<rparr>"
abbreviation "topM k h \<equiv> \<lparr>MsgType = LockRES, MsgContent = NewByteContent [h], RemoteInfo = k\<rparr>"

















lemma lockNetOkD:
  assumes "lockNetOk N" "i \<in> set (relI N b)"
  shows "relI N i = []" "relI N b \<noteq> []" "b \<noteq> i" "map_option ShardID (mget (lockNodes N) (mainKey N b)) = Some b"
    "map_option ShardID (mget (lockNodes N) (mainKey N i)) = Some i" "mainKey N b \<noteq> mainKey N i"
proof -
  have "relI N i = [] \<and> (\<exists>n. mget (lockNodes N) (mainKey N b) = Some n \<and> ShardID n = b) \<and>
      (\<exists>n. mget (lockNodes N) (mainKey N i) = Some n \<and> ShardID n = i)"
    using assms(1)[unfolded lockNetOk_def, THEN conjunct1, rule_format, OF assms(2)] .
  then obtain n m where h: "relI N i = []" "mget (lockNodes N) (mainKey N b) = Some n" "ShardID n = b"
    "mget (lockNodes N) (mainKey N i) = Some m" "ShardID m = i"
    by blast
  show "relI N i = []" by (rule h(1))
  show "relI N b \<noteq> []" using assms(2) by auto
  then show ne: "b \<noteq> i" using h(1) by auto
  show "map_option ShardID (mget (lockNodes N) (mainKey N b)) = Some b"
    "map_option ShardID (mget (lockNodes N) (mainKey N i)) = Some i" using h(2-5) by simp_all
  show "mainKey N b \<noteq> mainKey N i"
  proof
    assume "mainKey N b = mainKey N i"
    then have "n = m" using h(2,4) by simp
    then show False using h(3,5) ne by blast
  qed
qed



lemma bytes_differ: "SuccessByte \<noteq> FailByte" "LockREQ \<noteq> LockRES"
  by (simp_all add: SuccessByte_def FailByte_def LockREQ_def LockRES_def)

lemmas bytes_differ_sym = bytes_differ[symmetric]

definition broadcast :: "LockNet \<Rightarrow> nat \<Rightarrow> Message \<Rightarrow> (nat \<Rightarrow> nat \<Rightarrow> Message list) \<Rightarrow> nat \<Rightarrow> nat \<Rightarrow> Message list" where
  "broadcast N b m nt = (\<lambda>x y. if x = b \<and> y \<in> set (relI N b) then nt x y @ [m] else nt x y)"

lemma broadcast_at [simp]:
  "broadcast N b m nt x y = (if x = b \<and> y \<in> set (relI N b) then nt x y @ [m] else nt x y)"
  by (simp add: broadcast_def)














lemma mget_mainKey:
  assumes "lockNetOk N" "i \<in> set (relI N b)"
  obtains n m where "mget (lockNodes N) (mainKey N b) = Some n" "ShardID n = b" "mget (lockNodes N) (mainKey N i) = Some m" "ShardID m = i"
  using lockNetOkD(4,5)[OF assms] by auto

















definition holdsLock :: "LockWorld \<Rightarrow> nat \<Rightarrow> bool" where
  \<comment> \<open>a b-shard has been told by all its i-shards that they are linked, and has not yet committed\<close>
  "holdsLock w b \<longleftrightarrow> running w b \<or> lkPc (lkOf w b) \<in> {SentOk, WaitTops, GotTops}"




subsection \<open>A lost signal\<close>

definition stalled :: "LockWorld \<Rightarrow> bool" where
  \<comment> \<open>no message is on the way and no node has anything to do but to wait\<close>
  "stalled w \<longleftrightarrow> (\<forall>s d. net w s d = []) \<and> (\<forall>s d. \<not> replied w s d) \<and> (\<forall>s. \<not> todo w s \<and> \<not> running w s \<and> delayedResponses (lkOf w s) = 0 \<and>
     lkPc (lkOf w s) \<notin> {GotAcks, GotTops})"

lemma stalled_step:
  assumes "stalled w" "lockStep N e w = Some w'"
  shows "stalled w' \<and> (\<forall>s. innerBlocked (lkOf w' s) = innerBlocked (lkOf w s) \<and> running w' s = running w s \<and>
    (lkPc (lkOf w s) \<in> {Sent, WaitAcks} \<longrightarrow> lkPc (lkOf w' s) \<in> {Sent, WaitAcks}))"
  using assms
  by (cases e) (auto simp: stalled_def setLock_def enterWait_def resumeRequest_def endRequest_def Let_def bind_eq_Some_conv split: if_splits lockPc.splits)

lemma stalled_run:
  "foldM (lockStep N) es w = Some w' \<Longrightarrow> stalled w \<Longrightarrow> stalled w' \<and> (\<forall>s. innerBlocked (lkOf w' s) = innerBlocked (lkOf w s) \<and>
    (lkPc (lkOf w s) \<in> {Sent, WaitAcks} \<longrightarrow> lkPc (lkOf w' s) \<in> {Sent, WaitAcks}))"
proof (induction es arbitrary: w)
  case (Cons e es)
  obtain w1 where h: "lockStep N e w = Some w1" "foldM (lockStep N) es w1 = Some w'"
    using Cons.prems(1) by (auto simp: bind_eq_Some_conv)
  from stalled_step[OF Cons.prems(2) h(1)] Cons.IH[OF h(2)] show ?case by blast
qed simp

text \<open>C17: A signal can be lost: when the answer of the i-shard arrives before \<open>Request\<close> of the b-shard has come to its wait, the b-shard
  waits for ever, and the i-shard stays blocked for ever, whatever happens afterwards.\<close>
theorem cross_lock_lost_wakeup:
  assumes "lockNetOk N" "relI N b = [i]" "\<forall>c. c \<noteq> b \<longrightarrow> relI N c = []"
  shows "\<exists>w. foldM (lockStep N) [EStart b, EDeliver b i 0, EDeliver i b 0] (lockStart N) = Some w \<and>
    (\<forall>es w'. foldM (lockStep N) es w = Some w' \<longrightarrow>
      \<not> holdsLock w' b \<and> lkPc (lkOf w' b) \<in> {Sent, WaitAcks} \<and> innerBlocked (lkOf w' i))"
proof -
  have r: "i \<in> set (relI N b)" by (simp add: assms(2))
  note K = lockNetOkD[OF assms(1) r]
  obtain nb ni where n: "mget (lockNodes N) (mainKey N b) = Some nb" "ShardID nb = b" "mget (lockNodes N) (mainKey N i) = Some ni" "ShardID ni = i"
    using mget_mainKey[OF assms(1) r] by blast
  note bd = bytes_differ bytes_differ_sym
  obtain w where w: "foldM (lockStep N) [EStart b, EDeliver b i 0, EDeliver i b 0] (lockStart N) = Some w"
    "stalled w" "lkPc (lkOf w b) = Sent" "innerBlocked (lkOf w i)"
    using n K assms(2,3)
    by (auto simp: lockStart_def lockIdle_def BRequest_def emitAll_def setLock_def sendTo_def receive_def LockHandleRequest_def bd
      IHandleRequest_def IRequest_def BlockInner_def BHandleRequest_def awake_def ParseContent_New slot_def Let_def stalled_def)
  show ?thesis
  proof (intro exI[of _ w] conjI allI impI)
    fix es w' assume "foldM (lockStep N) es w = Some w'"
    from stalled_run[OF this w(2)] w(3,4) show "lkPc (lkOf w' b) \<in> {Sent, WaitAcks}" "innerBlocked (lkOf w' i)" "\<not> holdsLock w' b"
      by (auto simp: holdsLock_def stalled_def)
  qed (rule w(1))
qed

subsection \<open>Two b-shards and an i-shard\<close>

definition lockDemo :: LockNet where
  "lockDemo = \<lparr>relI = (\<lambda>b. if b < 2 then [2] else []),
     mainKey = (\<lambda>s. if s = 0 then ''a'' else if s = 1 then ''b'' else ''c''),
     lockNodes = [(''a'', demoNode 1), (''b'', (demoNode 2)\<lparr>ShardID := 1\<rparr>), (''c'', (demoNode 3)\<lparr>ShardID := 2\<rparr>)]\<rparr>"

definition lockDemo1 :: LockNet where
  "lockDemo1 = lockDemo\<lparr>relI := (\<lambda>b. if b = 0 then [2] else [])\<rparr>"

lemma lockDemo_ok: "lockNetOk lockDemo" "lockNetOk lockDemo1"
  by (auto simp: lockNetOk_def lockDemo_def lockDemo1_def demoNode_def)

abbreviation "lockDemoRun \<equiv> [EStart 0, EStart 1, EDeliver 0 2 0, EDeliver 1 2 0, EWait 0, EDeliver 2 0 0, EResume 0, EDeliver 0 2 0]"

lemma case_Some: "(case x of Some w \<Rightarrow> P w | None \<Rightarrow> False) \<Longrightarrow> \<exists>w. x = Some w \<and> P w"
  by (cases x) auto




theorem cross_lock_lost_wakeup_witness:
  "\<exists>w. foldM (lockStep lockDemo1) [EStart 0, EDeliver 0 2 0, EDeliver 2 0 0] (lockStart lockDemo1) = Some w \<and>
     \<not> holdsLock w 0 \<and> innerBlocked (lkOf w 2)"
proof -
  have "relI lockDemo1 0 = [2]" "\<forall>c. c \<noteq> 0 \<longrightarrow> relI lockDemo1 c = []" by (simp_all add: lockDemo1_def)
  from cross_lock_lost_wakeup[OF lockDemo_ok(2) this] obtain w where
    w: "foldM (lockStep lockDemo1) [EStart 0, EDeliver 0 2 0, EDeliver 2 0 0] (lockStart lockDemo1) = Some w"
    "\<And>es w'. foldM (lockStep lockDemo1) es w = Some w' \<Longrightarrow> \<not> holdsLock w' 0 \<and> lkPc (lkOf w' 0) \<in> {Sent, WaitAcks} \<and> innerBlocked (lkOf w' 2)"
    by blast
  from w(2)[of "[]" w] w(1) show ?thesis by simp
qed

text \<open>
  When messages are handled out of order, both properties fail.  b-shard 0 is refused, tells the i-shard so (\<open>FailByte\<close>) and asks again.  When
  the new question overtakes the \<open>FailByte\<close>, the i-shard is linked to b-shard 0 and then let go by the \<open>FailByte\<close>.
\<close>
abbreviation "refusedRun \<equiv>
  [EStart 1, EDeliver 1 2 0, EStart 0, EDeliver 0 2 0, EWait 0, EDeliver 2 0 0, EResume 0, EEnd 0, EStart 0,
   EWait 1, EDeliver 2 1 0, EResume 1, EDeliver 1 2 0, EFlush 2, EWait 1, EDeliver 2 1 0, EResume 1, EEnd 1, ECommit 1, EAppend 1 2,
   EDeliver 0 2 1, EWait 0, EDeliver 2 0 0, EResume 0]"

theorem reordered_two_holders:
  "\<exists>w. foldM (lockStep lockDemo) (refusedRun @ [EDeliver 0 2 0, EStart 1, EDeliver 1 2 0, EWait 1, EDeliver 2 1 0, EResume 1])
      (lockStart lockDemo) = Some w \<and> holdsLock w 0 \<and> holdsLock w 1"
proof -
  have "(case foldM (lockStep lockDemo) (refusedRun @ [EDeliver 0 2 0, EStart 1, EDeliver 1 2 0, EWait 1, EDeliver 2 1 0, EResume 1])
      (lockStart lockDemo) of Some w \<Rightarrow> holdsLock w 0 \<and> holdsLock w 1 | None \<Rightarrow> False)" by code_simp
  then show ?thesis by (rule case_Some)
qed

theorem reordered_panics:
  "\<exists>w. foldM (lockStep lockDemo) (refusedRun @ [EDeliver 0 2 1, EDeliver 0 2 0]) (lockStart lockDemo) = Some w \<and>
      delayedResponses (lkOf w 2) = 1 \<and> IResponse 2 (lkOf w 2) = None"
proof -
  have "(case foldM (lockStep lockDemo) (refusedRun @ [EDeliver 0 2 1, EDeliver 0 2 0]) (lockStart lockDemo) of
      Some w \<Rightarrow> delayedResponses (lkOf w 2) = 1 \<and> IResponse 2 (lkOf w 2) = None | None \<Rightarrow> False)" by code_simp
  then show ?thesis by (rule case_Some)
qed

end
