(* ===== verification/PyrOps.thy ===== *)
theory PyrOps
  imports Sync CrossLock
begin

text \<open>
  The operations of a Pyramid shard (\<^verbatim>\<open>src/Opts/Op_PyInternalTx.go\<close>, \<^verbatim>\<open>Op_PyCrossPrePre.go\<close>, \<^verbatim>\<open>Op_PyIShardPrepare.go\<close>,
  \<^verbatim>\<open>Op_PyCrossCommit.go\<close>, \<^verbatim>\<open>Op_PyAppendCrossBlock.go\<close>) and the two communications that lead a cross block from one shard to the
  others (\<^verbatim>\<open>src/Comm/PyramidComm/CrossPrepare.go\<close>, \<^verbatim>\<open>CrossReply.go\<close>).

  \<open>PyrNode\<close> is what these parts of a node share, \<open>PyrEnv\<close> what they read.  What a step sends and schedules is appended to \<open>pnOut\<close>.
  A handler that waits for a mutex that its own goroutine holds never returns; \<open>cpHung\<close> records that, and the calls that need
  the mutex afterwards do not happen.
\<close>

datatype pyrOut =
    ToAddr bytes bytes bytes        \<comment> \<open>address, type, content\<close>
  | ToIShards bytes bytes           \<comment> \<open>\<open>config.PyramidRelateI\<close>: type, content\<close>
  | Scheduled bytes "bytes list"    \<comment> \<open>\<open>Interfaces.Operations[t].Schedule\<close>\<close>
  | NextCrossTx                     \<comment> \<open>\<open>go pyramid.NxtCrossTx()\<close>\<close>

record 'd PyrNode =
  pnChain :: "'d PyrChain"
  pnBlock :: "StdBlock option"      \<comment> \<open>\<open>ProcessingBlock\<close> of the shard\<close>
  pnPrePre :: "StdBlock option"     \<comment> \<open>\<open>CrossPrePreOpt.tempBlock\<close>\<close>
  pnIPrep :: "StdBlock option"      \<comment> \<open>\<open>IShardPrepareOpt.tempBlock\<close>\<close>
  cpAcks :: "(nat, bool) gomap"
  bShardId :: int
  cpHung :: bool
  crReqCnt :: "(hash, 64 word) gomap"
  pnLock :: CrossLock
  pnOut :: "pyrOut list"

record 'd PyrEnv =
  peFuel :: nat
  peLib :: Lib
  peConf :: Conf
  peKV :: "'d KV"
  peTop :: hash
  peOwn :: nat
  peRelI :: "nat list"
  peRelB :: "nat list"
  peSelf :: bytes
  peSync :: SyncEnv

definition say :: "pyrOut list \<Rightarrow> 'd PyrNode \<Rightarrow> 'd PyrNode" where
  "say out n = n\<lparr>pnOut := pnOut n @ out\<rparr>"

definition IsPyrMain :: "'d PyrEnv \<Rightarrow> bool option" where
  "IsPyrMain E =
     do { n \<leftarrow> mget (syNodes (peSync E)) (peSelf E);
          d \<leftarrow> slot (syShards (peSync E)) (ShardID n);
          Some (IsMainOf (peSelf E) d) }"

definition pyrVerify :: "'d PyrEnv \<Rightarrow> StdBlock \<Rightarrow> bool option" where
  "pyrVerify E = Pyramid.VerifyBlock (peLib E) (peConf E) (peOwn E)"

definition pyrAppend :: "'d PyrEnv \<Rightarrow> StdBlock \<Rightarrow> 'd PyrNode \<Rightarrow> 'd PyrNode option" where
  \<comment> \<open>\<open>Shard.Append\<close>\<close>
  "pyrAppend E b n =
     map_option (\<lambda>c. n\<lparr>pnChain := c\<rparr>)
       (Pyramid.Append (peFuel E) (peLib E) (peConf E) (peKV E) (peTop E) (peOwn E) (peRelI E) b (peOwn E) (pnChain n))"

definition sendIBlock :: "'d PyrEnv \<Rightarrow> 'd PyrNode \<Rightarrow> 'd PyrNode option" where
  \<comment> \<open>\<open>SyncIBlock.Request\<close>\<close>
  "sendIBlock E n =
     do { b \<leftarrow> pnBlock n;
          m \<leftarrow> IsPyrMain E;
          ms \<leftarrow> SyncIRequest (peLib E) (peSync E) (peRelB E) m b;
          Some (say (map (\<lambda>(ip, c). ToAddr ip ''SyncIBlockREQ'' c) ms) n) }"

definition releaseLock :: "'d PyrEnv \<Rightarrow> 'd PyrNode \<Rightarrow> 'd PyrNode option" where
  "releaseLock E n =
     map_option (\<lambda>l. n\<lparr>pnLock := l\<rparr>) (endLock (syNodes (peSync E)) (peSelf E) (peRelI E) (pnLock n))"

subsection \<open>Inner transactions\<close>

definition InternalPrepare ::
  "'d PyrEnv \<Rightarrow> mapOrder \<Rightarrow> (nat \<Rightarrow> Pool) \<Rightarrow> 'd PyrNode \<Rightarrow> (bytes list option \<times> 'd PyrNode) option" where
  \<comment> \<open>the parameters, \<open>None\<close> when no block could be generated\<close>
  "InternalPrepare E ord pools n =
     do { r \<leftarrow> GenerateInternalBlock (peLib E) (peConf E) ord pools (peOwn E) (pnChain n);
          Some (case r of None \<Rightarrow> (None, say [Scheduled ''InternalTx'' []] n)
                | Some b \<Rightarrow> (Some [encStd (peLib E) b], n\<lparr>pnBlock := Some b\<rparr>)) }"

definition decodeVar :: "'d PyrEnv \<Rightarrow> bytes list \<Rightarrow> nat \<Rightarrow> StdBlock option" where
  "decodeVar E vars i = do { v \<leftarrow> slot vars i; StdDecode (peLib E) (Some v) }"

definition InternalVerify :: "'d PyrEnv \<Rightarrow> bytes list \<Rightarrow> 'd PyrNode \<Rightarrow> (bool \<times> 'd PyrNode) option" where
  "InternalVerify E vars n =
     do { b \<leftarrow> decodeVar E vars 0; ok \<leftarrow> pyrVerify E b; Some (ok, if ok then n\<lparr>pnBlock := Some b\<rparr> else n) }"

definition InternalExecute :: "'d PyrEnv \<Rightarrow> 'd PyrNode \<Rightarrow> 'd PyrNode option" where
  "InternalExecute E n =
     do { n1 \<leftarrow> sendIBlock E n;
          b \<leftarrow> pnBlock n1;
          n2 \<leftarrow> pyrAppend E b n1;
          m \<leftarrow> IsPyrMain E;
          Some ((if m then say [Scheduled ''InternalTx'' []] else (\<lambda>x. x)) (n2\<lparr>pnBlock := None\<rparr>)) }"

subsection \<open>The cross block at the b-shard\<close>

definition PrePrePrepare ::
  "'d PyrEnv \<Rightarrow> mapOrder \<Rightarrow> (nat \<Rightarrow> Pool) \<Rightarrow> 'd PyrNode \<Rightarrow> (bytes list \<times> 'd PyrNode) option" where
  "PrePrePrepare E ord pools n =
     do { b \<leftarrow> GenerateCrossBlock (peLib E) (peConf E) ord pools (peOwn E) (peRelI E) (pnChain n);
          Some ([encStd (peLib E) b], n\<lparr>pnPrePre := Some b\<rparr>) }"

definition PrePreVerify :: "'d PyrEnv \<Rightarrow> bytes list \<Rightarrow> 'd PyrNode \<Rightarrow> (bool \<times> 'd PyrNode) option" where
  "PrePreVerify E vars n =
     do { b \<leftarrow> decodeVar E vars 0; ok \<leftarrow> pyrVerify E b; Some (ok, if ok then n\<lparr>pnPrePre := Some b\<rparr> else n) }"

definition CrossPrepareRequest :: "'d PyrEnv \<Rightarrow> 'd PyrNode \<Rightarrow> 'd PyrNode option" where
  "CrossPrepareRequest E n =
     (if cpHung n then None
      else do { b \<leftarrow> pnBlock n;
                Some (say [ToIShards ''CrossPrepareREQ''
                  (AppendByteContent (NewByteContent [UintToBytes (of_nat (peOwn E))]) [encStd (peLib E) b])] n) })"

definition PrePreExecute :: "'d PyrEnv \<Rightarrow> 'd PyrNode \<Rightarrow> 'd PyrNode option" where
  \<comment> \<open>the log line reads the block\<close>
  "PrePreExecute E n =
     do { b \<leftarrow> pnPrePre n;
          let n1 = n\<lparr>pnBlock := Some b, pnPrePre := None\<rparr>
          in do { m \<leftarrow> IsPyrMain E;
                  if m then do { n2 \<leftarrow> CrossPrepareRequest E n1;
                                 Some (n2\<lparr>pnLock := (pnLock n2)\<lparr>lkThreshold := CrossCommitPriority\<rparr>\<rparr>) }
                  else Some n1 } }"

definition CrossPrepareHandleResponse :: "'d PyrEnv \<Rightarrow> bytes \<Rightarrow> 'd PyrNode \<Rightarrow> 'd PyrNode option" where
  "CrossPrepareHandleResponse E content n =
     (if cpHung n then None
      else let contents = ParseContent content
           in do { x \<leftarrow> slot contents 0;
                   remoteShardId \<leftarrow> BytesToUint x;
                   result \<leftarrow> slot contents 1;
                   let acks = mput (unat remoteShardId) (result = SuccessByte) (cpAcks n)
                   in Some (if length acks = length (peRelI E)
                            then say [Scheduled ''CrossCommit'' []] (n\<lparr>cpAcks := []\<rparr>) else n\<lparr>cpAcks := acks\<rparr>) })"

definition CrossCommitExecute :: "'d PyrEnv \<Rightarrow> 'd PyrNode \<Rightarrow> 'd PyrNode option" where
  \<comment> \<open>\<open>Verify\<close> and \<open>Prepare\<close> of \<open>CrossCommit\<close> accept everything\<close>
  "CrossCommitExecute E n =
     do { block \<leftarrow> pnBlock n;
          let n1 = say [ToIShards CrossReplyREQ (NewByteContent [StdHash (peLib E) block])] n
          in do { n2 \<leftarrow> pyrAppend E block n1;
                  m \<leftarrow> IsPyrMain E;
                  if m then map_option (say [NextCrossTx]) (releaseLock E n2) else Some n2 } }"

subsection \<open>The cross block at the i-shards\<close>

definition IPrepVerify :: "'d PyrEnv \<Rightarrow> bytes list \<Rightarrow> 'd PyrNode \<Rightarrow> (bool \<times> 'd PyrNode) option" where
  "IPrepVerify E vars n =
     do { b \<leftarrow> decodeVar E vars 0; ok \<leftarrow> pyrVerify E b; Some (ok, if ok then n\<lparr>pnIPrep := Some b\<rparr> else n) }"

definition IPrepSchedule :: "'d PyrEnv \<Rightarrow> bytes list \<Rightarrow> 'd PyrNode \<Rightarrow> 'd PyrNode option" where
  \<comment> \<open>the answer of \<open>Verify\<close> is not used\<close>
  "IPrepSchedule E vars n = do { (ok, n1) \<leftarrow> IPrepVerify E vars n; Some (say [Scheduled ''IShardPrepare'' vars] n1) }"

definition CrossPrepareResponse :: "'d PyrEnv \<Rightarrow> bytes \<Rightarrow> 'd PyrNode \<Rightarrow> 'd PyrNode option" where
  \<comment> \<open>\<open>pyramid.ShardAddr\<close> panics out of range and for a shard without main node\<close>
  "CrossPrepareResponse E v n =
     (if cpHung n then None
      else if bShardId n < 0 then None
      else do { d \<leftarrow> slot (syShards (peSync E)) (nat (bShardId n));
                k \<leftarrow> dMain d;
                m \<leftarrow> mget (syNodes (peSync E)) k;
                Some (say [ToAddr (IpAddr m) ''CrossPrepareRES''
                  (AppendByteContent (NewByteContent [UintToBytes (of_nat (peOwn E))]) [v])] n) })"

definition CrossPrepareHandleRequest :: "'d PyrEnv \<Rightarrow> bytes \<Rightarrow> 'd PyrNode \<Rightarrow> 'd PyrNode option" where
  \<comment> \<open>the refusal calls \<open>Response\<close>, which locks the mutex that the handler holds\<close>
  "CrossPrepareHandleRequest E content n =
     (if cpHung n then None
      else let contents = ParseContent content
           in do { x \<leftarrow> slot contents 0;
                   id \<leftarrow> BytesToUint x;
                   block \<leftarrow> decodeVar E contents 1;
                   v \<leftarrow> slot contents 1;
                   suc \<leftarrow> pyrVerify E block;
                   let n1 = n\<lparr>bShardId := sint id\<rparr>
                   in if suc then IPrepSchedule E [v] n1 else Some (n1\<lparr>cpHung := True\<rparr>) })"

definition IPrepExecute :: "'d PyrEnv \<Rightarrow> 'd PyrNode \<Rightarrow> 'd PyrNode option" where
  "IPrepExecute E n =
     do { b \<leftarrow> pnIPrep n;
          m \<leftarrow> IsPyrMain E;
          let n1 = n\<lparr>pnBlock := Some b, pnIPrep := None\<rparr>
          in if m then CrossPrepareResponse E SuccessByte n1 else Some n1 }"

definition CrossReplyHandleRequest :: "'d PyrEnv \<Rightarrow> Message \<Rightarrow> 'd PyrNode \<Rightarrow> (bool \<times> 'd PyrNode) option" where
  "CrossReplyHandleRequest E msg n =
     (if pnBlock n = None then Some (False, n)
      else let content = ParseContent (MsgContent msg)
           in if length content \<noteq> 1 then None
              else do { hash \<leftarrow> slot content 0;
                        remote \<leftarrow> mget (syNodes (peSync E)) (RemoteInfo msg);
                        d \<leftarrow> slot (syShards (peSync E)) (ShardID remote);
                        let cnt = getOr (crReqCnt n) hash 0 + 1; n1 = n\<lparr>crReqCnt := mput hash cnt (crReqCnt n)\<rparr>
                        in Some (True, if cnt = domainThreshold d then say [Scheduled ''AppendCBlock'' []] n1 else n1) })"

definition AppendCVerify :: "'d PyrNode \<Rightarrow> bool option" where
  "AppendCVerify n = (if pnBlock n = None then None else Some True)"

definition AppendCExecute :: "'d PyrEnv \<Rightarrow> 'd PyrNode \<Rightarrow> 'd PyrNode option" where
  "AppendCExecute E n =
     do { n1 \<leftarrow> sendIBlock E n;
          b \<leftarrow> pnBlock n1;
          n2 \<leftarrow> pyrAppend E b n1;
          m \<leftarrow> IsPyrMain E;
          let n3 = n2\<lparr>pnBlock := None\<rparr>
          in if m then releaseLock E n3 else Some n3 }"

subsection \<open>Every node of a cross round works on the same block\<close>

lemma say_simps [simp]:
  "pnBlock (say out n) = pnBlock n" "pnChain (say out n) = pnChain n" "pnOut (say out n) = pnOut n @ out" "pnPrePre (say out n) = pnPrePre n"
  "pnIPrep (say out n) = pnIPrep n" "cpAcks (say out n) = cpAcks n" "cpHung (say out n) = cpHung n" "bShardId (say out n) = bShardId n"
  "crReqCnt (say out n) = crReqCnt n" "pnLock (say out n) = pnLock n" "say [] n = n" "say out (say out' n) = say (out' @ out) n"
  by (simp_all add: say_def)

lemma upd_eq: "n\<lparr>pnIPrep := x\<rparr> = n \<Longrightarrow> pnIPrep n = x" "n\<lparr>pnPrePre := x\<rparr> = n \<Longrightarrow> pnPrePre n = x"
  by (drule arg_cong[where f = pnIPrep], simp) (drule arg_cong[where f = pnPrePre], simp)

lemma decodeVar_simps: "decodeVar E [v] 0 = decStd (peLib E) v" "decodeVar E [x, v] 1 = decStd (peLib E) v"
  by (simp_all add: decodeVar_def slot_def StdDecode_def)

definition prepareContent :: "Lib \<Rightarrow> nat \<Rightarrow> StdBlock \<Rightarrow> bytes" where
  "prepareContent L b block = NewByteContent [UintToBytes (of_nat b), encStd L block]"

lemma PrePreExecute_block:
  assumes "PrePreExecute E n = Some n'"
  obtains b where "pnPrePre n = Some b" "pnBlock n' = Some b"
  using assms by (auto simp: PrePreExecute_def CrossPrepareRequest_def Let_def bind_eq_Some_conv split: if_splits)

lemma PrePreExecute_sends:
  assumes "PrePreExecute E n = Some n'" "IsPyrMain E = Some True" "pnPrePre n = Some b"
  shows "pnOut n' = pnOut n @ [ToIShards ''CrossPrepareREQ'' (prepareContent (peLib E) (peOwn E) b)]"
  using assms
  by (auto simp: PrePreExecute_def CrossPrepareRequest_def prepareContent_def AppendByteContent_New Let_def bind_eq_Some_conv split: if_splits)

lemma parse_prepare: "ParseContent (prepareContent L b block) = [UintToBytes (of_nat b), encStd L block]"
  by (simp add: prepareContent_def ParseContent_New)

lemma IPrepVerify_true:
  assumes "IPrepVerify E [encStd L b] n = Some (True, n')" "decStd (peLib E) (encStd L b) = Some b"
  shows "pnIPrep n' = Some b"
  using assms by (auto simp: IPrepVerify_def decodeVar_simps bind_eq_Some_conv dest: upd_eq split: if_splits)

lemma HandleRequest_schedules:
  assumes "CrossPrepareHandleRequest E (prepareContent L i b) n = Some n'" "\<not> cpHung n'"
  shows "pnOut n' = pnOut n @ [Scheduled ''IShardPrepare'' [encStd L b]]" "bShardId n' = sint (of_nat i :: 64 word)"
  using assms
  by (auto simp: CrossPrepareHandleRequest_def parse_prepare IPrepSchedule_def IPrepVerify_def Let_def slot_def bind_eq_Some_conv
      split: if_splits)

lemma IPrepExecute_block:
  assumes "IPrepExecute E n = Some n'"
  shows "pnBlock n' = pnIPrep n \<and> pnIPrep n \<noteq> None \<and> pnChain n' = pnChain n"
  using assms by (auto simp: IPrepExecute_def CrossPrepareResponse_def Let_def bind_eq_Some_conv split: if_splits)

lemma pyrAppend_chain:
  "pyrAppend E b n = Some n' \<longleftrightarrow> (\<exists>c. n' = n\<lparr>pnChain := c\<rparr> \<and>
     Pyramid.Append (peFuel E) (peLib E) (peConf E) (peKV E) (peTop E) (peOwn E) (peRelI E) b (peOwn E) (pnChain n) = Some c)"
  by (auto simp: pyrAppend_def)

lemma releaseLock_chain: "releaseLock E n = Some n' \<Longrightarrow> pnChain n' = pnChain n \<and> pnBlock n' = pnBlock n \<and> pnOut n' = pnOut n"
  by (auto simp: releaseLock_def)

lemma CrossCommitExecute_appends:
  assumes "CrossCommitExecute E n = Some n'" "pnBlock n = Some b"
  shows "Pyramid.Append (peFuel E) (peLib E) (peConf E) (peKV E) (peTop E) (peOwn E) (peRelI E) b (peOwn E) (pnChain n) = Some (pnChain n')"
    "pnBlock n' = Some b"
  using assms
  by (auto simp: CrossCommitExecute_def Let_def bind_eq_Some_conv pyrAppend_chain dest!: releaseLock_chain split: if_splits)

lemma sendIBlock_state: "sendIBlock E n = Some n' \<Longrightarrow> \<exists>out. n' = say out n"
  by (auto simp: sendIBlock_def bind_eq_Some_conv)

lemma AppendCExecute_appends:
  assumes "AppendCExecute E n = Some n'" "pnBlock n = Some b"
  shows "Pyramid.Append (peFuel E) (peLib E) (peConf E) (peKV E) (peTop E) (peOwn E) (peRelI E) b (peOwn E) (pnChain n) = Some (pnChain n')"
    "pnBlock n' = None"
  using assms
  by (auto simp: AppendCExecute_def Let_def bind_eq_Some_conv pyrAppend_chain dest!: releaseLock_chain sendIBlock_state split: if_splits)

text \<open>C18: A cross block passes unchanged through the whole round: the block that the main node of the b-shard generates is the one that
  the replicas of the b-shard and the nodes of the i-shards, which get it in the \<open>CrossPrepare\<close> request and in the proposal made from it,
  have as their processing block after \<open>Execute\<close>, and is the one that \<open>CrossCommit\<close> appends to the chain of the b-shard and
  \<open>AppendCBlock\<close> to the chains of the i-shards.\<close>
theorem cross_round_same_block:
  assumes lib: "peLib Em = L" "peLib Eb = L" "peLib Ei = L" "peLib Er = L"
    and main: "IsPyrMain Em = Some True" "PrePrePrepare Em ord pools m = Some (vars, m1)" "PrePreExecute Em m1 = Some m2"
    and codec: "pnPrePre m1 = Some block" "decStd L (encStd L block) = Some block"
    and replica: "PrePreVerify Eb vars b = Some (True, b1)" "PrePreExecute Eb b1 = Some b2"
    and imain: "last (pnOut m2) = ToIShards ty content" "CrossPrepareHandleRequest Ei content i = Some i1" "\<not> cpHung i1"
    and ireplica: "last (pnOut i1) = Scheduled op ivars" "IPrepVerify Er ivars r = Some (True, r1)" "IPrepExecute Er r1 = Some r2"
  shows "pnBlock m2 = Some block \<and> pnBlock b2 = Some block \<and> pnBlock r2 = Some block \<and> op = ''IShardPrepare'' \<and> ivars = vars \<and>
    (\<forall>b3. CrossCommitExecute Eb b2 = Some b3 \<longrightarrow>
       Pyramid.Append (peFuel Eb) L (peConf Eb) (peKV Eb) (peTop Eb) (peOwn Eb) (peRelI Eb) block (peOwn Eb) (pnChain b2) = Some (pnChain b3)) \<and>
    (\<forall>r3. AppendCExecute Er r2 = Some r3 \<longrightarrow>
       Pyramid.Append (peFuel Er) L (peConf Er) (peKV Er) (peTop Er) (peOwn Er) (peRelI Er) block (peOwn Er) (pnChain r2) = Some (pnChain r3))"
proof -
  have m1: "vars = [encStd L block]" using main(2) lib(1) codec(1) by (auto simp: PrePrePrepare_def bind_eq_Some_conv)
  have m2: "pnBlock m2 = Some block" using PrePreExecute_block[OF main(3)] codec(1) by (metis option.inject)
  have content: "content = prepareContent L (peOwn Em) block"
    using imain(1) unfolding PrePreExecute_sends[OF main(3,1) codec(1)] lib(1) by simp
  have "pnPrePre b1 = Some block"
    using replica(1) codec(2) lib(2) unfolding m1
    by (auto simp: PrePreVerify_def decodeVar_simps bind_eq_Some_conv dest: upd_eq split: if_splits)
  then have b2: "pnBlock b2 = Some block" using PrePreExecute_block[OF replica(2)] by (metis option.inject)
  have op: "op = ''IShardPrepare''" "ivars = vars"
    using ireplica(1) HandleRequest_schedules(1)[OF imain(2)[unfolded content] imain(3)] m1 by auto
  have "pnIPrep r1 = Some block" using IPrepVerify_true[OF ireplica(2)[unfolded op m1]] codec lib(4) by simp
  then have r2: "pnBlock r2 = Some block" using IPrepExecute_block[OF ireplica(3)] by simp
  show ?thesis
  proof (intro conjI allI impI)
    fix b3 assume "CrossCommitExecute Eb b2 = Some b3"
    from CrossCommitExecute_appends(1)[OF this b2, unfolded lib] show
      "Pyramid.Append (peFuel Eb) L (peConf Eb) (peKV Eb) (peTop Eb) (peOwn Eb) (peRelI Eb) block (peOwn Eb) (pnChain b2) = Some (pnChain b3)" .
  next
    fix r3 assume "AppendCExecute Er r2 = Some r3"
    from AppendCExecute_appends(1)[OF this r2, unfolded lib] show
      "Pyramid.Append (peFuel Er) L (peConf Er) (peKV Er) (peTop Er) (peOwn Er) (peRelI Er) block (peOwn Er) (pnChain r2) = Some (pnChain r3)" .
  qed (fact m2 b2 r2 op)+
qed

subsection \<open>The answers of the i-shards\<close>

definition prepareReply :: "nat \<Rightarrow> bytes \<Rightarrow> bytes" where
  "prepareReply i v = NewByteContent [UintToBytes (of_nat i), v]"

lemma HandleResponse_step:
  assumes "\<not> cpHung n" "i < 2 ^ 64"
  shows "CrossPrepareHandleResponse E (prepareReply i v) n =
    (let acks = mput i (v = SuccessByte) (cpAcks n)
     in Some (if length acks = length (peRelI E) then say [Scheduled ''CrossCommit'' []] (n\<lparr>cpAcks := []\<rparr>) else n\<lparr>cpAcks := acks\<rparr>))"
  using assms
  by (simp add: CrossPrepareHandleResponse_def prepareReply_def ParseContent_New slot_def Let_def unsigned_of_nat take_bit_nat_eq_self)

lemma HandleResponse_collects:
  assumes "\<not> cpHung n" "distinct (map fst xs)" "\<forall>(i, v)\<in>set xs. i < 2 ^ 64 \<and> mget (cpAcks n) i = None"
    "length (cpAcks n) + length xs < length (peRelI E)"
  shows "\<exists>acks. foldM (\<lambda>(i, v). CrossPrepareHandleResponse E (prepareReply i v)) xs n = Some (n\<lparr>cpAcks := acks\<rparr>) \<and>
     length acks = length (cpAcks n) + length xs \<and> (\<forall>i. i \<notin> fst ` set xs \<longrightarrow> mget acks i = mget (cpAcks n) i)"
  using assms
proof (induction xs arbitrary: n)
  case Nil
  have "n = n\<lparr>cpAcks := cpAcks n\<rparr>" by simp
  then show ?case unfolding foldM.simps by (intro exI[of _ "cpAcks n"]) simp
next
  case (Cons x xs)
  obtain i v where x: "x = (i, v)" by force
  let ?a = "mput i (v = SuccessByte) (cpAcks n)"
  have i: "i < 2 ^ 64" "mget (cpAcks n) i = None" using Cons.prems(3) x by auto
  have len: "length ?a = Suc (length (cpAcks n))" using i(2) by (simp add: length_mput)
  have step: "CrossPrepareHandleResponse E (prepareReply i v) n = Some (n\<lparr>cpAcks := ?a\<rparr>)"
    using len Cons.prems(4) unfolding HandleResponse_step[OF Cons.prems(1) i(1)] Let_def by simp
  have d: "i \<notin> fst ` set xs" "distinct (map fst xs)" using Cons.prems(2) x by auto
  have fresh: "\<forall>(j, w)\<in>set xs. j < 2 ^ 64 \<and> mget (cpAcks (n\<lparr>cpAcks := ?a\<rparr>)) j = None"
  proof safe
    fix j w assume m: "(j, w) \<in> set xs"
    then have "j \<noteq> i" using d(1) by force
    moreover have "j < 2 ^ 64 \<and> mget (cpAcks n) j = None" using Cons.prems(3) m by auto
    ultimately show "j < 2 ^ 64" "mget (cpAcks (n\<lparr>cpAcks := ?a\<rparr>)) j = None" by simp_all
  qed
  have l: "length (cpAcks (n\<lparr>cpAcks := ?a\<rparr>)) + length xs < length (peRelI E)" using Cons.prems(4) len by simp
  have h: "\<not> cpHung (n\<lparr>cpAcks := ?a\<rparr>)" using Cons.prems(1) by simp
  from Cons.IH[OF h d(2) fresh l] obtain acks where
    run: "foldM (\<lambda>(i, v). CrossPrepareHandleResponse E (prepareReply i v)) xs (n\<lparr>cpAcks := ?a\<rparr>) = Some (n\<lparr>cpAcks := acks\<rparr>)"
    and len': "length acks = length ?a + length xs" and keep: "\<forall>j. j \<notin> fst ` set xs \<longrightarrow> mget acks j = mget ?a j"
    by auto
  have "\<forall>j. j \<notin> fst ` set (x # xs) \<longrightarrow> mget acks j = mget (cpAcks n) j" using keep x by simp
  then show ?case using run len' len step x by (intro exI[of _ acks]) simp
qed

text \<open>C19: The b-shard commits after it has got an answer from each of its i-shards, in any order and not before; what the answers say
  does not matter, a refusal counts like consent.\<close>
theorem cross_prepare_any_verdict:
  assumes "\<not> cpHung n" "cpAcks n = []" "distinct (map fst answers)" "\<forall>(i, v)\<in>set answers. i < 2 ^ 64"
    "length answers = length (peRelI E)" "peRelI E \<noteq> []"
  shows "foldM (\<lambda>(i, v). CrossPrepareHandleResponse E (prepareReply i v)) answers n = Some (say [Scheduled ''CrossCommit'' []] n) \<and>
    (\<forall>k < length answers.
      \<exists>n'. foldM (\<lambda>(i, v). CrossPrepareHandleResponse E (prepareReply i v)) (take k answers) n = Some n' \<and> pnOut n' = pnOut n)"
proof -
  have part: "\<exists>acks. foldM (\<lambda>(i, v). CrossPrepareHandleResponse E (prepareReply i v)) xs n = Some (n\<lparr>cpAcks := acks\<rparr>) \<and>
      length acks = length xs \<and> (\<forall>i. i \<notin> fst ` set xs \<longrightarrow> mget acks i = None)"
    if p: "answers = xs @ ys" "ys \<noteq> []" for xs ys
  proof -
    have "length xs < length (peRelI E)" using assms(5) p by (cases ys) auto
    then show ?thesis using HandleResponse_collects[of n xs E] assms(1-4) p by (simp add: case_prod_unfold)
  qed
  have "answers \<noteq> []" using assms(5,6) by auto
  then obtain xs i v where a: "answers = xs @ [(i, v)]" by (metis prod.exhaust rev_exhaust)
  from part[OF a] obtain acks where
    run: "foldM (\<lambda>(i, v). CrossPrepareHandleResponse E (prepareReply i v)) xs n = Some (n\<lparr>cpAcks := acks\<rparr>)"
    and acks: "length acks = length xs" "\<forall>i. i \<notin> fst ` set xs \<longrightarrow> mget acks i = None" by auto
  have i: "i < 2 ^ 64" "i \<notin> fst ` set xs" using assms(3,4) a by auto
  have len: "length (mput i (v = SuccessByte) acks) = length (peRelI E)"
    using acks i(2) assms(5) a by (simp add: length_mput)
  have h: "\<not> cpHung (n\<lparr>cpAcks := acks\<rparr>)" using assms(1) by simp
  have "n\<lparr>cpAcks := []\<rparr> = n" using assms(2) by simp
  then have "CrossPrepareHandleResponse E (prepareReply i v) (n\<lparr>cpAcks := acks\<rparr>) = Some (say [Scheduled ''CrossCommit'' []] n)"
    using len unfolding HandleResponse_step[OF h i(1)] Let_def by simp
  then have all: "foldM (\<lambda>(i, v). CrossPrepareHandleResponse E (prepareReply i v)) answers n = Some (say [Scheduled ''CrossCommit'' []] n)"
    unfolding a by (simp add: foldM_append run)
  show ?thesis
  proof (intro conjI all allI impI)
    fix k assume k: "k < length answers"
    have "answers = take k answers @ drop k answers" "drop k answers \<noteq> []" using k by simp_all
    from part[OF this] show "\<exists>n'. foldM (\<lambda>(i, v). CrossPrepareHandleResponse E (prepareReply i v)) (take k answers) n = Some n' \<and> pnOut n' = pnOut n"
      by auto
  qed
qed

text \<open>An i-shard that refuses a block never answers: the handler waits for the mutex that it holds itself.  From then on no
  \<open>CrossPrepare\<close> request is handled and the main node cannot finish \<open>IShardPrepare\<close>, so the b-shard waits for the answer for ever.\<close>
theorem cross_refusal_hangs:
  assumes "pyrVerify E block = Some False" "decStd (peLib E) (encStd (peLib E) block) = Some block" "\<not> cpHung n"
    "IsPyrMain E = Some True"
  obtains n' where "CrossPrepareHandleRequest E (prepareContent (peLib E) i block) n = Some n'" "pnOut n' = pnOut n"
    "\<And>content. CrossPrepareHandleRequest E content n' = None" "\<And>m. cpHung m \<Longrightarrow> IPrepExecute E m = None"
proof -
  let ?n = "n\<lparr>bShardId := sint (of_nat i :: 64 word), cpHung := True\<rparr>"
  have "CrossPrepareHandleRequest E (prepareContent (peLib E) i block) n = Some ?n"
    using assms(1-3) by (simp add: CrossPrepareHandleRequest_def parse_prepare Let_def decodeVar_simps decodeVar_simps(2)[simplified] slot_def)
  moreover have "CrossPrepareHandleRequest E content ?n = None" for content by (simp add: CrossPrepareHandleRequest_def)
  moreover have "IPrepExecute E m = None" if "cpHung m" for m :: "'a PyrNode"
    using that assms(4) by (auto simp: IPrepExecute_def CrossPrepareResponse_def Let_def split: Option.bind_split)
  ultimately show ?thesis using that[of ?n] by simp
qed

subsection \<open>The replies of the b-shard\<close>

definition replyMsg :: "hash \<Rightarrow> bytes \<Rightarrow> Message" where
  "replyMsg h k = \<lparr>MsgType = CrossReplyREQ, MsgContent = NewByteContent [h], RemoteInfo = k\<rparr>"

definition senderThreshold :: "'d PyrEnv \<Rightarrow> bytes \<Rightarrow> 64 word option" where
  "senderThreshold E k =
     do { x \<leftarrow> mget (syNodes (peSync E)) k; d \<leftarrow> slot (syShards (peSync E)) (ShardID x); Some (domainThreshold d) }"

lemma Reply_step:
  assumes "senderThreshold E k = Some t" "pnBlock n \<noteq> None"
  shows "CrossReplyHandleRequest E (replyMsg h k) n =
    (let cnt = getOr (crReqCnt n) h 0 + 1; n1 = n\<lparr>crReqCnt := mput h cnt (crReqCnt n)\<rparr>
     in Some (True, if cnt = t then say [Scheduled ''AppendCBlock'' []] n1 else n1))"
proof -
  obtain x d where "mget (syNodes (peSync E)) k = Some x" "slot (syShards (peSync E)) (ShardID x) = Some d" "t = domainThreshold d"
    using assms(1) by (auto simp: senderThreshold_def bind_eq_Some_conv)
  then show ?thesis
    using assms(2) by (simp add: CrossReplyHandleRequest_def replyMsg_def ParseContent_New Let_def slot_def)
qed

lemma count_eq:
  "c < 2 ^ 64 \<Longrightarrow> (of_nat c = (t :: 64 word)) = (c = unat t)"
  using word_unat_eq_iff[of "of_nat c" t] by (simp add: unsigned_of_nat take_bit_nat_eq_self)

lemma Replies:
  assumes "pnBlock n \<noteq> None" "\<forall>k\<in>set ks. senderThreshold E k = Some t" "getOr (crReqCnt n) h 0 = of_nat c" "c + length ks < 2 ^ 64"
  shows "\<exists>cnt. foldM (\<lambda>k n. map_option snd (CrossReplyHandleRequest E (replyMsg h k) n)) ks n =
     Some (say (if c < unat t \<and> unat t \<le> c + length ks then [Scheduled ''AppendCBlock'' []] else []) (n\<lparr>crReqCnt := cnt\<rparr>))"
  using assms
proof (induction ks arbitrary: n c)
  case Nil
  have "n\<lparr>crReqCnt := crReqCnt n\<rparr> = n" by simp
  then show ?case by (intro exI[of _ "crReqCnt n"]) simp
next
  case (Cons k ks)
  let ?m = "mput h (of_nat (Suc c)) (crReqCnt n)"
  let ?s = "say (if Suc c = unat t then [Scheduled ''AppendCBlock'' []] else []) (n\<lparr>crReqCnt := ?m\<rparr>)"
  have "Suc c < 2 ^ 64" using Cons.prems(4) by simp
  note c = count_eq[OF this, of t]
  have "CrossReplyHandleRequest E (replyMsg h k) n = Some (True, ?s)"
    using Reply_step[of E k t n h] Cons.prems(1-3) c by (simp add: Let_def add.commute)
  moreover have "\<exists>cnt. foldM (\<lambda>k n. map_option snd (CrossReplyHandleRequest E (replyMsg h k) n)) ks ?s =
     Some (say (if Suc c < unat t \<and> unat t \<le> Suc c + length ks then [Scheduled ''AppendCBlock'' []] else []) (?s\<lparr>crReqCnt := cnt\<rparr>))"
    by (rule Cons.IH) (use Cons.prems in \<open>simp_all add: getOr_def say_def\<close>)
  ultimately show ?case by (auto simp: say_def)
qed

text \<open>C20: The replies of the b-shard are counted by the hash they carry, which is not compared with the block that is processed, and the
  senders are not compared with each other: \<open>AppendCBlock\<close> is scheduled exactly when Threshold many replies with one hash have come,
  whatever the hash and the senders are, and it then appends the processing block.\<close>
theorem cross_reply_any_hash:
  assumes "pnBlock n = Some block" "\<forall>k\<in>set ks. senderThreshold E k = Some t" "mget (crReqCnt n) h = None" "length ks < 2 ^ 64" "0 < t"
  obtains n' where "foldM (\<lambda>k n. map_option snd (CrossReplyHandleRequest E (replyMsg h k) n)) ks n = Some n'"
    "pnOut n' = pnOut n @ (if unat t \<le> length ks then [Scheduled ''AppendCBlock'' []] else [])"
    "\<And>n''. AppendCExecute E n' = Some n'' \<Longrightarrow>
      Pyramid.Append (peFuel E) (peLib E) (peConf E) (peKV E) (peTop E) (peOwn E) (peRelI E) block (peOwn E) (pnChain n) = Some (pnChain n'')"
proof -
  have z: "getOr (crReqCnt n) h 0 = of_nat 0" using assms(3) by (simp add: getOr_def)
  have "pnBlock n \<noteq> None" "0 + length ks < 2 ^ 64" using assms(1,4) by simp_all
  from Replies[OF this(1) assms(2) z this(2)] obtain cnt where
    run: "foldM (\<lambda>k n. map_option snd (CrossReplyHandleRequest E (replyMsg h k) n)) ks n =
      Some (say (if 0 < unat t \<and> unat t \<le> 0 + length ks then [Scheduled ''AppendCBlock'' []] else []) (n\<lparr>crReqCnt := cnt\<rparr>))" by blast
  have t: "0 < unat t" using assms(5) by (simp add: word_less_nat_alt)
  let ?n = "say (if unat t \<le> length ks then [Scheduled ''AppendCBlock'' []] else []) (n\<lparr>crReqCnt := cnt\<rparr>)"
  show ?thesis
  proof (rule that[of ?n])
    show "foldM (\<lambda>k n. map_option snd (CrossReplyHandleRequest E (replyMsg h k) n)) ks n = Some ?n" using run t by simp
    show "pnOut ?n = pnOut n @ (if unat t \<le> length ks then [Scheduled ''AppendCBlock'' []] else [])" by simp
    fix n'' assume a: "AppendCExecute E ?n = Some n''"
    have "pnBlock ?n = Some block" using assms(1) by simp
    from AppendCExecute_appends(1)[OF a this] show
      "Pyramid.Append (peFuel E) (peLib E) (peConf E) (peKV E) (peTop E) (peOwn E) (peRelI E) block (peOwn E) (pnChain n) = Some (pnChain n'')"
      by simp
  qed
qed

subsection \<open>An example\<close>

definition crossDecode :: "bytes \<Rightarrow> StdBlock option" where
  "crossDecode x = (if x = [] then None else Some demoCross)"

definition crossLib :: Lib where
  \<comment> \<open>every block is decoded to the same cross block\<close>
  "crossLib = pyrDemoLib\<lparr>decStd := crossDecode, encStd := \<lambda>b. ''B''\<rparr>"

definition crossEnv :: "nat \<Rightarrow> bytes \<Rightarrow> ((bytes \<times> bytes) \<times> bytes) list PyrEnv" where
  \<comment> \<open>\<open>b\<close> and \<open>c\<close> are in shard 3, a b-shard of the shards 0, 1 and 2, \<open>i\<close> and \<open>j\<close> in shard 0\<close>
  "crossEnv own self = \<lparr>peFuel = 9, peLib = crossLib, peConf = pyrDemoConf, peKV = demoKV, peTop = ''z'', peOwn = own,
     peRelI = (if own = 3 then [0, 1, 2] else []), peRelB = (if own = 3 then [] else [3]), peSelf = self,
     peSync = \<lparr>syNodes = [(''b'', (portNode 1 ''1'')\<lparr>ShardID := 3\<rparr>), (''c'', (portNode 2 ''2'')\<lparr>ShardID := 3\<rparr>), (''i'', portNode 3 ''3''),
         (''j'', portNode 4 ''4'')],
       syShards = [\<lparr>dSid = 0, dMap = [''i'', ''j''], dMain = Some ''i''\<rparr>, \<lparr>dSid = 1, dMap = [], dMain = None\<rparr>,
         \<lparr>dSid = 2, dMap = [], dMain = None\<rparr>, \<lparr>dSid = 3, dMap = [''b'', ''c''], dMain = Some ''b''\<rparr>]\<rparr>\<rparr>"

definition crossNode :: "nat \<Rightarrow> nat list \<Rightarrow> ((bytes \<times> bytes) \<times> bytes) list PyrNode" where
  "crossNode own rel = \<lparr>pnChain = pyrChainOf own rel [pyrDemoTx], pnBlock = None, pnPrePre = None, pnIPrep = None, cpAcks = [], bShardId = 0,
     cpHung = False, crReqCnt = [], pnLock = lockIdle, pnOut = []\<rparr>"

abbreviation "crossPools \<equiv> (\<lambda>_ :: nat. pcPool (pyrChainOf 3 [0, 1, 2] [pyrDemoTx]))"

definition crossRun where
  \<comment> \<open>the round up to the i-shards: the main node of the b-shard, a replica of it, the main node and a replica of shard 0\<close>
  "crossRun =
     do { (vars, m1) \<leftarrow> PrePrePrepare (crossEnv 3 ''b'') (\<lambda>kvs. kvs) crossPools (crossNode 3 [0, 1, 2]);
          m2 \<leftarrow> PrePreExecute (crossEnv 3 ''b'') m1;
          (okb, b1) \<leftarrow> PrePreVerify (crossEnv 3 ''c'') vars (crossNode 3 [0, 1, 2]);
          b2 \<leftarrow> PrePreExecute (crossEnv 3 ''c'') b1;
          let content = (case last (pnOut m2) of ToIShards ty content \<Rightarrow> content | _ \<Rightarrow> [])
          in do { i1 \<leftarrow> CrossPrepareHandleRequest (crossEnv 0 ''i'') content (crossNode 0 []);
                  (okr, r1) \<leftarrow> IPrepVerify (crossEnv 0 ''j'') vars (crossNode 0 []);
                  r2 \<leftarrow> IPrepExecute (crossEnv 0 ''j'') r1;
                  Some (vars, m1, m2, okb, b1, b2, content, i1, okr, r1, r2) } }"

lemma crossRun:
  "\<exists>vars m1 m2 b1 b2 content i1 r1 r2. crossRun = Some (vars, m1, m2, True, b1, b2, content, i1, True, r1, r2) \<and>
     pnPrePre m1 = Some demoCross \<and> last (pnOut m2) = ToIShards ''CrossPrepareREQ'' content \<and> \<not> cpHung i1 \<and>
     last (pnOut i1) = Scheduled ''IShardPrepare'' vars"
proof -
  have "(case crossRun of None \<Rightarrow> False | Some (vars, m1, m2, okb, b1, b2, content, i1, okr, r1, r2) \<Rightarrow>
      okb \<and> okr \<and> pnPrePre m1 = Some demoCross \<and> last (pnOut m2) = ToIShards ''CrossPrepareREQ'' content \<and> \<not> cpHung i1 \<and>
      last (pnOut i1) = Scheduled ''IShardPrepare'' vars)" by code_simp
  from case_Some[OF this] show ?thesis by (clarsimp split: prod.splits) (intro exI conjI, assumption+)
qed

theorem cross_round_same_block_witness:
  "\<exists>vars m1 m2 b1 b2 content i1 r1 r2. crossRun = Some (vars, m1, m2, True, b1, b2, content, i1, True, r1, r2) \<and>
     pnBlock m2 = Some demoCross \<and> pnBlock b2 = Some demoCross \<and> pnBlock r2 = Some demoCross"
proof -
  obtain vars m1 m2 b1 b2 content i1 r1 r2 where
    run: "crossRun = Some (vars, m1, m2, True, b1, b2, content, i1, True, r1, r2)"
    and res: "pnPrePre m1 = Some demoCross" "last (pnOut m2) = ToIShards ''CrossPrepareREQ'' content" "\<not> cpHung i1"
      "last (pnOut i1) = Scheduled ''IShardPrepare'' vars"
    using crossRun by blast
  from run have steps:
    "PrePrePrepare (crossEnv 3 ''b'') (\<lambda>kvs. kvs) crossPools (crossNode 3 [0, 1, 2]) = Some (vars, m1)"
    "PrePreExecute (crossEnv 3 ''b'') m1 = Some m2"
    "PrePreVerify (crossEnv 3 ''c'') vars (crossNode 3 [0, 1, 2]) = Some (True, b1)"
    "PrePreExecute (crossEnv 3 ''c'') b1 = Some b2"
    "CrossPrepareHandleRequest (crossEnv 0 ''i'') content (crossNode 0 []) = Some i1"
    "IPrepVerify (crossEnv 0 ''j'') vars (crossNode 0 []) = Some (True, r1)"
    "IPrepExecute (crossEnv 0 ''j'') r1 = Some r2"
    unfolding crossRun_def Let_def by (auto simp: bind_eq_Some_conv)
  have lib: "peLib (crossEnv own self) = crossLib" for own self by (simp add: crossEnv_def)
  have codec: "decStd crossLib (encStd crossLib demoCross) = Some demoCross" by (simp add: crossLib_def crossDecode_def)
  have "IsPyrMain (crossEnv 3 ''b'') = Some True" by code_simp
  from cross_round_same_block[OF lib lib lib lib this steps(1,2) res(1) codec steps(3,4) res(2) steps(5) res(3,4) steps(6,7)] run
  show ?thesis by blast
qed

definition crossAnswers :: "(nat \<times> bytes) list" where "crossAnswers = [(2, SuccessByte), (0, FailByte), (1, SuccessByte)]"

theorem cross_prepare_any_verdict_witness:
  "foldM (\<lambda>(i, v). CrossPrepareHandleResponse (crossEnv 3 ''b'') (prepareReply i v)) crossAnswers (crossNode 3 [0, 1, 2]) =
     Some (say [Scheduled ''CrossCommit'' []] (crossNode 3 [0, 1, 2])) \<and>
   (\<exists>n'. foldM (\<lambda>(i, v). CrossPrepareHandleResponse (crossEnv 3 ''b'') (prepareReply i v)) (take 2 crossAnswers) (crossNode 3 [0, 1, 2]) = Some n' \<and>
     pnOut n' = [])"
proof -
  have a: "\<not> cpHung (crossNode 3 [0, 1, 2])" "cpAcks (crossNode 3 [0, 1, 2]) = []" "distinct (map fst crossAnswers)"
    "\<forall>(i, v)\<in>set crossAnswers. i < 2 ^ 64" "length crossAnswers = length (peRelI (crossEnv 3 ''b''))" "peRelI (crossEnv 3 ''b'') \<noteq> []"
    by (simp_all add: crossNode_def crossAnswers_def crossEnv_def)
  have k: "2 < length crossAnswers" "pnOut (crossNode 3 [0, 1, 2]) = []" by (simp_all add: crossAnswers_def crossNode_def)
  show ?thesis using cross_prepare_any_verdict[OF a] k by metis
qed

definition forgedBlock :: StdBlock where
  \<comment> \<open>with a Merkle root that is not the one of its transactions\<close>
  "forgedBlock = emptyStdBlock\<lparr>sH := (sH emptyStdBlock)\<lparr>MerkleRoot := ''forged''\<rparr>\<rparr>"

definition forgedEnv :: "((bytes \<times> bytes) \<times> bytes) list PyrEnv" where
  "forgedEnv = (crossEnv 0 ''i'')\<lparr>peLib := crossLib\<lparr>decStd := \<lambda>x. Some forgedBlock\<rparr>\<rparr>"

theorem cross_refusal_hangs_witness:
  "\<exists>n'. CrossPrepareHandleRequest forgedEnv (prepareContent (peLib forgedEnv) 3 forgedBlock) (crossNode 0 []) = Some n' \<and> pnOut n' = [] \<and>
     (\<forall>content. CrossPrepareHandleRequest forgedEnv content n' = None)"
proof -
  have v: "pyrVerify forgedEnv forgedBlock = Some False" "IsPyrMain forgedEnv = Some True" by code_simp+
  have d: "decStd (peLib forgedEnv) (encStd (peLib forgedEnv) forgedBlock) = Some forgedBlock" "\<not> cpHung (crossNode 0 [])"
    "pnOut (crossNode 0 []) = []" by (simp_all add: forgedEnv_def crossNode_def)
  from cross_refusal_hangs[OF v(1) d(1,2) v(2), of 3] obtain n' where
    "CrossPrepareHandleRequest forgedEnv (prepareContent (peLib forgedEnv) 3 forgedBlock) (crossNode 0 []) = Some n'"
    "pnOut n' = pnOut (crossNode 0 [])" "\<And>content. CrossPrepareHandleRequest forgedEnv content n' = None" by blast
  then show ?thesis using d(3) by auto
qed

definition replyNode :: "((bytes \<times> bytes) \<times> bytes) list PyrNode" where
  "replyNode = (crossNode 0 [])\<lparr>pnBlock := Some forgedBlock\<rparr>"

theorem cross_reply_any_hash_witness:
  "\<exists>n'. foldM (\<lambda>k n. map_option snd (CrossReplyHandleRequest (crossEnv 0 ''i'') (replyMsg ''any'' k) n)) [''c'', ''c''] replyNode = Some n' \<and>
     pnOut n' = [Scheduled ''AppendCBlock'' []] \<and> ''any'' \<noteq> StdHash crossLib forgedBlock"
proof -
  have b: "pnBlock replyNode = Some forgedBlock" "mget (crReqCnt replyNode) ''any'' = None" "pnOut replyNode = []" "length [''c'', ''c''] < 2 ^ 64"
    by (simp_all add: replyNode_def crossNode_def)
  have t: "\<forall>k\<in>set [''c'', ''c'']. senderThreshold (crossEnv 0 ''i'') k = Some 2" by code_simp
  have h: "''any'' \<noteq> StdHash crossLib forgedBlock" by code_simp
  have z: "(0 :: 64 word) < 2" by simp
  from cross_reply_any_hash[OF b(1) t b(2,4) z] obtain n' where
    "foldM (\<lambda>k n. map_option snd (CrossReplyHandleRequest (crossEnv 0 ''i'') (replyMsg ''any'' k) n)) [''c'', ''c''] replyNode = Some n'"
    "pnOut n' = pnOut replyNode @ (if unat (2 :: 64 word) \<le> length [''c'', ''c''] then [Scheduled ''AppendCBlock'' []] else [])" by blast
  then show ?thesis using h b(3) by simp
qed

end
