(* ===== verification/ShardOps.thy ===== *)
theory ShardOps
  imports Pow Monoxide Monosulfide Shards Manage
begin

text \<open>
  The operations of a Monoxide shard (\<^verbatim>\<open>src/Opts/MonoxideRelayTxs.go\<close>) and of a Monosulfide shard
  (\<^verbatim>\<open>src/Opts/SpiralTxs.go\<close>), which run under \<open>EasyPoW\<close> (theory \<open>Pow\<close>), and the start of the shards,
  \<^verbatim>\<open>src/Comm/MainBegin.go\<close>.

  A node is a record with its chain and the fields of the operation.  The parameters of a proposal are slices; the \<open>nil\<close> pointers
  that \<open>Schedule\<close> makes are empty slices here, and \<open>Prepare\<close> overwrites them.  The mutex \<open>opLock\<close>, which \<open>Verify\<close> takes and
  \<open>Execute\<close> releases, makes the two one step.  Of the report at the end of \<open>Execute\<close> the counts are modelled, since it divides by
  them.
\<close>

definition RelayTxType :: bytes where "RelayTxType = ''RelayTx''"
definition FideTxType :: bytes where "FideTxType = ''FideTx''"

subsection \<open>Monoxide\<close>

record 'd RelayNode =
  rnChain :: "'d RelayChain"
  tempBlocks :: "RelayBlock list"
  rnStopped :: bool                  \<comment> \<open>\<open>config.STOPPER\<close> has got a value\<close>

record 'd RelayEnv =
  reLib :: Lib
  reConf :: Conf
  reKV :: "'d KV"
  reAt :: "bytes \<Rightarrow> nat"             \<comment> \<open>the address of the object that a slice is decoded into\<close>
  reMainPort :: bool                 \<comment> \<open>whether the node listens at \<open>config.MainPort\<close>\<close>

definition RelaySchedule :: "Conf \<Rightarrow> bytes list" where
  "RelaySchedule conf = replicate (monoShardAmount (monoConf conf)) []"

definition putVar :: "Lib \<Rightarrow> nat \<times> RelayBlock \<Rightarrow> bytes list \<Rightarrow> bytes list option" where
  "putVar L = (\<lambda>(i, block) vars. do { v \<leftarrow> RelayEncode L block; setSlot vars i v })"

definition RelayPrepare ::
  "'d RelayEnv \<Rightarrow> mapOrder \<Rightarrow> int \<Rightarrow> nat \<Rightarrow> bytes list \<Rightarrow> 'd RelayNode \<Rightarrow> (bool \<times> bytes list \<times> 'd RelayNode) option" where
  "RelayPrepare E ord now a vars n =
     do { blocks \<leftarrow> Monoxide.GenerateBlock (reLib E) (reConf E) ord now a (rnChain n);
          if blocks = [] then Some (False, vars, n)
          else do { vars' \<leftarrow> foldM (putVar (reLib E)) (zip [0..<length blocks] blocks) vars; Some (True, vars', n) } }"

definition verifyVar :: "'d RelayEnv \<Rightarrow> bytes \<Rightarrow> 'd RelayNode \<Rightarrow> 'd RelayNode option" where
  \<comment> \<open>the loop body of \<open>Verify\<close>; a block that is refused ends the program\<close>
  "verifyVar E v n =
     do { block \<leftarrow> RelayDecode (reLib E) 0 (reAt E v) (Some v);
          if Monoxide.VerifyBlock (reLib E) block then Some (n\<lparr>tempBlocks := tempBlocks n @ [block]\<rparr>) else None }"

definition RelayVerify :: "'d RelayEnv \<Rightarrow> bytes list \<Rightarrow> 'd RelayNode \<Rightarrow> (bool \<times> 'd RelayNode) option" where
  "RelayVerify E vars n = do { n1 \<leftarrow> foldM (verifyVar E) vars n; Some (True, n1) }"

record relayReport =
  repITx :: nat
  repCTx :: nat
  repCheck :: nat
  repBlocks :: nat

definition reportTx :: "Conf \<Rightarrow> Transaction \<Rightarrow> relayReport \<Rightarrow> relayReport option" where
  "reportTx conf tx rep =
     do { s \<leftarrow> SInShard conf tx;
          r \<leftarrow> RInShard conf tx;
          Some (if s = r then rep\<lparr>repITx := repITx rep + 1\<rparr>
                else if TxType tx = RelayDump then rep\<lparr>repCTx := repCTx rep + 1\<rparr>
                else rep\<lparr>repCheck := repCheck rep + 1\<rparr>) }"

definition reportShard :: "Conf \<Rightarrow> 'd RelayChain \<Rightarrow> nat \<Rightarrow> relayReport \<Rightarrow> relayReport option" where
  \<comment> \<open>from the top of the shard to its genesis block; the size of each block is compared with a share of \<open>MaxBlockSize\<close>, a
     quotient by \<open>ShardAmount\<close>\<close>
  "reportShard conf c sid rep =
     do { t \<leftarrow> mget (mxBlocks c) (hashAt (mxTop c) sid);
          bs \<leftarrow> branch (Suc (length (mxBlocks c))) relayParent (mxBlocks c) (mget (mxGs c) sid) t;
          (if bs \<noteq> [] \<and> ShardAmount conf = 0 then None else Some ());
          rep1 \<leftarrow> foldM (reportTx conf) (concat (map (\<lambda>b. Intra (rB b)) bs)) rep;
          Some (rep1\<lparr>repBlocks := repBlocks rep1 + length bs + 1\<rparr>) }"

definition report :: "Lib \<Rightarrow> Conf \<Rightarrow> bool \<Rightarrow> 'd RelayChain \<Rightarrow> relayReport option" where
  \<comment> \<open>all blocks are coded for the space they take; the averages that the main node prints are quotients by \<open>ITx\<close> and by \<open>CTx\<close>\<close>
  "report L conf atMain c =
     do { mapM (\<lambda>(h, b). RelayEncode L b) (mxBlocks c);
          rep \<leftarrow> foldM (reportShard conf c) [0..<monoShardAmount (monoConf conf)] \<lparr>repITx = 0, repCTx = 0, repCheck = 0, repBlocks = 0\<rparr>;
          if atMain \<and> (repITx rep = 0 \<or> repCTx rep = 0) then None else Some rep }"

definition appendTemp :: "'d RelayEnv \<Rightarrow> RelayBlock \<Rightarrow> 'd RelayChain \<Rightarrow> 'd RelayChain option" where
  \<comment> \<open>the loop body of \<open>Execute\<close>; asking whether a transaction is pooled may panic\<close>
  "appendTemp E block c =
     do { mapM (\<lambda>tx. TxExist (reConf E) (txHash (reLib E)) tx (mxPool c)) (Intra (rB block));
          Monoxide.Append (reLib E) (reConf E) (reKV E) block c }"

definition RelayExecute :: "'d RelayEnv \<Rightarrow> 'd RelayNode \<Rightarrow> 'd RelayNode option" where
  "RelayExecute E n =
     do { c \<leftarrow> foldM (appendTemp E) (tempBlocks n) (rnChain n);
          let n1 = n\<lparr>rnChain := c\<rparr>
          in if Amount (mxPool c) = 0
             then do { report (reLib E) (reConf E) (reMainPort E) c; Some (n1\<lparr>tempBlocks := [], rnStopped := True\<rparr>) }
             else Some (n1\<lparr>tempBlocks := []\<rparr>) }"

definition relayOps :: "'d RelayEnv \<Rightarrow> mapOrder \<Rightarrow> int \<Rightarrow> nat \<Rightarrow> 'd RelayNode Ops" where
  "relayOps E ord now a =
     \<lparr>opPrepare = (\<lambda>t vars n. if t = RelayTxType then RelayPrepare E ord now a vars n else None),
      opVerify = (\<lambda>t vars n. if t = RelayTxType then RelayVerify E vars n else None),
      opExecute = (\<lambda>t n. if t = RelayTxType then RelayExecute E n else None)\<rparr>"

subsection \<open>Monosulfide\<close>

record 'd FideNode =
  fnChain :: "'d FideChain"
  fnTemp :: "FideBlock option"
  fnScheduled :: nat                 \<comment> \<open>calls of \<open>Interfaces.Operations[FideTx].Schedule\<close>\<close>

record 'd FideEnv =
  feLib :: Lib
  feConf :: Conf
  feKV :: "'d KV"
  feAt :: "bytes \<Rightarrow> nat"
  feSched :: schedule
  feClock :: clock
  feClock' :: clock
  feIsMain :: bool                   \<comment> \<open>whether the running node is the main node of the shard\<close>
  feEasy :: bool                     \<comment> \<open>whether \<open>op.con\<close> is an \<open>EasyPoW\<close>\<close>

definition FidePrepare ::
  "'d FideEnv \<Rightarrow> mapOrder \<Rightarrow> bool \<Rightarrow> int \<Rightarrow> nat \<Rightarrow> bytes list \<Rightarrow> 'd FideNode \<Rightarrow> (bool \<times> bytes list \<times> 'd FideNode) option" where
  "FidePrepare E ord finished now a vars n =
     do { r \<leftarrow> Monosulfide.GenerateBlock (feLib E) (feConf E) ord finished now a (fnChain n);
          case r of None \<Rightarrow> Some (False, vars, n\<lparr>fnTemp := None, fnScheduled := fnScheduled n + 1\<rparr>)
          | Some block \<Rightarrow> do { v \<leftarrow> FideEncode (feLib E) block; vars' \<leftarrow> setSlot vars 0 v; Some (True, vars', n\<lparr>fnTemp := Some block\<rparr>) } }"

definition FideVerify :: "'d FideEnv \<Rightarrow> bytes list \<Rightarrow> 'd FideNode \<Rightarrow> (bool \<times> 'd FideNode) option" where
  "FideVerify E vars n =
     do { v \<leftarrow> slot vars 0;
          block \<leftarrow> FideDecode (feLib E) 0 (feAt E v) (Some v);
          flag \<leftarrow> Monosulfide.VerifyBlock (feLib E) (feConf E) block (fnChain n);
          Some (flag, if flag then n\<lparr>fnTemp := Some block\<rparr> else n) }"

definition FideExecute :: "'d FideEnv \<Rightarrow> 'd FideNode \<Rightarrow> 'd FideNode option" where
  \<comment> \<open>the test \<open>op.con.(*pow.EasyPoW) == nil\<close> panics unless it is false\<close>
  "FideExecute E n =
     do { block \<leftarrow> fnTemp n;
          c \<leftarrow> Monosulfide.Append (feLib E) (feConf E) (feKV E) (feSched E) (feClock E) (feClock' E) block (fnChain n);
          if feIsMain E \<and> \<not> feEasy E then None else Some (n\<lparr>fnChain := c\<rparr>) }"

definition fideOps :: "'d FideEnv \<Rightarrow> mapOrder \<Rightarrow> bool \<Rightarrow> int \<Rightarrow> nat \<Rightarrow> 'd FideNode Ops" where
  "fideOps E ord finished now a =
     \<lparr>opPrepare = (\<lambda>t vars n. if t = FideTxType then FidePrepare E ord finished now a vars n else None),
      opVerify = (\<lambda>t vars n. if t = FideTxType then FideVerify E vars n else None),
      opExecute = (\<lambda>t n. if t = FideTxType then FideExecute E n else None)\<rparr>"

subsection \<open>The start of the shards\<close>

datatype startCall = EnableCon nat | TicCon nat | GoInternalTx | GoNxtCrossTx | CallResetControl | CalcComm

record MainBegin =
  mbCnt :: int
  mbCalls :: "startCall list"

definition MainBeginReset :: "MainBegin \<Rightarrow> MainBegin" where
  "MainBeginReset st = st\<lparr>mbCnt := 0\<rparr>"

definition MainBeginRequest :: "nodeMap \<Rightarrow> Domain list \<Rightarrow> bytes list option" where
  \<comment> \<open>the addresses of the main nodes\<close>
  "MainBeginRequest nodes ds = mapM (\<lambda>d. do { k \<leftarrow> dMain d; map_option IpAddr (mget nodes k) }) ds"

definition CrossBegin :: "Conf \<Rightarrow> bool \<Rightarrow> nodeMap \<Rightarrow> Domain list \<Rightarrow> bytes list option" where
  \<comment> \<open>whether the node is the main node of its shard\<close>
  "CrossBegin conf isMain nodes ds =
     (if isMain \<or> monoEnable (monoConf conf) \<or> fideEnable (fideConf conf) then MainBeginRequest nodes ds else Some [])"

definition startCalls :: "nat \<Rightarrow> bool \<Rightarrow> bool \<Rightarrow> startCall list" where
  \<comment> \<open>under \<open>config.CrossShardConsensus\<close>, for a b-shard, with \<open>StorageOptimize\<close>\<close>
  "startCalls csc isB opt =
     (if csc = Config.Pyramid then [EnableCon PyrMod, GoInternalTx] @ (if isB then [GoNxtCrossTx] else [])
      else if csc = UniRelay then [EnableCon FideMod] @ (if opt then [CallResetControl] else []) @ [TicCon FideMod, CalcComm]
      else if csc = ClassicRelay then [EnableCon RelayMod, TicCon RelayMod] else [])"

definition MainBeginHandleRequest :: "nat \<Rightarrow> Conf \<Rightarrow> bool \<Rightarrow> bool \<Rightarrow> MainBegin \<Rightarrow> bool \<times> MainBegin" where
  "MainBeginHandleRequest csc conf isB opt st =
     (let st1 = st\<lparr>mbCnt := mbCnt st + 1\<rparr>
      in (True, if mbCnt st1 = int (ShardAmount conf) then st1\<lparr>mbCalls := mbCalls st1 @ startCalls csc isB opt\<rparr> else st1))"

subsection \<open>A mined Monoxide block reaches every node as it was generated\<close>

definition received :: "'d RelayEnv \<Rightarrow> RelayBlock \<Rightarrow> RelayBlock" where
  \<comment> \<open>the copy of a block at the receiver, which has its own address\<close>
  "received R b = b\<lparr>rAddr := reAt R (encRelay (reLib R) b)\<rparr>"

lemma VerifyBlock_received [simp]: "Monoxide.VerifyBlock L (received R b) = Monoxide.VerifyBlock L b"
  by (simp add: received_def Monoxide.VerifyBlock_def)

lemma GenerateBlock_verifies:
  assumes "Monoxide.GenerateBlock L conf ord now a c = Some blocks"
  shows "length blocks = monoShardAmount (monoConf conf)" "b \<in> set blocks \<Longrightarrow> Monoxide.VerifyBlock L b"
proof -
  note m = assms[unfolded Monoxide.GenerateBlock_def mapM_eq_Some]
  show "length blocks = monoShardAmount (monoConf conf)" using list_all2_lengthD[OF m] by simp
  assume "b \<in> set blocks"
  then obtain i where "generateOne L conf ord now a c i = Some b" using m by (auto simp: list_all2_conv_all_nth in_set_conv_nth)
  then show "Monoxide.VerifyBlock L b" by (auto simp: generateOne_def Monoxide.VerifyBlock_def IsVaildTxSet_def bind_eq_Some_conv)
qed

lemma putVars:
  assumes "\<forall>b\<in>set blocks. RelayEncode L b = Some (encRelay L b)" "k + length blocks = length vars"
  shows "foldM (putVar L) (zip [k..<k + length blocks] blocks) vars = Some (take k vars @ map (encRelay L) blocks)"
  using assms
proof (induction blocks arbitrary: k vars)
  case (Cons b bs)
  have "[k..<k + length (b # bs)] = k # [Suc k..<Suc k + length bs]" using upt_conv_Cons[of k "k + length (b # bs)"] by simp
  moreover have "putVar L (k, b) vars = Some (vars[k := encRelay L b])" using Cons.prems by (simp add: putVar_def setSlot_def)
  moreover have "foldM (putVar L) (zip [Suc k..<Suc k + length bs] bs) (vars[k := encRelay L b]) =
      Some (take (Suc k) (vars[k := encRelay L b]) @ map (encRelay L) bs)"
    using Cons.IH[of "Suc k" "vars[k := encRelay L b]"] Cons.prems by simp
  moreover have "take (Suc k) (vars[k := encRelay L b]) = take k vars @ [encRelay L b]"
    using Cons.prems(2) by (simp add: take_Suc_conv_app_nth)
  ultimately show ?case by simp
qed simp

lemma verifyVars:
  assumes "\<forall>b\<in>set blocks. \<forall>x. decRelay (reLib R) (encRelay (reLib R) b) x = Some (b\<lparr>rAddr := x\<rparr>)"
    "\<forall>b\<in>set blocks. Monoxide.VerifyBlock (reLib R) b"
  shows "foldM (verifyVar R) (map (encRelay (reLib R)) blocks) n = Some (n\<lparr>tempBlocks := tempBlocks n @ map (received R) blocks\<rparr>)"
  using assms
proof (induction blocks arbitrary: n)
  case (Cons b bs)
  have "verifyVar R (encRelay (reLib R) b) n = Some (n\<lparr>tempBlocks := tempBlocks n @ [received R b]\<rparr>)"
    using Cons.prems VerifyBlock_received[of "reLib R" R b] by (simp add: verifyVar_def RelayDecode_def received_def)
  then show ?case using Cons by simp
qed simp

text \<open>C12: A miner of Monoxide that has taken a \<open>RelayTx\<close> proposal from its buffer broadcasts one block for each shard, and whoever
  receives the message, the miner included, accepts every block and executes exactly these blocks, in the order of the shards; the
  operation keeps no block for the next round.\<close>
theorem relay_round_delivers:
  fixes E :: "'d RelayEnv"
  assumes pop: "Pop (pwBuffer st) = Some (Some p, buf)" "ReqType p = RelayTxType" "Vars p = RelaySchedule (reConf E)"
    and gen: "Monoxide.GenerateBlock (reLib E) (reConf E) ord now a (rnChain (pwApp st)) = Some blocks" "blocks \<noteq> []"
    and codec: "\<forall>b\<in>set blocks. \<forall>x. decRelay (reLib E) (encRelay (reLib E) b) x = Some (b\<lparr>rAddr := x\<rparr>)"
  obtains m where "EasyPropose (relayOps E ord now a) dst st = Some (st\<lparr>pwLock := False, pwBuffer := buf, pwOut := pwOut st @ [m]\<rparr>)"
    "\<And>(R :: 'd RelayEnv) n ord' now' a'. reLib R = reLib E \<Longrightarrow> tempBlocks (pwApp n) = [] \<Longrightarrow>
       EasyHandleMsg (relayOps R ord' now' a') m n =
         map_option (\<lambda>app. (True, n\<lparr>pwApp := app\<rparr>)) (RelayExecute R ((pwApp n)\<lparr>tempBlocks := map (received R) blocks\<rparr>))"
    "\<And>(R :: 'd RelayEnv) n n'. RelayExecute R n = Some n' \<Longrightarrow> tempBlocks n' = []"
proof -
  let ?L = "reLib E" and ?vars = "map (encRelay (reLib E)) blocks"
  let ?m = "\<lparr>pmType = EasyPoWBroadcast, pmContent = powContent RelayTxType ?vars, pmDest = dst\<rparr>"
  note g = GenerateBlock_verifies[OF gen(1)]
  have enc: "\<forall>b\<in>set blocks. RelayEncode ?L b = Some (encRelay ?L b)" using codec by (simp add: RelayEncode_def)
  have len: "0 + length blocks = length (RelaySchedule (reConf E))" using g(1) by (simp add: RelaySchedule_def)
  have "RelayPrepare E ord now a (Vars p) (pwApp st) = Some (True, ?vars, pwApp st)"
    using putVars[OF enc len] gen pop(3) by (simp add: RelayPrepare_def)
  then have "EasyPropose (relayOps E ord now a) dst st = Some (st\<lparr>pwLock := False, pwBuffer := buf, pwOut := pwOut st @ [?m]\<rparr>)"
    using pop by (simp add: EasyPropose_def powSelect_def powEnable_def relayOps_def)
  moreover have "EasyHandleMsg (relayOps R ord' now' a') ?m n =
      map_option (\<lambda>app. (True, n\<lparr>pwApp := app\<rparr>)) (RelayExecute R ((pwApp n)\<lparr>tempBlocks := map (received R) blocks\<rparr>))"
    if R: "reLib R = ?L" "tempBlocks (pwApp n) = []" for R :: "'d RelayEnv" and n ord' now' a'
  proof -
    have "RelayVerify R ?vars (pwApp n) = Some (True, (pwApp n)\<lparr>tempBlocks := map (received R) blocks\<rparr>)"
      using verifyVars[of blocks R "pwApp n"] codec g(2) R by (simp add: RelayVerify_def)
    then show ?thesis
      by (cases "RelayExecute R ((pwApp n)\<lparr>tempBlocks := map (received R) blocks\<rparr>)")
        (simp_all add: EasyHandleMsg_def verifyExecute_powContent relayOps_def)
  qed
  moreover have "tempBlocks n' = []" if "RelayExecute R n = Some n'" for R :: "'d RelayEnv" and n n'
    using that by (auto simp: RelayExecute_def Let_def bind_eq_Some_conv split: if_splits)
  ultimately show ?thesis using that by blast
qed

text \<open>C13: One block with a wrong Merkle root in a \<open>RelayTx\<close> message ends the program of every node that receives it, whoever has
  sent it.\<close>
theorem relay_bad_block_panics:
  assumes "v \<in> set vars" "decRelay (reLib R) v (reAt R v) = Some block" "\<not> Monoxide.VerifyBlock (reLib R) block"
  shows "EasyHandleMsg (relayOps R ord now a) \<lparr>pmType = EasyPoWBroadcast, pmContent = powContent RelayTxType vars, pmDest = dst\<rparr> n = None"
proof -
  have "verifyVar R v s = None" for s using assms(2,3) by (simp add: verifyVar_def RelayDecode_def)
  then have "foldM (verifyVar R) vars s = None" for s
    using assms(1)
  proof (induction vars arbitrary: s)
    case (Cons x xs)
    then show ?case by (cases "verifyVar R x s") auto
  qed simp
  then show ?thesis by (simp add: EasyHandleMsg_def verifyExecute_powContent relayOps_def RelayVerify_def)
qed

subsection \<open>A mined Monosulfide block extends the view of its receivers\<close>

lemma GenerateBlock_addr:
  assumes "Monosulfide.GenerateBlock L conf ord finished now a c = Some (Some b)"
  shows "Monosulfide.GenerateBlock L conf ord finished now x c = Some (Some (b\<lparr>addr := x\<rparr>))"
  using assms by (auto simp: Monosulfide.GenerateBlock_def Let_def bind_eq_Some_conv split: if_splits)

text \<open>C14: As long as every appended block sits on the view, a miner of Monosulfide that has taken a \<open>FideTx\<close> proposal broadcasts a
  block that every receiver with the same chain, the miner included, accepts and appends.\<close>
theorem fide_round_delivers:
  fixes E :: "'d FideEnv"
  assumes run: "started (feLib E) (feConf E) idTop shard a0 db c0" "foldM (extendView (feLib E) (feConf E) kv) ops c0 = Some c"
    and pop: "Pop (pwBuffer st) = Some (Some p, buf)" "ReqType p = FideTxType" "length (Vars p) = 1"
    and gen: "fnChain (pwApp st) = c" "Monosulfide.GenerateBlock (feLib E) (feConf E) ord finished now a c = Some (Some b)"
    and codec: "\<forall>x. decFide (feLib E) (encFide (feLib E) b) x = Some (b\<lparr>addr := x\<rparr>)"
  obtains m where
    "EasyPropose (fideOps E ord finished now a) dst st =
       Some (st\<lparr>pwLock := False, pwBuffer := buf, pwApp := (pwApp st)\<lparr>fnTemp := Some b\<rparr>, pwOut := pwOut st @ [m]\<rparr>)"
    "\<And>(R :: 'd FideEnv) n ord' finished' now' a'. feLib R = feLib E \<Longrightarrow> feConf R = feConf E \<Longrightarrow> fnChain (pwApp n) = c \<Longrightarrow>
       EasyHandleMsg (fideOps R ord' finished' now' a') m n =
         map_option (\<lambda>app. (True, n\<lparr>pwApp := app\<rparr>))
           (FideExecute R ((pwApp n)\<lparr>fnTemp := Some (b\<lparr>addr := feAt R (encFide (feLib E) b)\<rparr>)\<rparr>))"
proof -
  let ?L = "feLib E" and ?v = "encFide (feLib E) b"
  let ?m = "\<lparr>pmType = EasyPoWBroadcast, pmContent = powContent FideTxType [?v], pmDest = dst\<rparr>"
  obtain v0 where vars: "Vars p = [v0]" using pop(3) by (cases "Vars p") auto
  have "FidePrepare E ord finished now a (Vars p) (pwApp st) = Some (True, [?v], (pwApp st)\<lparr>fnTemp := Some b\<rparr>)"
    using gen codec vars by (simp add: FidePrepare_def FideEncode_def setSlot_def)
  then have sent: "EasyPropose (fideOps E ord finished now a) dst st =
      Some (st\<lparr>pwLock := False, pwBuffer := buf, pwApp := (pwApp st)\<lparr>fnTemp := Some b\<rparr>, pwOut := pwOut st @ [?m]\<rparr>)"
    using pop by (simp add: EasyPropose_def powSelect_def powEnable_def fideOps_def)
  have ver: "Monosulfide.VerifyBlock ?L (feConf E) (b\<lparr>addr := x\<rparr>) c = Some True" for x
    using view_generates[OF run GenerateBlock_addr[OF gen(2)]] by blast
  have recv: "EasyHandleMsg (fideOps R ord' finished' now' a') ?m n =
      map_option (\<lambda>app. (True, n\<lparr>pwApp := app\<rparr>)) (FideExecute R ((pwApp n)\<lparr>fnTemp := Some (b\<lparr>addr := feAt R ?v\<rparr>)\<rparr>))"
    if R: "feLib R = ?L" "feConf R = feConf E" "fnChain (pwApp n) = c" for R :: "'d FideEnv" and n ord' finished' now' a'
  proof -
    have "FideVerify R [?v] (pwApp n) = Some (True, (pwApp n)\<lparr>fnTemp := Some (b\<lparr>addr := feAt R ?v\<rparr>)\<rparr>)"
      using codec ver R by (simp add: FideVerify_def slot_def FideDecode_def)
    then show ?thesis
      by (cases "FideExecute R ((pwApp n)\<lparr>fnTemp := Some (b\<lparr>addr := feAt R ?v\<rparr>)\<rparr>)")
        (simp_all add: EasyHandleMsg_def verifyExecute_powContent fideOps_def)
  qed
  show ?thesis by (rule that[OF sent recv])
qed

text \<open>A block that does not pass the check of a receiver is ignored by it, and what it keeps from earlier rounds stays.\<close>
lemma fide_refused:
  assumes "FideDecode (feLib R) 0 (feAt R v) (Some v) = Some block" "Monosulfide.VerifyBlock (feLib R) (feConf R) block (fnChain (pwApp n)) = Some False"
  shows "EasyHandleMsg (fideOps R ord finished now a) \<lparr>pmType = EasyPoWBroadcast, pmContent = powContent FideTxType [v], pmDest = dst\<rparr> n =
    Some (True, n)"
  using assms by (simp add: EasyHandleMsg_def verifyExecute_powContent fideOps_def FideVerify_def slot_def)

subsection \<open>The start\<close>

text \<open>The shards start exactly once, at the request that makes the count the number of shards.  Where every node sends the
  requests, as in Monosulfide and Monoxide, the nodes of one shard make up the whole count.\<close>
theorem main_begin_once:
  assumes "mbCnt st = 0" "mbCalls st = []"
  shows "mbCalls (((\<lambda>s. snd (MainBeginHandleRequest csc conf isB opt s)) ^^ k) st) =
      (if 0 < ShardAmount conf \<and> ShardAmount conf \<le> k then startCalls csc isB opt else [])"
    and "fideEnable (fideConf conf) \<or> monoEnable (monoConf conf) \<Longrightarrow> CrossBegin conf False nodes ds = CrossBegin conf True nodes ds"
proof -
  have "mbCnt (((\<lambda>s. snd (MainBeginHandleRequest csc conf isB opt s)) ^^ k) st) = int k \<and>
     mbCalls (((\<lambda>s. snd (MainBeginHandleRequest csc conf isB opt s)) ^^ k) st) =
      (if 0 < ShardAmount conf \<and> ShardAmount conf \<le> k then startCalls csc isB opt else [])"
  proof (induction k)
    case 0
    show ?case using assms by auto
  next
    case (Suc k)
    then show ?case by (auto simp: MainBeginHandleRequest_def Let_def)
  qed
  then show "mbCalls (((\<lambda>s. snd (MainBeginHandleRequest csc conf isB opt s)) ^^ k) st) =
      (if 0 < ShardAmount conf \<and> ShardAmount conf \<le> k then startCalls csc isB opt else [])" by blast
  show "fideEnable (fideConf conf) \<or> monoEnable (monoConf conf) \<Longrightarrow> CrossBegin conf False nodes ds = CrossBegin conf True nodes ds"
    by (auto simp: CrossBegin_def)
qed

subsection \<open>Examples\<close>

definition relayChain0 :: "((bytes \<times> bytes) \<times> bytes) list RelayChain" where
  \<comment> \<open>with a transaction inside shard 0 in the pool\<close>
  "relayChain0 = (case do { c \<leftarrow> NewRelayChain relayLib relayConf ''z'' 0 0 [];
       pool \<leftarrow> TxPool.Append relayConf (txHash relayLib) (demoTx ''00000000'' ''00000002'') (mxPool c);
       Some (c\<lparr>mxPool := pool\<rparr>) } of Some c \<Rightarrow> c | None \<Rightarrow> undefined)"

definition relayGen :: "RelayBlock list" where
  "relayGen = (case Monoxide.GenerateBlock relayLib relayConf (\<lambda>kvs. kvs) 7 9 relayChain0 of Some bs \<Rightarrow> bs | None \<Rightarrow> [])"

definition relayKey :: "RelayBlock \<Rightarrow> bytes" where
  "relayKey b = replicate (unat (rNonce (rH b))) CHR ''s''"

definition relayTable :: "bytes \<Rightarrow> nat \<Rightarrow> RelayBlock option" where
  "relayTable y x = map_option (\<lambda>b. b\<lparr>rAddr := x\<rparr>) (slot relayGen (length y))"

definition relayMinedLib :: Lib where
  \<comment> \<open>the blocks of one round are coded by their shards\<close>
  "relayMinedLib = relayLib\<lparr>encRelay := relayKey, decRelay := relayTable\<rparr>"

definition relayEnv :: "bool \<Rightarrow> ((bytes \<times> bytes) \<times> bytes) list RelayEnv" where
  "relayEnv atMain = \<lparr>reLib = relayMinedLib, reConf = relayConf, reKV = demoKV, reAt = length, reMainPort = atMain\<rparr>"

definition relayMiner :: "((bytes \<times> bytes) \<times> bytes) list RelayNode Pow" where
  "relayMiner = (NewPoWConsensus \<lparr>rnChain = relayChain0, tempBlocks = [], rnStopped = False\<rparr>)\<lparr>pwLock := False,
     pwBuffer := NewProposalBuffer\<lparr>pros := [None, Some \<lparr>ReqType = RelayTxType, Vars = RelaySchedule relayConf\<rparr>]\<rparr>\<rparr>"

lemma relay_gen:
  "Monoxide.GenerateBlock relayMinedLib relayConf (\<lambda>kvs. kvs) 7 9 relayChain0 = Some relayGen"
  "list_all (\<lambda>b. slot relayGen (length (relayKey b)) = Some b) relayGen"
  "length relayGen = 2" "concat (map (\<lambda>b. Intra (rB b)) relayGen) = [demoTx ''00000000'' ''00000002'']"
  by code_simp+

lemma relay_codec: "\<forall>b\<in>set relayGen. \<forall>x. decRelay relayMinedLib (encRelay relayMinedLib b) x = Some (b\<lparr>rAddr := x\<rparr>)"
proof (intro ballI allI)
  fix b x assume "b \<in> set relayGen"
  then have "slot relayGen (length (relayKey b)) = Some b"
    using relay_gen(2) unfolding list_all_iff by blast
  then show "decRelay relayMinedLib (encRelay relayMinedLib b) x = Some (b\<lparr>rAddr := x\<rparr>)"
    by (simp add: relayMinedLib_def relayTable_def)
qed

theorem relay_round_delivers_witness:
  "\<exists>m buf app. EasyPropose (relayOps (relayEnv True) (\<lambda>kvs. kvs) 7 9) ''all'' relayMiner =
       Some (relayMiner\<lparr>pwLock := False, pwBuffer := buf, pwOut := [m]\<rparr>) \<and>
     EasyHandleMsg (relayOps (relayEnv False) (\<lambda>kvs. kvs) 0 0) m relayMiner = Some (True, relayMiner\<lparr>pwApp := app\<rparr>) \<and>
     tempBlocks app = [] \<and> hashAt (mxTop (rnChain app)) 0 = ''-ttttttt''"
proof -
  have "(case Pop (pwBuffer relayMiner) of Some (Some p, buf) \<Rightarrow> p = \<lparr>ReqType = RelayTxType, Vars = RelaySchedule relayConf\<rparr> | _ \<Rightarrow> False)"
    by code_simp
  then obtain buf where pop: "Pop (pwBuffer relayMiner) = Some (Some \<lparr>ReqType = RelayTxType, Vars = RelaySchedule relayConf\<rparr>, buf)"
    by (auto split: option.splits prod.splits)
  have e: "reLib (relayEnv atMain) = relayMinedLib" "reConf (relayEnv atMain) = relayConf" for atMain by (simp_all add: relayEnv_def)
  have s: "rnChain (pwApp relayMiner) = relayChain0" "tempBlocks (pwApp relayMiner) = []" "pwOut relayMiner = []"
    by (simp_all add: relayMiner_def NewPoWConsensus_def)
  have ne: "relayGen \<noteq> []" using relay_gen(3) by auto
  have "(case RelayExecute (relayEnv False) ((pwApp relayMiner)\<lparr>tempBlocks := map (received (relayEnv False)) relayGen\<rparr>) of
      Some app \<Rightarrow> tempBlocks app = [] \<and> hashAt (mxTop (rnChain app)) 0 = ''-ttttttt'' | None \<Rightarrow> False)" by code_simp
  then obtain app where app: "RelayExecute (relayEnv False) ((pwApp relayMiner)\<lparr>tempBlocks := map (received (relayEnv False)) relayGen\<rparr>) = Some app"
    "tempBlocks app = []" "hashAt (mxTop (rnChain app)) 0 = ''-ttttttt''" by (auto split: option.splits)
  have gen: "Monoxide.GenerateBlock (reLib (relayEnv True)) (reConf (relayEnv True)) (\<lambda>kvs. kvs) 7 9 (rnChain (pwApp relayMiner)) = Some relayGen"
    unfolding e s by (rule relay_gen)
  have codec: "\<forall>b\<in>set relayGen. \<forall>x. decRelay (reLib (relayEnv True)) (encRelay (reLib (relayEnv True)) b) x = Some (b\<lparr>rAddr := x\<rparr>)"
    unfolding e by (rule relay_codec)
  have req: "ReqType \<lparr>ReqType = RelayTxType, Vars = RelaySchedule relayConf\<rparr> = RelayTxType"
    "Vars \<lparr>ReqType = RelayTxType, Vars = RelaySchedule relayConf\<rparr> = RelaySchedule (reConf (relayEnv True))" by (simp_all add: e)
  obtain m where m:
    "EasyPropose (relayOps (relayEnv True) (\<lambda>kvs. kvs) 7 9) ''all'' relayMiner =
       Some (relayMiner\<lparr>pwLock := False, pwBuffer := buf, pwOut := pwOut relayMiner @ [m]\<rparr>)"
    "\<And>(R :: ((bytes \<times> bytes) \<times> bytes) list RelayEnv) n ord' now' a'. reLib R = reLib (relayEnv True) \<Longrightarrow> tempBlocks (pwApp n) = [] \<Longrightarrow>
       EasyHandleMsg (relayOps R ord' now' a') m n =
         map_option (\<lambda>app. (True, n\<lparr>pwApp := app\<rparr>)) (RelayExecute R ((pwApp n)\<lparr>tempBlocks := map (received R) relayGen\<rparr>))"
    by (rule relay_round_delivers[OF pop req gen ne codec, of "''all''"]) (rule that, assumption+)
  have "EasyHandleMsg (relayOps (relayEnv False) (\<lambda>kvs. kvs) 0 0) m relayMiner = Some (True, relayMiner\<lparr>pwApp := app\<rparr>)"
    unfolding m(2)[OF e(1)[of False, folded e(1)[of True]] s(2)] app(1) by simp
  then show ?thesis using m(1)[unfolded s(3) append_Nil] app(2,3) by blast
qed

definition badBlock :: RelayBlock where
  "badBlock = (demoRelay 1 ''-'')\<lparr>rH := (rH (demoRelay 1 ''-''))\<lparr>ConfirmedTxRoot := ''bad''\<rparr>\<rparr>"

definition badEnv :: "((bytes \<times> bytes) \<times> bytes) list RelayEnv" where
  "badEnv = (relayEnv False)\<lparr>reLib := relayLib\<lparr>decRelay := \<lambda>y x. Some badBlock\<rparr>\<rparr>"

theorem relay_bad_block_panics_witness:
  "\<not> Monoxide.VerifyBlock (reLib badEnv) badBlock \<and>
   EasyHandleMsg (relayOps badEnv (\<lambda>kvs. kvs) 0 0)
     \<lparr>pmType = EasyPoWBroadcast, pmContent = powContent RelayTxType [''x'', ''bad''], pmDest = ''all''\<rparr> relayMiner = None"
proof -
  have v: "''bad'' \<in> set [''x'', ''bad'']" "decRelay (reLib badEnv) ''bad'' (reAt badEnv ''bad'') = Some badBlock" by (simp_all add: badEnv_def)
  have b: "\<not> Monoxide.VerifyBlock (reLib badEnv) badBlock" by code_simp
  from relay_bad_block_panics[OF v b] b show ?thesis by blast
qed

theorem main_begin_once_witness:
  "mbCalls (((\<lambda>s. snd (MainBeginHandleRequest ClassicRelay relayConf False False s)) ^^ 3) \<lparr>mbCnt = 0, mbCalls = []\<rparr>) =
     [EnableCon RelayMod, TicCon RelayMod] \<and>
   CrossBegin relayConf False nodes ds = CrossBegin relayConf True nodes ds"
proof -
  let ?st = "\<lparr>mbCnt = 0, mbCalls = []\<rparr>"
  have c: "ShardAmount relayConf = 2" "monoEnable (monoConf relayConf)" "startCalls ClassicRelay False False = [EnableCon RelayMod, TicCon RelayMod]"
    by code_simp+
  have "mbCnt ?st = 0" "mbCalls ?st = []" by simp_all
  note m = main_begin_once(1)[OF this, where csc = ClassicRelay and conf = relayConf and isB = False and opt = False and k = 3] main_begin_once(2)[OF this, where conf = relayConf and nodes = nodes and ds = ds]
  show ?thesis using m(1) m(2) c by simp
qed

definition fideMined :: FideBlock where
  "fideMined = (case foldM (changePool fideLib forkConf) (take 3 viewOps) forkStart of None \<Rightarrow> undefined
     | Some c \<Rightarrow> (case Monosulfide.GenerateBlock fideLib forkConf (\<lambda>kvs. kvs) False 7 9 c of Some (Some b) \<Rightarrow> b | _ \<Rightarrow> undefined))"

definition fideTable :: "bytes \<Rightarrow> nat \<Rightarrow> FideBlock option" where
  "fideTable y x = Some (fideMined\<lparr>addr := x\<rparr>)"

definition fideMinedLib :: Lib where
  "fideMinedLib = fideLib\<lparr>decFide := fideTable\<rparr>"

definition fideEnv :: "((bytes \<times> bytes) \<times> bytes) list FideEnv" where
  "fideEnv = \<lparr>feLib = fideMinedLib, feConf = forkConf, feKV = demoKV, feAt = length, feSched = keyOrder, feClock = ticks, feClock' = ticks,
     feIsMain = True, feEasy = True\<rparr>"

definition fideMiner :: "((bytes \<times> bytes) \<times> bytes) list FideChain \<Rightarrow> ((bytes \<times> bytes) \<times> bytes) list FideNode Pow" where
  "fideMiner c = (NewPoWConsensus \<lparr>fnChain = c, fnTemp = None, fnScheduled = 0\<rparr>)\<lparr>pwLock := False,
     pwBuffer := NewProposalBuffer\<lparr>pros := [None, Some \<lparr>ReqType = FideTxType, Vars = [[]]\<rparr>]\<rparr>\<rparr>"

lemma fideMined_start: "started fideMinedLib forkConf ''z'' 0 0 [] forkStart"
proof -
  have "NewFideChain fideMinedLib forkConf ''z'' 0 0 [] = NewFideChain fideLib forkConf ''z'' 0 0 ([] :: ((bytes \<times> bytes) \<times> bytes) list)"
    by (simp add: NewFideChain_def fideMinedLib_def FideBHash_def)
  then have "NewFideChain fideMinedLib forkConf ''z'' 0 0 [] = Some forkStart" using forkStart by (simp add: started_def)
  moreover have "shards forkConf = ShardAmount forkConf" "0 < shards forkConf" by code_simp+
  moreover have "FideBHash fideMinedLib (fideGenesis forkConf ''z'' 0) \<noteq> ''z''" by code_simp
  ultimately show ?thesis by (simp add: started_def)
qed

lemma fideMined_run:
  "\<exists>c app. foldM (extendView fideMinedLib forkConf demoKV) (take 3 viewOps) forkStart = Some c \<and>
     Monosulfide.GenerateBlock fideMinedLib forkConf (\<lambda>kvs. kvs) False 7 9 c = Some (Some fideMined) \<and>
     FideExecute fideEnv \<lparr>fnChain = c, fnTemp = Some (fideMined\<lparr>addr := length (encFide fideMinedLib fideMined)\<rparr>), fnScheduled = 0\<rparr> = Some app \<and>
     hashAt (fcTop (fnChain app)) (fideSid fideMined) = FideBHash fideMinedLib fideMined"
proof -
  have "case foldM (changePool fideMinedLib forkConf) (take 3 viewOps) forkStart of None \<Rightarrow> False | Some c \<Rightarrow>
     Monosulfide.GenerateBlock fideMinedLib forkConf (\<lambda>kvs. kvs) False 7 9 c = Some (Some fideMined) \<and>
     (case FideExecute fideEnv \<lparr>fnChain = c, fnTemp = Some (fideMined\<lparr>addr := length (encFide fideMinedLib fideMined)\<rparr>), fnScheduled = 0\<rparr> of
        None \<Rightarrow> False | Some app \<Rightarrow> hashAt (fcTop (fnChain app)) (fideSid fideMined) = FideBHash fideMinedLib fideMined)"
    by code_simp
  then obtain c app where c: "foldM (changePool fideMinedLib forkConf) (take 3 viewOps) forkStart = Some c"
    "Monosulfide.GenerateBlock fideMinedLib forkConf (\<lambda>kvs. kvs) False 7 9 c = Some (Some fideMined)"
    "FideExecute fideEnv \<lparr>fnChain = c, fnTemp = Some (fideMined\<lparr>addr := length (encFide fideMinedLib fideMined)\<rparr>), fnScheduled = 0\<rparr> = Some app"
    "hashAt (fcTop (fnChain app)) (fideSid fideMined) = FideBHash fideMinedLib fideMined"
    by (auto split: option.splits)
  have "foldM (extendView fideMinedLib forkConf demoKV) (take 3 viewOps) forkStart = Some c" using c(1) by (simp add: viewOps_def)
  then show ?thesis using c(2-4) by blast
qed

theorem fide_round_delivers_witness:
  "\<exists>c m buf app. foldM (extendView fideMinedLib forkConf demoKV) (take 3 viewOps) forkStart = Some c \<and>
     EasyPropose (fideOps fideEnv (\<lambda>kvs. kvs) False 7 9) ''all'' (fideMiner c) =
       Some ((fideMiner c)\<lparr>pwLock := False, pwBuffer := buf, pwApp := (pwApp (fideMiner c))\<lparr>fnTemp := Some fideMined\<rparr>, pwOut := [m]\<rparr>) \<and>
     EasyHandleMsg (fideOps fideEnv (\<lambda>kvs. kvs) False 0 0) m (fideMiner c) = Some (True, (fideMiner c)\<lparr>pwApp := app\<rparr>) \<and>
     hashAt (fcTop (fnChain app)) (fideSid fideMined) = FideBHash fideMinedLib fideMined"
proof -
  obtain c app where run: "foldM (extendView fideMinedLib forkConf demoKV) (take 3 viewOps) forkStart = Some c"
    and gen0: "Monosulfide.GenerateBlock fideMinedLib forkConf (\<lambda>kvs. kvs) False 7 9 c = Some (Some fideMined)"
    and app: "FideExecute fideEnv \<lparr>fnChain = c, fnTemp = Some (fideMined\<lparr>addr := length (encFide fideMinedLib fideMined)\<rparr>), fnScheduled = 0\<rparr> = Some app"
      "hashAt (fcTop (fnChain app)) (fideSid fideMined) = FideBHash fideMinedLib fideMined"
    using fideMined_run by blast
  have buf: "pwBuffer (fideMiner c) = NewProposalBuffer\<lparr>pros := [None, Some \<lparr>ReqType = FideTxType, Vars = [[]]\<rparr>]\<rparr>"
    and s: "pwApp (fideMiner c) = \<lparr>fnChain = c, fnTemp = None, fnScheduled = 0\<rparr>" "pwOut (fideMiner c) = []"
    by (simp_all add: fideMiner_def NewPoWConsensus_def)
  have "(case Pop (NewProposalBuffer\<lparr>pros := [None, Some \<lparr>ReqType = FideTxType, Vars = [[]]\<rparr>]\<rparr>) of
      Some (Some p, buf) \<Rightarrow> p = \<lparr>ReqType = FideTxType, Vars = [[]]\<rparr> | _ \<Rightarrow> False)" by code_simp
  then obtain b where pop: "Pop (pwBuffer (fideMiner c)) = Some (Some \<lparr>ReqType = FideTxType, Vars = [[]]\<rparr>, b)"
    unfolding buf by (auto split: option.splits prod.splits)
  have req: "ReqType \<lparr>ReqType = FideTxType, Vars = [[]]\<rparr> = FideTxType" "length (Vars \<lparr>ReqType = FideTxType, Vars = [[]]\<rparr>) = 1" by simp_all
  have e: "feLib fideEnv = fideMinedLib" "feConf fideEnv = forkConf" "feAt fideEnv = length" by (simp_all add: fideEnv_def)
  have start: "started (feLib fideEnv) (feConf fideEnv) ''z'' 0 0 [] forkStart" unfolding e by (rule fideMined_start)
  have run': "foldM (extendView (feLib fideEnv) (feConf fideEnv) demoKV) (take 3 viewOps) forkStart = Some c" unfolding e by (rule run)
  have chain: "fnChain (pwApp (fideMiner c)) = c" by (simp add: s)
  have gen: "Monosulfide.GenerateBlock (feLib fideEnv) (feConf fideEnv) (\<lambda>kvs. kvs) False 7 9 c = Some (Some fideMined)"
    unfolding e by (rule gen0)
  have codec: "\<forall>x. decFide (feLib fideEnv) (encFide (feLib fideEnv) fideMined) x = Some (fideMined\<lparr>addr := x\<rparr>)"
    by (simp add: e fideMinedLib_def fideTable_def)
  obtain m where m:
    "EasyPropose (fideOps fideEnv (\<lambda>kvs. kvs) False 7 9) ''all'' (fideMiner c) =
       Some ((fideMiner c)\<lparr>pwLock := False, pwBuffer := b, pwApp := (pwApp (fideMiner c))\<lparr>fnTemp := Some fideMined\<rparr>,
         pwOut := pwOut (fideMiner c) @ [m]\<rparr>)"
    "\<And>(R :: ((bytes \<times> bytes) \<times> bytes) list FideEnv) n ord' finished' now' a'. feLib R = feLib fideEnv \<Longrightarrow> feConf R = feConf fideEnv \<Longrightarrow>
       fnChain (pwApp n) = c \<Longrightarrow> EasyHandleMsg (fideOps R ord' finished' now' a') m n =
         map_option (\<lambda>app. (True, n\<lparr>pwApp := app\<rparr>))
           (FideExecute R ((pwApp n)\<lparr>fnTemp := Some (fideMined\<lparr>addr := feAt R (encFide (feLib fideEnv) fideMined)\<rparr>)\<rparr>))"
    by (rule fide_round_delivers[OF start run' pop req chain gen codec, of "''all''"]) (rule that, assumption+)
  have "(pwApp (fideMiner c))\<lparr>fnTemp := Some (fideMined\<lparr>addr := feAt fideEnv (encFide (feLib fideEnv) fideMined)\<rparr>)\<rparr> =
      \<lparr>fnChain = c, fnTemp = Some (fideMined\<lparr>addr := length (encFide fideMinedLib fideMined)\<rparr>), fnScheduled = 0\<rparr>" by (simp add: s e)
  then have "EasyHandleMsg (fideOps fideEnv (\<lambda>kvs. kvs) False 0 0) m (fideMiner c) = Some (True, (fideMiner c)\<lparr>pwApp := app\<rparr>)"
    unfolding m(2)[OF refl refl chain] using app(1) by simp
  then show ?thesis using run m(1)[unfolded s(2) append_Nil] app(2) by blast
qed

end
