(* ===== verification/Inject.thy ===== *)
theory Inject
  imports TxPool Shards Wire
begin

text \<open>
  The injection of transactions, \<^verbatim>\<open>src/AutoTx/txManage.go\<close>, and the resolution of the addresses of a message,
  \<^verbatim>\<open>_launchPad\<close> in \<^verbatim>\<open>src/launch/msgLaunch.go\<close>.

  The rows of the input file are what \<open>csv.Reader\<close> gives.  The JSON coding of a list of transactions is an argument, as is the clock:
  \<open>now k\<close> is the time of the \<open>k\<close>-th transaction of a batch.  \<open>perSend\<close> is \<open>int(float64(InjectSpeed) * intervalInSeconds)\<close>.  Between the
  sends the code sleeps.  A node map is iterated in the order of its list.
\<close>

subsection \<open>Reading\<close>

record TxManager =
  totalDataAmount :: int
  batchDataAmount :: int
  dataCnt :: int

definition NewTxManager :: "int \<Rightarrow> int \<Rightarrow> TxManager" where
  "NewTxManager amount batch = \<lparr>totalDataAmount = amount, batchDataAmount = batch, dataCnt = 0\<rparr>"

definition bigSetString :: "bytes \<Rightarrow> int option" where
  \<comment> \<open>\<open>SetString\<close> of \<open>big.Int\<close> for base 10; \<open>None\<close> when the text is not a numeral\<close>
  "bigSetString s =
     (let (neg, ds) = (case s of [] \<Rightarrow> (False, []) | c # cs \<Rightarrow>
          if c = CHR ''-'' then (True, cs) else if c = CHR ''+'' then (False, cs) else (False, s))
      in if ds = [] then None else map_option (\<lambda>v. if neg then - int v else int v) (decVal 0 ds))"

definition data2tx :: "bytes list \<Rightarrow> 64 word \<Rightarrow> Transaction option option" where
  \<comment> \<open>\<open>Some None\<close> for a row that is not a plain transfer\<close>
  "data2tx d nonce =
     do { d6 \<leftarrow> slot d 6;
          if d6 \<noteq> ''0'' then Some None
          else do { d7 \<leftarrow> slot d 7; d3 \<leftarrow> slot d 3; d4 \<leftarrow> slot d 4;
                    if d7 = ''0'' \<and> length d3 > 16 \<and> length d4 > 16 \<and> d3 \<noteq> d4
                    then do { d8 \<leftarrow> slot d 8; val \<leftarrow> bigSetString d8;
                              Some (Some (NewTransaction (drop 2 d3) (drop 2 d4) (Some val) nonce PryTx)) }
                    else Some None } }"

fun readLoop :: "bytes list list \<Rightarrow> TxManager \<Rightarrow> Transaction list \<Rightarrow> (Transaction list list \<times> TxManager) option" where
  \<comment> \<open>the loop of \<open>MsgSendingControl\<close>: the arguments of its calls of \<open>sending\<close>\<close>
  "readLoop [] tm txList = Some ([], tm)"
| "readLoop (row # rows) tm txList =
     do { r \<leftarrow> data2tx row (word_of_int (dataCnt tm));
          let (txs, tm1) = (case r of Some tx \<Rightarrow> (txList @ [tx], tm\<lparr>dataCnt := dataCnt tm + 1\<rparr>) | None \<Rightarrow> (txList, tm))
          in if int (length txs) = batchDataAmount tm1 \<or> dataCnt tm1 = totalDataAmount tm1
             then if dataCnt tm1 = totalDataAmount tm1 then Some ([txs], tm1)
                  else do { (batches, tm2) \<leftarrow> readLoop rows tm1 []; Some (txs # batches, tm2) }
             else readLoop rows tm1 txs }"

definition MsgSendingControl :: "bytes list list \<Rightarrow> TxManager \<Rightarrow> (Transaction list list \<times> TxManager) option" where
  "MsgSendingControl rows tm = readLoop rows tm []"

subsection \<open>Sending\<close>

type_synonym txBuffer = "(nat, Transaction list) gomap"

definition bufferTx :: "Conf \<Rightarrow> int \<Rightarrow> Transaction \<Rightarrow> txBuffer \<Rightarrow> txBuffer option" where
  "bufferTx conf t tx buf =
     map_option (\<lambda>is. fold (\<lambda>i b. mput i (getOr b i [] @ [tx\<lparr>Time := t\<rparr>]) b) is buf) (RelatedShards conf tx)"

fun sendLoop :: "Conf \<Rightarrow> (nat \<Rightarrow> int) \<Rightarrow> nat \<Rightarrow> nat \<Rightarrow> Transaction list \<Rightarrow> txBuffer \<Rightarrow> txBuffer list option" where
  \<comment> \<open>from the index \<open>k\<close>: the buffers given to \<open>SendTxs\<close>\<close>
  "sendLoop conf now batchSize k [] buf = Some []"
| "sendLoop conf now batchSize k (tx # txs) buf =
     do { b \<leftarrow> bufferTx conf (now k) tx buf;
          if Suc k mod batchSize = 0 \<or> txs = []
          then map_option (Cons b) (sendLoop conf now batchSize (Suc k) txs [])
          else sendLoop conf now batchSize (Suc k) txs b }"

definition sending :: "Conf \<Rightarrow> (nat \<Rightarrow> int) \<Rightarrow> int \<Rightarrow> Transaction list \<Rightarrow> txBuffer list option" where
  "sending conf now perSend txs = sendLoop conf now (nat (if perSend < 1 then 1 else perSend)) 0 txs []"

record TxMsg =
  tmMode :: nat              \<comment> \<open>the consensus the message is signed for\<close>
  tmDest :: bytes
  tmContent :: bytes

definition nodeAddrs :: "nodeMap \<Rightarrow> Domain \<Rightarrow> bytes list option" where
  "nodeAddrs nodes d = mapM (\<lambda>k. map_option IpAddr (mget nodes k)) (dMap d)"

definition modeOf :: "Conf \<Rightarrow> nat option" where
  "modeOf conf = (if pyrEnable (pyrConf conf) then Some PyrMod else if fideEnable (fideConf conf) then Some FideMod
     else if monoEnable (monoConf conf) then Some RelayMod else None)"

definition SendTxs :: "(Transaction list \<Rightarrow> bytes) \<Rightarrow> Conf \<Rightarrow> nodeMap \<Rightarrow> Domain list \<Rightarrow> txBuffer \<Rightarrow> TxMsg list option" where
  \<comment> \<open>\<open>ds\<close> is \<open>GlobalShards\<close> of the design that is enabled\<close>
  "SendTxs Txs2Bytes conf nodes ds buf =
     (case modeOf conf of None \<Rightarrow> Some []
      | Some mode \<Rightarrow>
          map_option concat (mapM (\<lambda>i. do { d \<leftarrow> slot ds i;
             addrs \<leftarrow> nodeAddrs nodes d;
             Some (map (\<lambda>a. \<lparr>tmMode = mode, tmDest = a, tmContent = NewByteContent [Txs2Bytes (getOr buf i [])]\<rparr>) addrs) })
           [0..<ShardAmount conf]))"

definition SendEOF :: "nodeMap \<Rightarrow> bytes list" where
  "SendEOF nodes = map (\<lambda>(k, n). IpAddr n) nodes"

definition HandleSendTxs ::
  "(bytes \<Rightarrow> Transaction list option) \<Rightarrow> Conf \<Rightarrow> txHasher \<Rightarrow> nat \<Rightarrow> bytes \<Rightarrow> Pool \<Rightarrow> Pool option" where
  \<comment> \<open>\<open>waits\<close> rounds pass before the shards have been formed\<close>
  "HandleSendTxs ParseTxs conf H waits content pool =
     (if pyrEnable (pyrConf conf) \<and> 128 \<le> waits \<or> fideEnable (fideConf conf) \<and> 32 \<le> waits then None
      else do { c \<leftarrow> slot (ParseContent content) 0;
                txs \<leftarrow> ParseTxs c;
                foldM (\<lambda>tx p. TxPool.Append conf H tx p) txs pool })"

subsection \<open>The addresses of a message\<close>

definition IdRunningAddr :: bytes where "IdRunningAddr = ''IdRunningAddr''"
definition IdLegalAddr :: bytes where "IdLegalAddr = ''IdLegalAddr''"
definition PyrRunningAddr :: bytes where "PyrRunningAddr = ''pyramidRunningAddr''"
definition FideRunningAddr :: bytes where "FideRunningAddr = ''FideRunningAddr''"
definition PyramidMainAddr :: bytes where "PyramidMainAddr = ''PyramidMainAddr''"
definition PyramidRelateI :: bytes where "PyramidRelateI = ''PyramidRelateI''"

record LaunchEnv =
  leNodes :: nodeMap
  leShards :: "Domain list"
  leLocal :: "Domain option"           \<comment> \<open>the local shard, \<open>nil\<close> before it is formed\<close>
  leRelI :: "nat list"

definition nodesOf :: "LaunchEnv \<Rightarrow> Domain \<Rightarrow> Node list option" where
  "nodesOf E d = mapM (mget (leNodes E)) (dMap d)"

definition mainAddr :: "LaunchEnv \<Rightarrow> Domain \<Rightarrow> bytes option" where
  "mainAddr E d = do { k \<leftarrow> dMain d; map_option IpAddr (mget (leNodes E) k) }"

definition relateAddr :: "LaunchEnv \<Rightarrow> nat \<Rightarrow> bytes list option" where
  "relateAddr E i = do { d \<leftarrow> slot (leShards E) i; if dMain d = None then Some [] else map_option (\<lambda>a. [a]) (mainAddr E d) }"

definition launchAddrs :: "LaunchEnv \<Rightarrow> bytes \<Rightarrow> bytes list option" where
  \<comment> \<open>the addresses \<open>_launchPad\<close> calls \<open>_launch_\<close> for\<close>
  "launchAddrs E a =
     (if a = IdRunningAddr then Some (map IpAddr (filter IsRunning (map snd (leNodes E))))
      else if a = IdLegalAddr then Some (map IpAddr (filter IsLegal (map snd (leNodes E))))
      else if a = PyrRunningAddr then do { d \<leftarrow> leLocal E; ns \<leftarrow> nodesOf E d; Some (map IpAddr (filter IsRunning ns)) }
      else if a = PyramidMainAddr then do { d \<leftarrow> leLocal E; x \<leftarrow> mainAddr E d; Some [x] }
      else if a = PyramidRelateI then do { leLocal E; map_option concat (mapM (relateAddr E) (leRelI E)) }
      else if a = FideRunningAddr then do { d \<leftarrow> leLocal E; ns \<leftarrow> nodesOf E d; Some (map IpAddr (filter IsLegal ns)) }
      else Some [a])"

definition launchPad :: "LaunchEnv \<Rightarrow> (bytes \<Rightarrow> bool) \<Rightarrow> Message \<Rightarrow> Message list option" where
  \<comment> \<open>a message is abandoned when no connection can be made\<close>
  "launchPad E connects m =
     map_option (\<lambda>as. map (\<lambda>a. m\<lparr>RemoteInfo := a\<rparr>) (filter connects as)) (launchAddrs E (RemoteInfo m))"

subsection \<open>What is read is sent, but for the last part of a file that is too short\<close>

fun transfers :: "bytes list list \<Rightarrow> int \<Rightarrow> Transaction list option" where
  \<comment> \<open>the plain transfers of a file, numbered from \<open>k\<close>\<close>
  "transfers [] k = Some []"
| "transfers (row # rows) k =
     do { r \<leftarrow> data2tx row (word_of_int k);
          case r of None \<Rightarrow> transfers rows k | Some tx \<Rightarrow> map_option (Cons tx) (transfers rows (k + 1)) }"

lemma readLoop_batches:
  assumes "transfers rows (int k) = Some txs" "k < N" "length xs < B"
  shows "\<exists>batches cnt. readLoop rows \<lparr>totalDataAmount = int N, batchDataAmount = int B, dataCnt = int k\<rparr> xs =
      Some (batches, \<lparr>totalDataAmount = int N, batchDataAmount = int B, dataCnt = cnt\<rparr>) \<and>
    concat batches = take (if N \<le> k + length txs then length xs + (N - k) else (length xs + length txs) div B * B) (xs @ txs) \<and>
    (\<forall>b\<in>set (butlast batches). length b = B) \<and> (\<forall>b\<in>set batches. b \<noteq> [] \<and> length b \<le> B)"
  using assms
proof (induction rows arbitrary: k txs xs)
  case Nil
  then show ?case by simp
next
  case (Cons row rows)
  obtain r where r: "data2tx row (word_of_int (int k)) = Some r" using Cons.prems(1) by (auto simp: bind_eq_Some_conv)
  show ?case
  proof (cases r)
    case None
    then have "transfers rows (int k) = Some txs" using Cons.prems(1) r by simp
    from Cons.IH[OF this Cons.prems(2,3)] show ?thesis using r None Cons.prems(2,3) by simp
  next
    case (Some tx)
    then obtain ts where ts: "transfers rows (int (Suc k)) = Some ts" "txs = tx # ts"
      using Cons.prems(1) r by (auto simp: add.commute)
    consider (full) "Suc k = N" | (batch) "Suc k < N" "Suc (length xs) = B" | (more) "Suc k < N" "Suc (length xs) < B"
      using Cons.prems(2,3) by linarith
    then show ?thesis
    proof cases
      case full
      then have "readLoop (row # rows) \<lparr>totalDataAmount = int N, batchDataAmount = int B, dataCnt = int k\<rparr> xs =
          Some ([xs @ [tx]], \<lparr>totalDataAmount = int N, batchDataAmount = int B, dataCnt = int N\<rparr>)"
        using r Some by (auto simp: Let_def)
      moreover have "take (length xs + (N - k)) (xs @ txs) = xs @ [tx]" "N \<le> k + length txs" using full ts(2) by auto
      ultimately show ?thesis using Cons.prems(3) by (intro exI[of _ "[xs @ [tx]]"] exI[of _ "int N"]) simp
    next
      case batch
      have "length ([] :: Transaction list) < B" using batch(2) by simp
      from Cons.IH[OF ts(1) batch(1) this] obtain batches cnt where
        ih: "readLoop rows \<lparr>totalDataAmount = int N, batchDataAmount = int B, dataCnt = int (Suc k)\<rparr> [] =
          Some (batches, \<lparr>totalDataAmount = int N, batchDataAmount = int B, dataCnt = cnt\<rparr>)"
        "concat batches = take (if N \<le> Suc k + length ts then N - Suc k else length ts div B * B) ts"
        "\<forall>b\<in>set (butlast batches). length b = B" "\<forall>b\<in>set batches. b \<noteq> [] \<and> length b \<le> B" by auto
      have run: "readLoop (row # rows) \<lparr>totalDataAmount = int N, batchDataAmount = int B, dataCnt = int k\<rparr> xs =
          Some ((xs @ [tx]) # batches, \<lparr>totalDataAmount = int N, batchDataAmount = int B, dataCnt = cnt\<rparr>)"
        using r Some batch ih(1) by (auto simp: Let_def add.commute)
      have len: "length (xs @ [tx]) = B" using batch(2) by simp
      have "take (if N \<le> k + length txs then length xs + (N - k) else (length xs + length txs) div B * B) (xs @ txs) =
          (xs @ [tx]) @ take (if N \<le> Suc k + length ts then N - Suc k else length ts div B * B) ts"
      proof (cases "N \<le> Suc k + length ts")
        case True
        then have "length xs + (N - k) = length (xs @ [tx]) + (N - Suc k)" "N \<le> k + length txs" using batch(1) ts(2) by auto
        then show ?thesis using True ts(2) by simp
      next
        case False
        have "length xs + length txs = B + length ts" "B \<noteq> 0" using batch(2) ts(2) by auto
        then have "(length xs + length txs) div B * B = B + length ts div B * B"
          using div_add_self1[of B "length ts"] mult_Suc[of "length ts div B" B] by (metis Suc_eq_plus1)
        moreover have "\<not> N \<le> k + length txs" using False ts(2) by simp
        ultimately show ?thesis using False len ts(2) by (simp add: batch(2)[symmetric])
      qed
      moreover have "\<forall>b\<in>set (butlast ((xs @ [tx]) # batches)). length b = B" using ih(3) len by simp
      ultimately show ?thesis using run ih(2,4) len by (intro exI[of _ "(xs @ [tx]) # batches"] exI[of _ cnt]) simp
    next
      case more
      have "length (xs @ [tx]) < B" using more(2) by simp
      from Cons.IH[OF ts(1) more(1) this] have ih: "\<exists>batches cnt. readLoop rows \<lparr>totalDataAmount = int N, batchDataAmount = int B, dataCnt = int (Suc k)\<rparr> (xs @ [tx]) =
          Some (batches, \<lparr>totalDataAmount = int N, batchDataAmount = int B, dataCnt = cnt\<rparr>) \<and>
        concat batches = take (if N \<le> Suc k + length ts then length (xs @ [tx]) + (N - Suc k) else (length (xs @ [tx]) + length ts) div B * B) ((xs @ [tx]) @ ts) \<and>
        (\<forall>b\<in>set (butlast batches). length b = B) \<and> (\<forall>b\<in>set batches. b \<noteq> [] \<and> length b \<le> B)" .
      have "readLoop (row # rows) \<lparr>totalDataAmount = int N, batchDataAmount = int B, dataCnt = int k\<rparr> xs =
          readLoop rows \<lparr>totalDataAmount = int N, batchDataAmount = int B, dataCnt = int (Suc k)\<rparr> (xs @ [tx])"
        using r Some more by (auto simp: Let_def add.commute)
      moreover have "(xs @ [tx]) @ ts = xs @ txs" "length (xs @ [tx]) + (N - Suc k) = length xs + (N - k)"
        "length (xs @ [tx]) + length ts = length xs + length txs" "Suc k + length ts = k + length txs" using ts(2) more(1) by auto
      ultimately show ?thesis using ih by metis
    qed
  qed
qed

text \<open>C33: The batches that are sent are, one after the other, the plain transfers of the file in their order, numbered from 0: the first
  \<open>totalDataAmount\<close> of them when the file holds so many, and otherwise as many as fill whole batches; the rest of such a file is
  never sent.\<close>
theorem injection_batches:
  assumes "transfers rows 0 = Some txs" "0 < N" "0 < B"
  shows "\<exists>batches tm. MsgSendingControl rows (NewTxManager (int N) (int B)) = Some (batches, tm) \<and>
    concat batches = take (if N \<le> length txs then N else length txs div B * B) txs \<and>
    (\<forall>b\<in>set (butlast batches). length b = B) \<and> (\<forall>b\<in>set batches. b \<noteq> [] \<and> length b \<le> B)"
proof -
  have "transfers rows (int 0) = Some txs" "length ([] :: Transaction list) < B" using assms by simp_all
  from readLoop_batches[OF this(1) assms(2) this(2)] show ?thesis
    by (auto simp: MsgSendingControl_def NewTxManager_def)
qed

subsection \<open>Every node gets the transactions its shard is related to\<close>

definition isRelated :: "Conf \<Rightarrow> nat \<Rightarrow> Transaction \<Rightarrow> bool" where
  "isRelated conf i tx = (case RelatedShards conf tx of Some is \<Rightarrow> i \<in> set is | None \<Rightarrow> False)"

definition stamped :: "(nat \<Rightarrow> int) \<Rightarrow> nat \<Rightarrow> Transaction list \<Rightarrow> Transaction list" where
  \<comment> \<open>with the times at which they are sent\<close>
  "stamped now k txs = map (\<lambda>(j, tx). tx\<lparr>Time := now j\<rparr>) (zip [k..<k + length txs] txs)"

lemma stamped_Cons: "stamped now k (tx # txs) = tx\<lparr>Time := now k\<rparr> # stamped now (Suc k) txs"
  using upt_conv_Cons[of k "k + length (tx # txs)"] by (simp add: stamped_def)

lemma RelatedShards_Time [simp]: "RelatedShards conf (tx\<lparr>Time := t\<rparr>) = RelatedShards conf tx"
  by (simp add: RelatedShards_def SInShard_def RInShard_def)

lemma isRelated_Time [simp]: "isRelated conf i (tx\<lparr>Time := t\<rparr>) = isRelated conf i tx"
  by (simp add: isRelated_def)

lemma getOr_buffer:
  "distinct is \<Longrightarrow> getOr (fold (\<lambda>i b. mput i (getOr b i [] @ [x]) b) is buf) j [] = getOr buf j [] @ (if j \<in> set is then [x] else [])"
  by (induction "is" arbitrary: buf) (auto simp: getOr_def)

lemma filterM_distinct: "filterM f xs = Some ys \<Longrightarrow> distinct xs \<Longrightarrow> distinct ys \<and> set ys \<subseteq> set xs"
  by (induction xs arbitrary: ys) (auto simp: bind_eq_Some_conv split: if_splits)

lemma RelatedShards_distinct: "RelatedShards conf tx = Some is \<Longrightarrow> distinct is"
  by (auto simp: RelatedShards_def bind_eq_Some_conv dest: filterM_distinct split: if_splits)

lemma bufferTx_shard:
  assumes "bufferTx conf t tx buf = Some b"
  shows "getOr b i [] = getOr buf i [] @ (if isRelated conf i tx then [tx\<lparr>Time := t\<rparr>] else [])"
proof -
  obtain "is" where r: "RelatedShards conf tx = Some is" "b = fold (\<lambda>i b. mput i (getOr b i [] @ [tx\<lparr>Time := t\<rparr>]) b) is buf"
    using assms by (auto simp: bufferTx_def)
  show ?thesis unfolding r(2) getOr_buffer[OF RelatedShards_distinct[OF r(1)]] using r(1) by (simp add: isRelated_def)
qed

lemma sendLoop_shard:
  assumes "sendLoop conf now n k txs buf = Some bufs" "txs = [] \<Longrightarrow> buf = []"
  shows "concat (map (\<lambda>b. getOr b i []) bufs) = getOr buf i [] @ filter (isRelated conf i) (stamped now k txs)"
  using assms
proof (induction txs arbitrary: k buf bufs)
  case Nil
  then show ?case by (simp add: getOr_def stamped_def)
next
  case (Cons tx txs)
  obtain b where b: "bufferTx conf (now k) tx buf = Some b" using Cons.prems(1) by (auto simp: bind_eq_Some_conv)
  note shard = bufferTx_shard[OF b, of i]
  show ?case
  proof (cases "Suc k mod n = 0 \<or> txs = []")
    case True
    then obtain bs where bs: "sendLoop conf now n (Suc k) txs [] = Some bs" "bufs = b # bs" using Cons.prems(1) b by auto
    from Cons.IH[OF bs(1)] show ?thesis using bs(2) shard by (simp add: stamped_Cons getOr_def)
  next
    case False
    then have "sendLoop conf now n (Suc k) txs b = Some bufs" using Cons.prems(1) b by simp
    from Cons.IH[OF this] show ?thesis using False shard by (simp add: stamped_Cons)
  qed
qed

definition onlyAt :: "Conf \<Rightarrow> nodeMap \<Rightarrow> Domain list \<Rightarrow> nat \<Rightarrow> bytes \<Rightarrow> bool" where
  \<comment> \<open>the address is that of one node, which is in the shard \<open>i\<close>\<close>
  "onlyAt conf nodes ds i a \<longleftrightarrow> i < ShardAmount conf \<and>
     list_all (\<lambda>j. case do { d \<leftarrow> slot ds j; nodeAddrs nodes d } of None \<Rightarrow> True
       | Some as \<Rightarrow> filter (\<lambda>x. x = a) as = (if j = i then [a] else [])) [0..<ShardAmount conf]"

lemma onlyAtD:
  "onlyAt conf nodes ds i a \<Longrightarrow> j < ShardAmount conf \<Longrightarrow> slot ds j = Some d \<Longrightarrow> nodeAddrs nodes d = Some as \<Longrightarrow>
   filter (\<lambda>x. x = a) as = (if j = i then [a] else [])"
  by (force simp: onlyAt_def list_all_iff)

lemma concat_single: "concat (map (\<lambda>j. if j = i then [x] else []) [0..<n]) = (if i < n then [x] else [])"
  by (induction n) auto

lemma filter_dest: "filter (\<lambda>m. tmDest m = a) (map (\<lambda>x. \<lparr>tmMode = mode, tmDest = x, tmContent = c\<rparr>) as) =
   map (\<lambda>x. \<lparr>tmMode = mode, tmDest = x, tmContent = c\<rparr>) (filter (\<lambda>x. x = a) as)"
  by (induction as) auto

lemma SendTxs_at:
  assumes "SendTxs enc conf nodes ds buf = Some ms" "modeOf conf = Some mode" "onlyAt conf nodes ds i a"
  shows "filter (\<lambda>m. tmDest m = a) ms = [\<lparr>tmMode = mode, tmDest = a, tmContent = NewByteContent [enc (getOr buf i [])]\<rparr>]"
proof -
  let ?msg = "\<lambda>j. \<lambda>x. \<lparr>tmMode = mode, tmDest = x, tmContent = NewByteContent [enc (getOr buf j [])]\<rparr>"
  let ?f = "\<lambda>j. do { d \<leftarrow> slot ds j; addrs \<leftarrow> nodeAddrs nodes d; Some (map (?msg j) addrs) }"
  obtain mss where mss: "mapM ?f [0..<ShardAmount conf] = Some mss" "ms = concat mss"
    using assms(1,2) by (auto simp: SendTxs_def)
  have len: "length mss = ShardAmount conf" and each: "\<And>j. j < ShardAmount conf \<Longrightarrow> ?f j = Some (mss ! j)"
    using mss(1) unfolding mapM_eq_Some by (auto simp: list_all2_conv_all_nth)
  have filt: "filter (\<lambda>m. tmDest m = a) (mss ! j) = (if j = i then [?msg i a] else [])" if j: "j < ShardAmount conf" for j
  proof -
    obtain d as where d: "slot ds j = Some d" "nodeAddrs nodes d = Some as" "mss ! j = map (?msg j) as"
      using each[OF j] by (auto simp: bind_eq_Some_conv)
    have "filter (\<lambda>x. x = a) as = (if j = i then [a] else [])" by (rule onlyAtD[OF assms(3) j d(1,2)])
    then show ?thesis unfolding d(3) filter_dest by simp
  qed
  have "filter (\<lambda>m. tmDest m = a) ms = concat (map (filter (\<lambda>m. tmDest m = a)) mss)" by (simp add: mss(2) filter_concat)
  also have "map (filter (\<lambda>m. tmDest m = a)) mss = map (\<lambda>j. if j = i then [?msg i a] else []) [0..<ShardAmount conf]"
    using len filt by (intro nth_equalityI) simp_all
  finally show ?thesis using assms(3) unfolding concat_single onlyAt_def by simp
qed

lemma foldM_concat: "foldM f (concat xss) s = foldM (\<lambda>xs s. foldM f xs s) xss s"
  by (induction xss arbitrary: s) (simp_all add: foldM_append)

lemma foldM_map: "foldM f (map g xs) s = foldM (\<lambda>x s. f (g x) s) xs s"
  by (induction xs arbitrary: s) (simp_all split: Option.bind_split)

lemma foldM_cong: "(\<And>x s. x \<in> set xs \<Longrightarrow> f x s = g x s) \<Longrightarrow> foldM f xs s = foldM g xs s"
proof (induction xs arbitrary: s)
  case (Cons x xs)
  have "f x s = g x s" using Cons.prems by simp
  moreover have "foldM f xs s' = foldM g xs s'" for s' using Cons.IH Cons.prems by simp
  ultimately show ?case by (simp split: Option.bind_split)
qed simp

lemma filter_sent:
  assumes "mapM (SendTxs enc conf nodes ds) bufs = Some mss" "modeOf conf = Some mode" "onlyAt conf nodes ds i a"
  shows "filter (\<lambda>m. tmDest m = a) (concat mss) =
    map (\<lambda>b. \<lparr>tmMode = mode, tmDest = a, tmContent = NewByteContent [enc (getOr b i [])]\<rparr>) bufs"
  using assms(1)
proof (induction bufs arbitrary: mss)
  case (Cons b bufs)
  then obtain ms mss' where "SendTxs enc conf nodes ds b = Some ms" "mapM (SendTxs enc conf nodes ds) bufs = Some mss'" "mss = ms # mss'"
    by (auto simp: bind_eq_Some_conv)
  then show ?case using Cons.IH SendTxs_at[OF _ assms(2,3), of enc b ms] by simp
qed simp

text \<open>C34: A node that handles the messages of a batch in the order they were sent has appended to its pool, in the order of the
  batch, exactly the transactions that its shard is related to, with the times of their sending.\<close>
theorem injected_delivered:
  assumes "sending conf now perSend txs = Some bufs" "mapM (SendTxs enc conf nodes ds) bufs = Some mss"
    and "modeOf conf = Some mode" "onlyAt conf nodes ds i a"
    and codec: "\<forall>b\<in>set bufs. dec (enc (getOr b i [])) = Some (getOr b i [])" and "waits < 32"
  shows "foldM (\<lambda>m pool. HandleSendTxs dec conf H waits (tmContent m) pool) (filter (\<lambda>m. tmDest m = a) (concat mss)) pool =
    foldM (\<lambda>tx pool. TxPool.Append conf H tx pool) (filter (isRelated conf i) (stamped now 0 txs)) pool"
proof -
  let ?app = "\<lambda>tx pool. TxPool.Append conf H tx pool"
  have handle: "HandleSendTxs dec conf H waits (NewByteContent [enc (getOr b i [])]) p = foldM ?app (getOr b i []) p"
    if b: "b \<in> set bufs" for b p
  proof -
    have "dec (enc (getOr b i [])) = Some (getOr b i [])" using codec b by blast
    then show ?thesis using assms(6) by (simp add: HandleSendTxs_def ParseContent_New slot_def)
  qed
  have all: "concat (map (\<lambda>b. getOr b i []) bufs) = filter (isRelated conf i) (stamped now 0 txs)"
    using sendLoop_shard[OF assms(1)[unfolded sending_def], of i] by (simp add: getOr_def)
  have "foldM (\<lambda>m pool. HandleSendTxs dec conf H waits (tmContent m) pool) (filter (\<lambda>m. tmDest m = a) (concat mss)) pool =
      foldM (\<lambda>b pool. HandleSendTxs dec conf H waits (NewByteContent [enc (getOr b i [])]) pool) bufs pool"
    unfolding filter_sent[OF assms(2-4)] foldM_map by simp
  also have "\<dots> = foldM (\<lambda>b pool. foldM ?app (getOr b i []) pool) bufs pool" by (rule foldM_cong) (rule handle)
  also have "\<dots> = foldM ?app (concat (map (\<lambda>b. getOr b i []) bufs)) pool" unfolding foldM_concat foldM_map ..
  finally show ?thesis unfolding all .
qed

subsection \<open>Examples\<close>

definition injRow :: "bytes \<Rightarrow> bytes list" where
  \<comment> \<open>a transfer to the given account\<close>
  "injRow r = [''1'', ''2'', ''h'', ''0x00000000000000000001'', ''0x0000000000000000000'' @ r, [], ''0'', ''0'', ''25'']"

definition injRows :: "bytes list list" where
  \<comment> \<open>the second row calls a contract\<close>
  "injRows = [injRow ''2'', (injRow ''3'')[6 := ''1''], injRow ''4'', injRow ''5'']"

definition injTxs :: "Transaction list" where
  "injTxs = (case transfers injRows 0 of Some txs \<Rightarrow> txs | None \<Rightarrow> [])"

lemma injTxs: "transfers injRows 0 = Some injTxs" "length injTxs = 3" "map Amnt injTxs = [Some 25, Some 25, Some 25]"
  by code_simp+

theorem injection_batches_witness:
  "(\<exists>batches tm. MsgSendingControl injRows (NewTxManager 10 2) = Some (batches, tm) \<and> concat batches = take 2 injTxs) \<and>
   (\<exists>batches tm. MsgSendingControl injRows (NewTxManager 3 2) = Some (batches, tm) \<and> concat batches = injTxs) \<and> length injTxs = 3"
proof -
  have c: "(0 :: nat) < 10" "(0 :: nat) < 2" "(0 :: nat) < 3" "int 10 = 10" "int 2 = 2" "int 3 = 3" by simp_all
  obtain batches tm where "MsgSendingControl injRows (NewTxManager 10 2) = Some (batches, tm)" "concat batches = take 2 injTxs"
    using injection_batches[OF injTxs(1) c(1,2), unfolded c(4-6) injTxs(2)] by auto
  moreover obtain batches' tm' where "MsgSendingControl injRows (NewTxManager 3 2) = Some (batches', tm')" "concat batches' = injTxs"
    using injection_batches[OF injTxs(1) c(3,2), unfolded c(4-6) injTxs(2)] injTxs(2) by auto
  ultimately show ?thesis using injTxs(2) by blast
qed

definition injConf :: Conf where
  "injConf = \<lparr>ShardAmount = 2, MaxBlockSize = 4, txTest = False, pyrConf = shipped\<lparr>pyrEnable := False\<rparr>,
     fideConf = \<lparr>fideEnable = True, fideShardAmount = 2, fideThreshold = 2, StorageOptimize = False\<rparr>,
     monoConf = \<lparr>monoShardAmount = 2, monoEnable = False\<rparr>\<rparr>"

definition injNodes :: nodeMap where
  "injNodes = [(''p'', portNode 1 ''1''), (''q'', portNode 2 ''2''), (''r'', (portNode 3 ''3'')\<lparr>ShardID := 1\<rparr>)]"

definition injShards :: "Domain list" where
  "injShards = [\<lparr>dSid = 0, dMap = [''p'', ''q''], dMain = Some ''p''\<rparr>, \<lparr>dSid = 1, dMap = [''r''], dMain = Some ''r''\<rparr>]"

definition injBatch :: "Transaction list" where
  "injBatch = [demoTx ''00000001'' ''00000002'', demoTx ''00000002'' ''00000001'', demoTx ''00000003'' ''00000002'']"

definition injCode :: "Transaction list \<Rightarrow> bytes" where
  \<comment> \<open>for the lists of one batch\<close>
  "injCode txs = concat (map Sender txs)"

definition injDecode :: "bytes \<Rightarrow> Transaction list option" where
  "injDecode c = (if c = [] then Some [] else if c = ''00000001'' then Some [(demoTx ''00000001'' ''00000002'')\<lparr>Time := 0\<rparr>]
     else if c = ''00000003'' then Some [(demoTx ''00000003'' ''00000002'')\<lparr>Time := 2\<rparr>] else None)"

theorem injected_delivered_witness:
  "\<exists>bufs mss a. sending injConf int 2 injBatch = Some bufs \<and> mapM (SendTxs injCode injConf injNodes injShards) bufs = Some mss \<and>
     length bufs = 2 \<and> length (filter (isRelated injConf 1) (stamped int 0 injBatch)) = 2 \<and>
     foldM (\<lambda>m pool. HandleSendTxs injDecode injConf (txHash demoLib) 0 (tmContent m) pool) (filter (\<lambda>m. tmDest m = a) (concat mss)) demoPool0 =
       foldM (\<lambda>tx pool. TxPool.Append injConf (txHash demoLib) tx pool) (filter (isRelated injConf 1) (stamped int 0 injBatch)) demoPool0"
proof -
  have "(case sending injConf int 2 injBatch of None \<Rightarrow> False | Some bufs \<Rightarrow>
      length bufs = 2 \<and> mapM (SendTxs injCode injConf injNodes injShards) bufs \<noteq> None \<and>
      list_all (\<lambda>b. injDecode (injCode (getOr b 1 [])) = Some (getOr b 1 [])) bufs)" by code_simp
  then obtain bufs mss where r: "sending injConf int 2 injBatch = Some bufs" "mapM (SendTxs injCode injConf injNodes injShards) bufs = Some mss"
    "length bufs = 2" "\<forall>b\<in>set bufs. injDecode (injCode (getOr b 1 [])) = Some (getOr b 1 [])"
    by (auto split: option.splits simp: list_all_iff)
  have m: "modeOf injConf = Some FideMod" by code_simp
  have o: "onlyAt injConf injNodes injShards 1 (IpAddr (portNode 3 ''3''))" by code_simp
  have s: "length (filter (isRelated injConf 1) (stamped int 0 injBatch)) = 2" by code_simp
  have w: "(0 :: nat) < 32" by simp
  from injected_delivered[OF r(1,2) m o r(4) w, of "txHash demoLib" demoPool0] r(1-3) s show ?thesis by blast
qed

end
