(* ===== verification/Spec2Isabelle.thy ===== *)
theory Spec2Isabelle
  imports Content Crypt Config Proposals Wire Transaction TxPool Blocks Chain Quorum IdChain Pbft Monoxide Monosulfide Pyramid Epoch Sync Manage CrossLock PyrOps ShardOps Inject
begin

text \<open>
  A model of Monosulfide, a Go emulator of sharded blockchains (\<^verbatim>\<open>src/\<close>).  A node of the network takes part in the
  identity domain, which keeps the list of all nodes on the \<^emph>\<open>identity chain\<close>, and, after an epoch block has
  distributed the nodes, in one shard.  Each domain has a consensus (PBFT or proof of work), which takes operations
  from a proposal buffer, agrees on one at a time and executes it.  The shards follow one of three designs: \<^emph>\<open>Monoxide\<close>
  (a tree of relay blocks per shard), \<^emph>\<open>Monosulfide\<close> (blocks of all shards that refer to each other), and \<^emph>\<open>Pyramid\<close>
  (b-shards that also keep the chains of their i-shards).  Besides the consensus the nodes exchange messages that are
  not agreed on, such as registrations and the blocks of other shards.

  \<^bold>\<open>Theories and code.\<close>
  \<^item> \<open>Prelude\<close>: Go maps as association lists (\<open>gomap\<close>, with \<open>mget\<close>, \<open>mput\<close>, \<open>mdel\<close>), slices with panics (\<open>slot\<close>, \<open>setSlot\<close>),
    loops that may panic (\<open>mapM\<close>, \<open>foldM\<close>, \<open>allM\<close>), decimal and big-endian numbers, the order of a map iteration (\<open>iter_ok\<close>), and
    the locale \<open>machine\<close> for invariants over sequences of operations.
  \<^item> \<open>Content\<close>, \<open>Wire\<close>: \<^verbatim>\<open>message/Content.go\<close>, \<^verbatim>\<open>message/message.go\<close>, \<^verbatim>\<open>networks/p2pNetwork.go\<close>, \<^verbatim>\<open>launch/\<close> and the opening of a
    message in \<^verbatim>\<open>consensus_shard/Selector.go\<close>: fields, escaping, frames, signatures.
  \<^item> \<open>Crypt\<close>: \<^verbatim>\<open>crypt/toolFuncs.go\<close>, \<^verbatim>\<open>crypt/Hash.go\<close>: integers as bytes, draws from a hash, compact targets.
  \<^item> \<open>Config\<close>: \<^verbatim>\<open>config/\<close>: the settings, and the routes between the shards of Pyramid.
  \<^item> \<open>Proposals\<close>: \<^verbatim>\<open>Proposals/\<close>: the binary heap of the waiting operations.
  \<^item> \<open>Transaction\<close>, \<open>TxPool\<close>: \<^verbatim>\<open>Tx/\<close>: transactions, their shards and Merkle root, the splitting along a relay route, and the
    pool that is packaged into blocks.
  \<^item> \<open>Blocks\<close>, \<open>Chain\<close>: \<^verbatim>\<open>Block/\<close>, \<^verbatim>\<open>storage/storage.go\<close>, \<^verbatim>\<open>blockchain/chain.go\<close>: the kinds of block and the chain that
    identity blocks are stored in.
  \<^item> \<open>Quorum\<close>: the threshold of every domain, as a locale that \<open>IdChain\<close> and \<open>Shards\<close> instantiate.
  \<^item> \<open>IdChain\<close>: \<^verbatim>\<open>idChain/\<close>, \<^verbatim>\<open>Comm/IdChainComm/Register.go\<close>, \<^verbatim>\<open>BroadcastTx.go\<close>: nodes, registration, the main node.
  \<^item> \<open>Pbft\<close>: \<^verbatim>\<open>consensus_shard/pbft/\<close>: every message handler and the proposer.
  \<^item> \<open>BlockTree\<close>: the walk over parent hashes that the chains share; \<open>Monoxide\<close>, \<open>Monosulfide\<close>, \<open>Pyramid\<close>: the chains of the
    three designs (\<^verbatim>\<open>monoxide/monoxideChain.go\<close>, \<^verbatim>\<open>Monosulfide/MonosulfideChain.go\<close>, \<^verbatim>\<open>pyramid/PyrChain.go\<close>).
  \<^item> \<open>Shards\<close>: the shard types and \<open>RDomain\<close> of \<^verbatim>\<open>Opts/Op_EpochReset.go\<close>, which forms the shards; \<open>Epoch\<close>: the operations of the
    identity domain (\<^verbatim>\<open>Opts/Op_EpochReset.go\<close>, \<^verbatim>\<open>Op_Empty.go\<close>, \<^verbatim>\<open>Op_RemoveNode.go\<close>); \<open>Pow\<close>: \<^verbatim>\<open>consensus_shard/pow/\<close> and
    \<^verbatim>\<open>Comm/PoWBroadcast.go\<close>.
  \<^item> \<open>Sync\<close>: \<^verbatim>\<open>SyncFideBlock.go\<close>, \<^verbatim>\<open>SyncRelayBlock.go\<close> and \<^verbatim>\<open>SyncIBlock.go\<close> under \<^verbatim>\<open>Comm/\<close>: the blocks of other shards.
  \<^item> \<open>Manage\<close>: \<^verbatim>\<open>Comm/ViewChange.go\<close>, \<^verbatim>\<open>Comm/IdChainComm/Com_ProposalBufferMigrate.go\<close>, \<^verbatim>\<open>Interfaces/Operations.go\<close>: the change of the
    main node and the way of its proposals to the new one.
  \<^item> \<open>CrossLock\<close>: \<^verbatim>\<open>Comm/PyramidComm/CrossLock.go\<close>: the lock of a b-shard on its i-shards, and the network of the main nodes.
  \<^item> \<open>PyrOps\<close>: the operations of Pyramid (\<^verbatim>\<open>Opts/Op_Py*.go\<close>) and \<^verbatim>\<open>CrossPrepare.go\<close>, \<^verbatim>\<open>CrossReply.go\<close>: the way of a cross block
    from the b-shard to its i-shards.
  \<^item> \<open>ShardOps\<close>: the operations of Monoxide and Monosulfide (\<^verbatim>\<open>Opts/MonoxideRelayTxs.go\<close>, \<^verbatim>\<open>Opts/SpiralTxs.go\<close>), which \<open>Pow\<close> proposes
    and executes on the chains, and \<^verbatim>\<open>Comm/MainBegin.go\<close>, by which the shards start.
  \<^item> \<open>Inject\<close>: \<^verbatim>\<open>AutoTx/txManage.go\<close>: the transactions of the experiment, from the rows of the input to the pools of the shards; and the
    resolution of addresses in \<^verbatim>\<open>launch/msgLaunch.go\<close>.

  \<^bold>\<open>Conventions.\<close>  A struct is a record whose fields keep their names where Isabelle allows it; a pointer that may be nil
  is an \<open>option\<close>; a panic of the code is the value \<open>None\<close> of an operation, an error that the code returns is a value.  \<open>uint64\<close>
  is \<open>64 word\<close>; \<open>int\<close> is \<open>int\<close> or \<open>nat\<close> where its range does not matter, and its wrap-around is written out where it does.
  Strings and byte slices are lists of characters.  The iteration over a Go map goes in an order that is an argument,
  about which only \<open>iter_ok\<close> is known.  A mutex makes the body it guards one step.  Messages that are sent are
  recorded in the state (\<open>Out\<close> in \<open>Pbft\<close>, \<open>pwOut\<close> in \<open>Pow\<close>) or are the result.

  \<^bold>\<open>Parameters.\<close>  What is not under \<^verbatim>\<open>src/\<close>, or is a library that the code only calls, is an argument: the hashes,
  and the gob and JSON codings of blocks and transactions (the record \<open>Lib\<close>), the store bolt (the record \<open>KV\<close>
  with the laws \<open>kvLaws\<close>), random numbers and the clock.  Laws about them are hypotheses of the theorems that need
  them, and each such theorem has a witness with a concrete parameter.

  \<^bold>\<open>What the lemmas show.\<close>
  \<^item> Agreement (\<open>Pbft\<close>): handlers refine an abstract protocol; votes are filed under their round; each executed round has
    certificates of \<open>Threshold\<close> votes; rounds are executed in order; nodes that executed rounds share a voter, by the
    quorum lemmas of \<open>Quorum\<close>.  \<open>Pow\<close>: what is executed is what was prepared.
  \<^item> The identity domain: the main node stays a running node after any blocks; a registering node replays the chain to the same view; the same epoch block leads nodes of the same view to
    the same shards, which partition the nodes.
  \<^item> The chains: the invariants of the tree of blocks, the weights, the heaviest branch, and the pool after a change of the
    branch in Monoxide; the causal closure of the past, the end of the search for the best branches and exactly when a
    generated block of Monosulfide is valid; what appending does in Pyramid, and that no cross block gets through it.
  \<^item> Synchronisation: blocks of other shards are appended once, after enough messages, and always when these came.
  \<^item> Management: a main node is only replaced on \<open>Threshold\<close> requests, nodes of the same view agree on its successor, which gets
    all proposals.
  \<^item> Cross blocks: as long as the messages of one node to another are handled in the order in which they were sent, b-shards with a common
    i-shard do not hold their locks together and no message of the lock panics; the code does not ensure this order, and
    \<open>reordered_two_holders\<close> and \<open>reordered_panics\<close> show what happens without it.  All nodes of a round append the same block.
  \<^item> Mining of the shards: what a miner of Monoxide or Monosulfide generates is accepted by the nodes that receive it and executed on
    their chains.
  \<^item> Data: every node gets the injected transactions its shard is related to; heap order and priority of the proposals;
    placement, removal and fair packaging in the pool; binding of the Merkle root; round trips of content and frames; routes between all pairs of shards.
  \<^item> Some theorems show that the code does less than it means to: an execution that panics, messages that are counted
    without their senders, a search that leaves an invalid view, an epoch block that stops the mining, a wake-up that is
    lost, a wrong block that ends the program of its receivers, a refusal that is not sent or counts like consent.

  \<^bold>\<open>Fuel.\<close>  Loops over parent hashes end in the code because every block is older than its children; \<open>branch\<close> has
  fuel, \<open>Suc\<close> of the number of stored blocks, which the invariants of the trees show to be enough (a branch
  visits a block once).  The search for the best branches runs with \<open>2 * blocks + 2\<close> iterations, and it is
  proved that it ends within them.  \<open>checkLoop\<close> of \<open>Sync\<close> has one unit for each counted hash and one for the last round: each
  call removes one.  \<open>mine\<close> of \<open>Epoch\<close> has an arbitrary fuel, as mining need not end; \<open>printChain\<close> of
  \<open>Pyramid\<close> has an arbitrary one, tells its end (\<open>Unfinished\<close>) apart from a panic, and is proved to end within the number of stored blocks.

  \<^bold>\<open>Not modelled.\<close>  Sockets, goroutines, timers, files and logs; the RSA keys (\<^verbatim>\<open>crypt/key.go\<close>) and the state trie
  (\<^verbatim>\<open>storage/trie.go\<close>), which only call libraries; the start of the program and the methods that only return a field or pass on their
  parameters.
\<close>

end
